(* ===== verification/Prelude.thy ===== *)
theory Prelude
  imports Main "HOL-Library.Word" "HOL-Library.AList" "HOL-Library.Multiset"
begin

text \<open>
  What every component of the development shares: the Go integer types, the loop
  \<open>for i := 0; i < n; i++\<close> over a slice with the surrounding state threaded through it
  (\<open>traverse\<close>), the contracts such a loop inherits from its body (two locales), and
  generic lemmas on lists, association lists and words.

  A Go \<open>int\<close> or \<open>int64\<close> is a \<open>64 word\<close> read with \<open>sint\<close>, a \<open>uint64\<close> a \<open>64 word\<close>
  read with \<open>unat\<close>; addition wraps as it does in Go. A \<open>float64\<close> is its bit pattern.
\<close>

type_synonym u64 = "64 word"
type_synonym u32 = "32 word"
type_synonym i64 = "64 word"
type_synonym f64 = "64 word"

named_theorems frame_simps "which fields an operation leaves alone"
named_theorems count_simps "how an operation changes the size of a container"

unbundle bit_operations_syntax

section \<open>Loops over a slice\<close>

text \<open>
  \<open>traverse f xs s\<close> calls \<open>f\<close> on the elements in order, threads the state and collects
  what each call returned. Every loop of the hot path has this shape.
\<close>

fun traverse :: "('a \<Rightarrow> 's \<Rightarrow> 'b \<times> 's) \<Rightarrow> 'a list \<Rightarrow> 's \<Rightarrow> 'b list \<times> 's" where
  "traverse f [] s = ([], s)"
| "traverse f (x # xs) s =
     (let (y, s1) = f x s; (ys, s2) = traverse f xs s1 in (y # ys, s2))"

lemma length_traverse [simp]: "length (fst (traverse f xs s)) = length xs"
  by (induction xs arbitrary: s) (auto simp: split_beta Let_def)

lemma traverse_append:
  "traverse f (xs @ ys) s =
     (fst (traverse f xs s) @ fst (traverse f ys (snd (traverse f xs s))),
      snd (traverse f ys (snd (traverse f xs s))))"
  by (induction xs arbitrary: s) (auto simp: split_beta Let_def)

lemma traverse_map:
  assumes "I s"
    and "\<And>x t. I t \<Longrightarrow> f (fst (body x t)) = g x"
    and "\<And>x t. I t \<Longrightarrow> I (snd (body x t))"
  shows "map f (fst (traverse body xs s)) = map g xs"
  using assms(1) by (induction xs arbitrary: s) (auto simp: split_beta Let_def assms(2,3))

text \<open>
  A relation between the states before and after the body that is reflexive and
  transitive holds between the states before and after the loop.
\<close>

locale loop_contract =
  fixes body :: "'a \<Rightarrow> 's \<Rightarrow> 'b \<times> 's" and R :: "'s \<Rightarrow> 's \<Rightarrow> bool"
  assumes R_refl: "R s s"
    and R_trans: "R s t \<Longrightarrow> R t u \<Longrightarrow> R s u"
    and body_R: "R s (snd (body x s))"
begin

lemma loop_R: "R s (snd (traverse body xs s))"
proof (induction xs arbitrary: s)
  case Nil
  show ?case by (simp add: R_refl)
next
  case (Cons x xs)
  have "R s (snd (traverse body xs (snd (body x s))))"
    using body_R Cons.IH by (rule R_trans)
  then show ?case by (simp add: split_beta Let_def)
qed

end

text \<open>The special case of an invariant, and of what the body returns for its element.\<close>

locale loop_invariant =
  fixes body :: "'a \<Rightarrow> 's \<Rightarrow> 'b \<times> 's" and I :: "'s \<Rightarrow> bool"
  assumes body_I: "I s \<Longrightarrow> I (snd (body x s))"

sublocale loop_invariant \<subseteq> loop_contract body "\<lambda>s t. I s \<longrightarrow> I t"
  by unfold_locales (auto intro: body_I)

context loop_invariant begin

lemma loop_I: "I s \<Longrightarrow> I (snd (traverse body xs s))"
  using loop_R by blast

end

locale loop_output = loop_invariant body I
  for body :: "'a \<Rightarrow> 's \<Rightarrow> 'b \<times> 's" and I :: "'s \<Rightarrow> bool" +
  fixes P :: "'a \<Rightarrow> 'b \<Rightarrow> bool"
  assumes body_P: "I s \<Longrightarrow> P x (fst (body x s))"
begin

lemma loop_P: "I s \<Longrightarrow> list_all2 P xs (fst (traverse body xs s))"
proof (induction xs arbitrary: s)
  case Nil
  show ?case by simp
next
  case (Cons x xs)
  from Cons.prems have "I (snd (body x s))" by (rule body_I)
  then have "list_all2 P xs (fst (traverse body xs (snd (body x s))))" by (rule Cons.IH)
  with body_P [OF Cons.prems, of x] show ?case by (simp add: split_beta Let_def)
qed

end

section \<open>Association lists with distinct keys\<close>

definition keys_distinct :: "('k \<times> 'v) list \<Rightarrow> bool" where
  "keys_distinct m = distinct (map fst m)"

lemma keys_distinct_Nil [simp]: "keys_distinct []"
  by (simp add: keys_distinct_def)

lemma keys_distinct_update [simp]: "keys_distinct m \<Longrightarrow> keys_distinct (AList.update k v m)"
  by (simp add: keys_distinct_def distinct_update)

lemma keys_distinct_delete [simp]: "keys_distinct m \<Longrightarrow> keys_distinct (AList.delete k m)"
  by (simp add: keys_distinct_def distinct_delete)

lemma length_update [count_simps]:
  "length (AList.update k v m) = (if map_of m k = None then Suc (length m) else length m)"
  by (induction m) auto

lemma length_delete [count_simps]:
  "keys_distinct m \<Longrightarrow>
   length (AList.delete k m) = (if map_of m k = None then length m else length m - 1)"
proof (induction m)
  case Nil
  then show ?case by simp
next
  case (Cons kv m)
  obtain k' v where kv: "kv = (k', v)" by force
  show ?case
  proof (cases "k' = k")
    case True
    with Cons.prems kv have "k \<notin> fst ` set m" by (auto simp: keys_distinct_def)
    then have "AList.delete k m = m" by (simp add: delete_id)
    with True kv show ?thesis by simp
  next
    case False
    with Cons kv have IH: "length (AList.delete k m) =
        (if map_of m k = None then length m else length m - 1)"
      by (simp add: keys_distinct_def)
    have "map_of m k \<noteq> None \<Longrightarrow> 0 < length m" by (cases m) auto
    with False kv IH show ?thesis by auto
  qed
qed

section \<open>Words\<close>

lemma mask_and_bound: "unat ((x::u64) AND (256 - 1)) < 256"
proof -
  have "unat (x AND 255) \<le> unat (255::u64)"
    by (rule word_and_le1 [THEN word_le_nat_alt [THEN iffD1]])
  then show ?thesis by simp
qed

lemma unat_of_nat_u64 [simp]: "n < 2 ^ 64 \<Longrightarrow> unat (of_nat n :: u64) = n"
  by (simp add: unat_of_nat)

lemma of_nat_u64_inj: "of_nat m = (of_nat n :: u64) \<Longrightarrow> m < 2 ^ 64 \<Longrightarrow> n < 2 ^ 64 \<Longrightarrow> m = n"
  by (metis unat_of_nat_u64)

lemma int_unat_eq_sint: "0 \<le> sint (x :: i64) \<Longrightarrow> int (unat x) = sint x"
  using sint_less [of x] by (simp add: uint_sint take_bit_int_eq_self)

lemma sint_of_nat_i64 [simp]: "n < 2 ^ 63 \<Longrightarrow> sint (of_nat n :: i64) = int n"
  by (simp add: signed_of_nat signed_take_bit_int_eq_self)

lemma sint_of_int_i64: "- (2 ^ 63) \<le> z \<Longrightarrow> z < 2 ^ 63 \<Longrightarrow> sint (of_int z :: i64) = z"
  by (simp add: signed_of_int signed_take_bit_int_eq_self)

lemma word_sub_no_underflow:
  fixes a b :: u64
  assumes "b < a"
  shows "unat (a - b) = unat a - unat b"
  using assms by (simp add: unat_sub less_imp_le)

end
