(* ===== verification/Pdata.thy ===== *)
theory Pdata
  imports Prelude
begin

text \<open>
  The data the processor receives and the libraries it calls. The collector's \<open>pdata\<close>
  package, the HyperLogLog sketch, \<open>xxhash\<close>, \<open>maphash\<close> and the float unit are not part
  of this repository: their functions are the fields of the record \<open>lib\<close>, an argument of
  every definition that calls them. What their documentation promises is stated as
  predicates on \<open>lib\<close> (\<open>pdata_laws\<close>, \<open>sketch_laws\<close>) and is a named hypothesis of the
  theorems that rely on it. The data itself is concrete: an attribute map is its sequence
  of key/value entries, a data point slice is a list, a data point a record of the fields
  the code reads and writes.
\<close>

section \<open>Data points and metrics\<close>

type_synonym 'v attrs = "(string \<times> 'v) list"

datatype number_value = NumberEmpty | NumberInt i64 | NumberDouble f64

record ('v, 'x) number_dp =
  dp_attributes :: "'v attrs"
  dp_startTimestamp :: u64
  dp_timestamp :: u64
  dp_value :: number_value
  dp_exemplars :: "'x list"
  dp_flags :: u32

text \<open>
  Histogram, exponential histogram and summary points: the processor touches only their
  attributes, so the rest of the point is one opaque payload.
\<close>

record ('v, 'x) other_dp =
  od_attributes :: "'v attrs"
  od_payload :: 'x

datatype temporality = TemporalityUnspecified | TemporalityDelta | TemporalityCumulative

datatype metricType = MetricTypeEmpty | MetricTypeGauge | MetricTypeSum
  | MetricTypeHistogram | MetricTypeExponentialHistogram | MetricTypeSummary

datatype ('v, 'x) metric_data =
    EmptyMetric
  | Gauge "('v, 'x) number_dp list"
  | SumMetric temporality bool "('v, 'x) number_dp list"
  | Histogram temporality "('v, 'x) other_dp list"
  | ExponentialHistogram temporality "('v, 'x) other_dp list"
  | Summary "('v, 'x) other_dp list"

record ('v, 'x) metric =
  m_name :: string
  m_description :: string
  m_unit :: string
  m_data :: "('v, 'x) metric_data"

record ('v, 'x) scope_metrics =
  sm_scope :: "'v attrs"
  sm_metrics :: "('v, 'x) metric list"

record ('v, 'x) resource_metrics =
  rm_resource :: "'v attrs"
  rm_scopes :: "('v, 'x) scope_metrics list"

section \<open>The libraries\<close>

text \<open>
  \<open>map_RemoveIf L ds m\<close> is what \<open>Map.RemoveIf\<close> leaves of \<open>m\<close> when its callback answered
  \<open>ds\<close> on the successive entries; the calls themselves are made in the model, because the
  callback changes the processor. \<open>slice_RemoveIf\<close> is the same for a data point slice.
  \<open>MoveAndAppendTo L src dst\<close> returns the two exemplar slices afterwards.
  \<open>Estimate\<close> returns the sketch too: the library merges its sparse set in that call.
\<close>

record ('v, 'x, 'sk) lib =
  Sum64String :: "string \<Rightarrow> u64"
  maphash_String :: "u64 \<Rightarrow> string \<Rightarrow> u64"
  New14 :: 'sk
  InsertHash :: "u64 \<Rightarrow> 'sk \<Rightarrow> 'sk"
  Estimate :: "'sk \<Rightarrow> u64 \<times> 'sk"
  AsString :: "'v \<Rightarrow> string"
  map_RemoveIf :: "bool list \<Rightarrow> 'v attrs \<Rightarrow> 'v attrs"
  PutBool :: "string \<Rightarrow> bool \<Rightarrow> 'v attrs \<Rightarrow> 'v attrs"
  PutStr :: "string \<Rightarrow> string \<Rightarrow> 'v attrs \<Rightarrow> 'v attrs"
  slice_RemoveIf :: "bool list \<Rightarrow> ('v, 'x) number_dp list \<Rightarrow> ('v, 'x) number_dp list"
  MoveAndAppendTo :: "'x list \<Rightarrow> 'x list \<Rightarrow> 'x list \<times> 'x list"
  f64_add :: "f64 \<Rightarrow> f64 \<Rightarrow> f64"
  f64_of_int64 :: "i64 \<Rightarrow> f64"
  unicode_ToLower :: "string \<Rightarrow> string"

text \<open>The documented effect of the \<open>pdata\<close> calls.\<close>

definition remove_flagged :: "bool list \<Rightarrow> 'a list \<Rightarrow> 'a list" where
  "remove_flagged ds xs = map fst (filter (\<lambda>(x, d). \<not> d) (zip xs ds))"

definition other_entries :: "string \<Rightarrow> 'v attrs \<Rightarrow> 'v attrs" where
  "other_entries k m = filter (\<lambda>(k', v). k' \<noteq> k) m"

definition pdata_laws :: "('v, 'x, 'sk) lib \<Rightarrow> bool" where
  "pdata_laws L \<longleftrightarrow>
     (\<forall>ds m. length ds = length m \<longrightarrow> map_RemoveIf L ds m = remove_flagged ds m) \<and>
     (\<forall>ds xs. length ds = length xs \<longrightarrow> slice_RemoveIf L ds xs = remove_flagged ds xs) \<and>
     (\<forall>k b m. other_entries k (PutBool L k b m) = other_entries k m \<and>
        map_option (AsString L) (map_of (PutBool L k b m) k)
          = Some (if b then ''true'' else ''false'')) \<and>
     (\<forall>k s m. other_entries k (PutStr L k s m) = other_entries k m \<and>
        map_option (AsString L) (map_of (PutStr L k s m) k) = Some s \<and>
        (k \<in> fst ` set m \<longrightarrow> map fst (PutStr L k s m) = map fst m)) \<and>
     (\<forall>src dst. MoveAndAppendTo L src dst = ([], dst @ src))"

text \<open>
  A sketch stands for the set of hashes inserted into it: \<open>repr s A\<close> reads "\<open>s\<close> was
  built by inserting exactly the hashes \<open>A\<close>". \<open>accurate\<close> bounds the error of the estimate
  on such a sketch; HyperLogLog gives such a bound only with high probability, so it is
  assumed for the sets of one run, not for all sets.
\<close>

definition sketch_laws :: "('v, 'x, 'sk) lib \<Rightarrow> ('sk \<Rightarrow> u64 set \<Rightarrow> bool) \<Rightarrow> bool" where
  "sketch_laws L repr \<longleftrightarrow>
     repr (New14 L) {} \<and>
     (\<forall>s A h. repr s A \<longrightarrow> repr (InsertHash L h s) (insert h A)) \<and>
     (\<forall>s A. repr s A \<longrightarrow> repr (snd (Estimate L s)) A)"

definition accurate ::
  "('v, 'x, 'sk) lib \<Rightarrow> ('sk \<Rightarrow> u64 set \<Rightarrow> bool) \<Rightarrow> nat \<Rightarrow> u64 set \<Rightarrow> bool" where
  "accurate L repr eps A \<longleftrightarrow>
     (\<forall>s. repr s A \<longrightarrow> unat (fst (Estimate L s)) \<le> card A + eps \<and>
                      card A \<le> unat (fst (Estimate L s)) + eps)"

section \<open>Consequences of the laws\<close>

lemma remove_flagged_simps [simp]:
  "remove_flagged [] xs = []"
  "remove_flagged ds [] = []"
  "remove_flagged (d # ds) (x # xs) =
     (if d then remove_flagged ds xs else x # remove_flagged ds xs)"
  by (simp_all add: remove_flagged_def)

lemma remove_flagged_none:
  "length ds = length xs \<Longrightarrow> \<not> list_ex (\<lambda>d. d) ds \<Longrightarrow> remove_flagged ds xs = xs"
  by (induction ds xs rule: list_induct2) auto

lemma filter_remove_flagged:
  "length ds = length xs \<Longrightarrow> list_all2 (\<lambda>x d. d \<longrightarrow> \<not> P x) xs ds \<Longrightarrow>
   filter P (remove_flagged ds xs) = filter P xs"
  by (induction ds xs rule: list_induct2) auto

lemma pdata_RemoveIf:
  "pdata_laws L \<Longrightarrow> length ds = length m \<Longrightarrow> map_RemoveIf L ds m = remove_flagged ds m"
  by (simp add: pdata_laws_def)

lemma pdata_slice_RemoveIf:
  "pdata_laws L \<Longrightarrow> length ds = length xs \<Longrightarrow> slice_RemoveIf L ds xs = remove_flagged ds xs"
  by (simp add: pdata_laws_def)

lemma pdata_PutBool_others:
  "pdata_laws L \<Longrightarrow> other_entries k (PutBool L k b m) = other_entries k m"
  by (simp add: pdata_laws_def)

lemma pdata_PutBool_get:
  "pdata_laws L \<Longrightarrow> map_option (AsString L) (map_of (PutBool L k b m) k)
     = Some (if b then ''true'' else ''false'')"
  by (simp add: pdata_laws_def)

lemma pdata_PutStr:
  assumes "pdata_laws L"
  shows "other_entries k (PutStr L k s m) = other_entries k m"
    and "map_option (AsString L) (map_of (PutStr L k s m) k) = Some s"
    and "k \<in> fst ` set m \<Longrightarrow> map fst (PutStr L k s m) = map fst m"
  using assms by (simp_all add: pdata_laws_def)

lemma pdata_Move: "pdata_laws L \<Longrightarrow> MoveAndAppendTo L src dst = ([], dst @ src)"
  by (simp add: pdata_laws_def)

lemma other_entries_filter:
  "(\<And>v. \<not> P (k, v)) \<Longrightarrow> filter P (other_entries k m) = filter P m"
  by (induction m) (auto simp: other_entries_def)

lemma map_of_other_entries: "k' \<noteq> k \<Longrightarrow> map_of (other_entries k m) k' = map_of m k'"
  by (induction m) (auto simp: other_entries_def)

section \<open>A concrete library\<close>

text \<open>
  An instance of \<open>lib\<close> for evaluating the model on concrete inputs: values are strings,
  the sketch counts exactly (a list of distinct hashes), the calls do what the
  documentation says. \<open>float64\<close> addition is left out (it returns its first argument):
  no evaluated example adds doubles.
\<close>

definition ref_hash :: "string \<Rightarrow> u64" where
  "ref_hash s = foldl (\<lambda>a c. a * 257 + of_nat (of_char c) + 1) 0 s"

definition ref_put :: "string \<Rightarrow> string \<Rightarrow> string attrs \<Rightarrow> string attrs" where
  "ref_put k v m = AList.update k v m"

definition ref_lib :: "(string, nat, u64 list) lib" where
  "ref_lib = \<lparr> Sum64String = ref_hash, maphash_String = (\<lambda>seed s. ref_hash s + seed),
     New14 = [], InsertHash = List.insert, Estimate = (\<lambda>s. (of_nat (length s), s)),
     AsString = (\<lambda>v. v), map_RemoveIf = remove_flagged,
     PutBool = (\<lambda>k b. ref_put k (if b then ''true'' else ''false'')), PutStr = ref_put,
     slice_RemoveIf = remove_flagged, MoveAndAppendTo = (\<lambda>src dst. ([], dst @ src)),
     f64_add = (\<lambda>a b. a), f64_of_int64 = (\<lambda>a. a), unicode_ToLower = (\<lambda>s. s) \<rparr>"

lemma ref_put_others: "other_entries k (ref_put k v m) = other_entries k m"
  by (induction m) (auto simp: other_entries_def ref_put_def)

lemma ref_put_get: "map_of (ref_put k v m) k = Some v"
  by (simp add: ref_put_def update_conv)

lemma ref_put_keys: "k \<in> fst ` set m \<Longrightarrow> map fst (ref_put k v m) = map fst m"
  by (induction m) (auto simp: ref_put_def)

lemma ref_lib_pdata_laws: "pdata_laws ref_lib"
  by (simp add: pdata_laws_def ref_lib_def ref_put_others ref_put_get ref_put_keys)

definition ref_repr :: "u64 list \<Rightarrow> u64 set \<Rightarrow> bool" where
  "ref_repr s A \<longleftrightarrow> distinct s \<and> set s = A"

lemma ref_lib_sketch_laws: "sketch_laws ref_lib ref_repr"
  by (auto simp: sketch_laws_def ref_lib_def ref_repr_def)

lemma ref_lib_accurate:
  assumes "finite A" and "card A < 2 ^ 64"
  shows "accurate ref_lib ref_repr 0 A"
  using assms
  by (auto simp: accurate_def ref_lib_def ref_repr_def unat_of_nat distinct_card)

end
