(* ===== verification/Config.thy ===== *)
theory Config
  imports Pdata
begin

text \<open>
  The user configuration (\<open>config.go\<close>): its record, the resolution of the enforcement mode
  with the deprecated \<open>TagOnly\<close> flag, the validation the collector runs before it builds
  the processor, and the factory's default (\<open>factory.go\<close>).
\<close>

section \<open>The record and the enforcement modes\<close>

text \<open>\<open>EnforcementMode\<close> is a Go string type: any string can be stored in it.\<close>

type_synonym enforcement_mode = string

definition EnforcementTagOnly :: enforcement_mode where
  "EnforcementTagOnly = ''tag_only''"

definition EnforcementOverflowAttribute :: enforcement_mode where
  "EnforcementOverflowAttribute = ''overflow_attribute''"

definition EnforcementStripAndReaggregate :: enforcement_mode where
  "EnforcementStripAndReaggregate = ''strip_and_reaggregate''"

definition overflowSentinel :: string where
  "overflowSentinel = ''otel.cardinality_overflow''"

text \<open>\<open>MetricOverrides\<close> lists the map's entries in the order one \<open>range\<close> visits them.\<close>

record config =
  MaxCardinalityDeltaPerEpoch :: i64
  EpochDurationSeconds :: i64
  NeverDropLabels :: "string list"
  TagOnly :: bool
  EnforcementMode :: enforcement_mode
  EstimatedCostPerMetricMonth :: f64
  TopOffendersCount :: i64
  MaxTrackerCount :: i64
  MetricOverrides :: "(string \<times> i64) list"
  DropLogMaxPerEpoch :: i64

text \<open>
  \<open>strings.ToLower\<close>: byte by byte on an ASCII string, the Unicode case table (a parameter)
  on any other.
\<close>

definition lower_byte :: "char \<Rightarrow> char" where
  "lower_byte c =
     (let n = (of_char c :: nat) in if 65 \<le> n \<and> n \<le> 90 then char_of (n + 32) else c)"

definition strings_ToLower :: "('v, 'x, 'sk) lib \<Rightarrow> string \<Rightarrow> string" where
  "strings_ToLower L s =
     (if list_all (\<lambda>c. (of_char c :: nat) < 128) s then map lower_byte s
      else unicode_ToLower L s)"

definition ResolvedEnforcementMode :: "('v, 'x, 'sk) lib \<Rightarrow> config \<Rightarrow> enforcement_mode" where
  "ResolvedEnforcementMode L c =
     (if EnforcementMode c \<noteq> [] then strings_ToLower L (EnforcementMode c)
      else if TagOnly c then EnforcementTagOnly
      else EnforcementStripAndReaggregate)"

section \<open>Validation\<close>

datatype config_error =
    MaxDeltaNotPositive
  | EpochTooShort
  | NegativeCost
  | TopOffendersOutOfRange
  | MaxTrackerCountOutOfRange
  | OverrideEmptyName
  | OverrideNotPositive string
  | NegativeDropLogMax
  | UnknownEnforcementMode string

text \<open>
  \<open>x < 0\<close> on an IEEE double: the sign bit is set and \<open>x\<close> is neither minus zero nor a NaN
  (exponent all ones, mantissa not zero).
\<close>

definition f64_is_nan :: "f64 \<Rightarrow> bool" where
  "f64_is_nan x \<longleftrightarrow>
     x AND 0x7FF0000000000000 = 0x7FF0000000000000 \<and> x AND 0x000FFFFFFFFFFFFF \<noteq> 0"

definition f64_negative :: "f64 \<Rightarrow> bool" where
  "f64_negative x \<longleftrightarrow>
     x AND 0x8000000000000000 \<noteq> 0 \<and> x \<noteq> 0x8000000000000000 \<and> \<not> f64_is_nan x"

fun check_overrides :: "(string \<times> i64) list \<Rightarrow> config_error option" where
  "check_overrides [] = None"
| "check_overrides ((name, limit) # rest) =
     (if name = [] then Some OverrideEmptyName
      else if sint limit \<le> 0 then Some (OverrideNotPositive name)
      else check_overrides rest)"

definition Validate :: "('v, 'x, 'sk) lib \<Rightarrow> config \<Rightarrow> config_error option" where
  "Validate L c =
     (if sint (MaxCardinalityDeltaPerEpoch c) \<le> 0 then Some MaxDeltaNotPositive
      else if sint (EpochDurationSeconds c) < 10 then Some EpochTooShort
      else if f64_negative (EstimatedCostPerMetricMonth c) then Some NegativeCost
      else if sint (TopOffendersCount c) < 0 \<or> 500 < sint (TopOffendersCount c)
        then Some TopOffendersOutOfRange
      else if sint (MaxTrackerCount c) < 0 \<or> 10000000 < sint (MaxTrackerCount c)
        then Some MaxTrackerCountOutOfRange
      else case check_overrides (MetricOverrides c) of
        Some e \<Rightarrow> Some e
      | None \<Rightarrow>
          if sint (DropLogMaxPerEpoch c) < 0 then Some NegativeDropLogMax
          else if EnforcementMode c \<noteq> [] \<and>
              strings_ToLower L (EnforcementMode c) \<noteq> EnforcementTagOnly \<and>
              strings_ToLower L (EnforcementMode c) \<noteq> EnforcementOverflowAttribute \<and>
              strings_ToLower L (EnforcementMode c) \<noteq> EnforcementStripAndReaggregate
            then Some (UnknownEnforcementMode (EnforcementMode c))
          else None)"

text \<open>The bit pattern \<open>4587366580439587226\<close> is the double \<open>0.05\<close>.\<close>

definition createDefaultConfig :: config where
  "createDefaultConfig = \<lparr>
     MaxCardinalityDeltaPerEpoch = 100,
     EpochDurationSeconds = 300,
     NeverDropLabels = [''http.status_code'', ''region''],
     TagOnly = False,
     EnforcementMode = [],
     EstimatedCostPerMetricMonth = 4587366580439587226,
     TopOffendersCount = 10,
     MaxTrackerCount = 0,
     MetricOverrides = [],
     DropLogMaxPerEpoch = 10 \<rparr>"

text \<open>The limit that applies to a metric: the override, or the global one.\<close>

definition getLimit :: "config \<Rightarrow> string \<Rightarrow> u64" where
  "getLimit c metricName =
     (case map_of (MetricOverrides c) metricName of
        Some v \<Rightarrow> v
      | None \<Rightarrow> MaxCardinalityDeltaPerEpoch c)"

section \<open>What validation gives\<close>

definition known_mode :: "enforcement_mode \<Rightarrow> bool" where
  "known_mode m \<longleftrightarrow>
     m = EnforcementTagOnly \<or> m = EnforcementOverflowAttribute \<or> m = EnforcementStripAndReaggregate"

lemmas mode_defs = EnforcementTagOnly_def EnforcementOverflowAttribute_def
  EnforcementStripAndReaggregate_def

lemma modes_distinct [simp]:
  "EnforcementTagOnly \<noteq> EnforcementOverflowAttribute"
  "EnforcementTagOnly \<noteq> EnforcementStripAndReaggregate"
  "EnforcementOverflowAttribute \<noteq> EnforcementStripAndReaggregate"
  "EnforcementOverflowAttribute \<noteq> EnforcementTagOnly"
  "EnforcementStripAndReaggregate \<noteq> EnforcementTagOnly"
  "EnforcementStripAndReaggregate \<noteq> EnforcementOverflowAttribute"
  by (simp_all add: mode_defs)

lemma check_overrides_None:
  "check_overrides os = None \<longleftrightarrow> list_all (\<lambda>(n, l). n \<noteq> [] \<and> 0 < sint l) os"
  by (induction os rule: check_overrides.induct) (auto simp: not_le)

text \<open>
  C35. Validation accepts exactly the configurations that pass the listed checks: a positive
  delta limit, an epoch of at least ten seconds, a cost that does not compare below zero (a
  NaN does not, although it is not documented as a cost), between 0 and 500 offenders (the
  field's comment has no upper bound), at most ten million trackers, overrides with a name
  and a positive limit (whatever order the map is visited in), a log cap that is not negative
  and, when a mode is given, one of the three modes up to case.
\<close>

theorem Validate_accepts_iff:
  "(Validate L c = None) =
     (0 < sint (MaxCardinalityDeltaPerEpoch c) \<and>
      10 \<le> sint (EpochDurationSeconds c) \<and>
      \<not> f64_negative (EstimatedCostPerMetricMonth c) \<and>
      sint (TopOffendersCount c) \<in> {0..500} \<and>
      sint (MaxTrackerCount c) \<in> {0..10000000} \<and>
      list_all (\<lambda>(n, l). n \<noteq> [] \<and> 0 < sint l) (MetricOverrides c) \<and>
      0 \<le> sint (DropLogMaxPerEpoch c) \<and>
      (if EnforcementMode c = [] then True
       else known_mode (strings_ToLower L (EnforcementMode c))))"
  unfolding Validate_def known_mode_def check_overrides_None [symmetric]
  by (auto split: option.splits)

lemma Validate_None_cases:
  assumes "Validate L c = None"
  shows "0 < sint (MaxCardinalityDeltaPerEpoch c)" "10 \<le> sint (EpochDurationSeconds c)"
    "sint (TopOffendersCount c) \<in> {0..500}" "sint (MaxTrackerCount c) \<in> {0..10000000}"
    "list_all (\<lambda>(n, l). n \<noteq> [] \<and> 0 < sint l) (MetricOverrides c)"
    "0 \<le> sint (DropLogMaxPerEpoch c)"
    "EnforcementMode c \<noteq> [] \<Longrightarrow> known_mode (strings_ToLower L (EnforcementMode c))"
  using assms unfolding Validate_def check_overrides_None [symmetric] known_mode_def
  by (simp_all split: if_splits option.splits)

text \<open>
  C36. A validated configuration resolves to one of the three enforcement modes, so the
  dispatch on the mode in the hot path always finds a case; an explicit mode wins over the
  deprecated flag, which decides only when no mode is given.
\<close>

theorem validated_mode_is_known:
  assumes "Validate L c = None"
  shows "known_mode (ResolvedEnforcementMode L c) \<and>
    (EnforcementMode c = [] \<longrightarrow> ResolvedEnforcementMode L c =
       (if TagOnly c then EnforcementTagOnly else EnforcementStripAndReaggregate))"
  using Validate_None_cases(7) [OF assms]
  by (auto simp: ResolvedEnforcementMode_def known_mode_def)

theorem validated_mode_is_known_witness:
  "Validate ref_lib (createDefaultConfig\<lparr>EnforcementMode := ''Strip_And_ReAggregate''\<rparr>) = None \<and>
   known_mode (ResolvedEnforcementMode ref_lib
     (createDefaultConfig\<lparr>EnforcementMode := ''Strip_And_ReAggregate''\<rparr>))"
proof -
  have v: "Validate ref_lib
      (createDefaultConfig\<lparr>EnforcementMode := ''Strip_And_ReAggregate''\<rparr>) = None"
    by code_simp
  show ?thesis using validated_mode_is_known [OF v] v by simp
qed

lemma default_config_valid: "Validate L createDefaultConfig = None"
  by (simp add: Validate_def createDefaultConfig_def f64_negative_def)

lemma default_config_mode: "ResolvedEnforcementMode L createDefaultConfig = EnforcementStripAndReaggregate"
  by (simp add: ResolvedEnforcementMode_def createDefaultConfig_def)

text \<open>
  Under a validated configuration the limit of every metric is positive and the
  conversion of the signed setting to \<open>uint64\<close> does not change its value.
\<close>

lemma validated_limit_positive:
  assumes "Validate L c = None"
  shows "0 < unat (getLimit c metricName) \<and>
         int (unat (getLimit c metricName)) = sint (getLimit c metricName)"
proof -
  have "0 < sint (getLimit c metricName)"
    using Validate_None_cases(1,5) [OF assms]
    by (auto simp: getLimit_def list_all_iff split: option.split dest!: map_of_SomeD)
  with int_unat_eq_sint [of "getLimit c metricName"] show ?thesis by linarith
qed

end
