(* ===== verification/Tracker.thy ===== *)
theory Tracker
  imports Pdata
begin

text \<open>
  One tracker (\<open>tracker\<close> in \<open>processor.go\<close>): the two sketches of a (metric, label) pair,
  its insert with the two-phase lazy estimate, and its epoch rotation. The lemmas say which
  prefix of the epoch's values the cached estimate is about, and what a rotation carries
  into the next epoch.
\<close>

section \<open>State and operations\<close>

definition staleSweepEpochs :: i64 where
  "staleSweepEpochs = 2"

definition estimateInterval :: u64 where
  "estimateInterval = 64"

record 'sk tracker =
  current :: 'sk
  previous :: 'sk
  cachedCurr :: u64
  cachedPrev :: u64
  insertCount :: u64
  idleEpochs :: i64

text \<open>
  The pool vends what its \<open>New\<close> function makes: nothing is ever \<open>Put\<close> into it, so every
  \<open>Get\<close> returns a fresh \<open>New14()\<close> and the type assertion succeeds.
\<close>

definition mustGetSketch :: "('v, 'x, 'sk) lib \<Rightarrow> 'sk" where
  "mustGetSketch L = New14 L"

definition newTracker :: "('v, 'x, 'sk) lib \<Rightarrow> 'sk tracker" where
  "newTracker L = \<lparr> current = mustGetSketch L, previous = mustGetSketch L,
     cachedCurr = 0, cachedPrev = 0, insertCount = 0, idleEpochs = 0 \<rparr>"

definition tracker_insert ::
  "('v, 'x, 'sk) lib \<Rightarrow> u64 \<Rightarrow> 'sk tracker \<Rightarrow> (u64 \<times> u64) \<times> 'sk tracker" where
  "tracker_insert L hashVal t0 =
     (let t1 = t0\<lparr>current := InsertHash L hashVal (current t0)\<rparr>;
          t2 = t1\<lparr>insertCount := insertCount t1 + 1\<rparr>;
          t3 = (if insertCount t2 \<le> estimateInterval \<or>
                   insertCount t2 AND (estimateInterval - 1) = 0
                then let (e, sk) = Estimate L (current t2)
                     in t2\<lparr>current := sk, cachedCurr := e\<rparr>
                else t2)
      in ((cachedCurr t3, cachedPrev t3), t3))"

definition tracker_rotate :: "'sk \<Rightarrow> 'sk tracker \<Rightarrow> bool \<times> 'sk tracker" where
  "tracker_rotate fresh t =
     (let idle = (insertCount t = 0)
      in (idle,
          t\<lparr> idleEpochs := (if idle then idleEpochs t + 1 else 0),
             cachedPrev := cachedCurr t,
             cachedCurr := 0,
             insertCount := 0,
             previous := current t,
             current := fresh \<rparr>))"

text \<open>The decision on the two estimates: growth beyond the limit, with the underflow guard.\<close>

definition exceeds :: "u64 \<Rightarrow> u64 \<Rightarrow> u64 \<Rightarrow> bool" where
  "exceeds currCount prevCount limit =
     (if currCount \<le> prevCount then False else limit < currCount - prevCount)"

section \<open>The decision\<close>

lemma exceeds_unat: "exceeds c p l \<longleftrightarrow> unat p + unat l < unat c"
proof (cases "c \<le> p")
  case True
  then show ?thesis by (simp add: exceeds_def word_le_nat_alt)
next
  case False
  then have "unat (c - p) = unat c - unat p" "unat p < unat c"
    by (simp_all add: word_sub_no_underflow not_le word_less_nat_alt)
  with False show ?thesis by (auto simp: exceeds_def word_less_nat_alt)
qed

section \<open>When the estimate is refreshed\<close>

text \<open>The number of inserts the estimate is about, after \<open>n\<close> inserts of an epoch.\<close>

definition refreshed :: "nat \<Rightarrow> nat" where
  "refreshed n = (if n \<le> 64 then n else 64 * (n div 64))"

lemma refreshed_le: "refreshed n \<le> n"
  by (simp add: refreshed_def)

lemma refreshed_lag: "n < refreshed n + 64"
  by (simp add: refreshed_def) presburger

lemma refreshed_pos [simp]: "0 < refreshed n \<longleftrightarrow> 0 < n"
  by (auto simp: refreshed_def div_greater_zero_iff)

lemma refreshed_Suc:
  "refreshed (Suc n) = (if Suc n \<le> 64 \<or> 64 dvd Suc n then Suc n else refreshed n)"
proof (cases "Suc n \<le> 64 \<or> 64 dvd Suc n")
  case True
  then show ?thesis by (auto simp: refreshed_def)
next
  case False
  then have "Suc n div 64 = n div 64" by (simp add: div_Suc mod_eq_0_iff_dvd)
  with False show ?thesis by (cases "n = 64") (auto simp: refreshed_def)
qed

lemma refreshed_mono: "m \<le> n \<Longrightarrow> refreshed m \<le> refreshed n"
  by (rule lift_Suc_mono_le) (auto simp: refreshed_Suc intro: le_SucI refreshed_le)

lemma refresh_due_iff:
  assumes "n < 2 ^ 64"
  shows "((of_nat n :: u64) \<le> estimateInterval \<or> of_nat n AND (estimateInterval - 1) = 0)
     \<longleftrightarrow> n \<le> 64 \<or> 64 dvd n"
proof -
  have u: "unat (of_nat n :: u64) = n"
    using assms by (simp add: unat_of_nat)
  have "(of_nat n :: u64) \<le> estimateInterval \<longleftrightarrow> n \<le> 64"
    using u by (simp add: estimateInterval_def word_le_nat_alt)
  moreover have "(of_nat n :: u64) AND (estimateInterval - 1) = take_bit 6 (of_nat n)"
    by (simp add: estimateInterval_def take_bit_eq_mask mask_eq_exp_minus_1)
  moreover have "unat (take_bit 6 (of_nat n :: u64)) = n mod 64"
    unfolding unsigned_take_bit_eq u by (simp add: take_bit_eq_mod)
  ultimately show ?thesis
    by (metis dvd_eq_mod_eq_0 unat_0 unat_eq_zero)
qed

definition insert_all ::
  "('v, 'x, 'sk) lib \<Rightarrow> u64 list \<Rightarrow> 'sk tracker \<Rightarrow> 'sk tracker" where
  "insert_all L hs t = fold (\<lambda>h t. snd (tracker_insert L h t)) hs t"

lemma insert_all_snoc:
  "insert_all L (hs @ [h]) t = snd (tracker_insert L h (insert_all L hs t))"
  by (simp add: insert_all_def)

lemma tracker_insert_frame [frame_simps]:
  "cachedPrev (snd (tracker_insert L h t)) = cachedPrev t"
  "previous (snd (tracker_insert L h t)) = previous t"
  "idleEpochs (snd (tracker_insert L h t)) = idleEpochs t"
  "insertCount (snd (tracker_insert L h t)) = insertCount t + 1"
  by (simp_all add: tracker_insert_def Let_def split_beta)

lemma tracker_insert_result:
  "fst (tracker_insert L h t)
     = (cachedCurr (snd (tracker_insert L h t)), cachedPrev (snd (tracker_insert L h t)))"
  by (simp add: tracker_insert_def Let_def)

lemma insert_all_frame [frame_simps]:
  "cachedPrev (insert_all L hs t) = cachedPrev t"
  "previous (insert_all L hs t) = previous t"
  "idleEpochs (insert_all L hs t) = idleEpochs t"
  by (induction hs rule: rev_induct) (simp_all add: insert_all_def frame_simps)

lemma insert_all_count: "insertCount (insert_all L hs t) = insertCount t + of_nat (length hs)"
  by (induction hs rule: rev_induct) (simp_all add: insert_all_def frame_simps)

lemma tracker_insert_step:
  assumes "insertCount t + 1 = c"
  shows "snd (tracker_insert L h t) =
    (let sk = InsertHash L h (current t)
     in if c \<le> estimateInterval \<or> c AND (estimateInterval - 1) = 0
        then t\<lparr>current := snd (Estimate L sk), cachedCurr := fst (Estimate L sk), insertCount := c\<rparr>
        else t\<lparr>current := sk, insertCount := c\<rparr>)"
  using assms by (auto simp: tracker_insert_def Let_def split_beta)

text \<open>The start of an epoch: an empty sketch and no estimate.\<close>

definition epoch_start :: "('sk \<Rightarrow> u64 set \<Rightarrow> bool) \<Rightarrow> 'sk tracker \<Rightarrow> bool" where
  "epoch_start repr t \<longleftrightarrow> repr (current t) {} \<and> cachedCurr t = 0 \<and> insertCount t = 0"

lemma epoch_start_new: "sketch_laws L repr \<Longrightarrow> epoch_start repr (newTracker L)"
  by (simp add: epoch_start_def newTracker_def mustGetSketch_def sketch_laws_def)

lemma epoch_start_rotate:
  "repr fresh {} \<Longrightarrow> epoch_start repr (snd (tracker_rotate fresh t))"
  by (simp add: epoch_start_def tracker_rotate_def Let_def)

text \<open>
  After any inserts the sketch stands for all the epoch's hashes; the cached estimate was
  taken from a sketch that stands for the first \<open>refreshed n\<close> of them.
\<close>

lemma insert_all_represents:
  assumes laws: "sketch_laws L repr" and start: "epoch_start repr t"
  shows "length hs < 2 ^ 64 \<Longrightarrow>
    repr (current (insert_all L hs t)) (set hs) \<and>
    (hs \<noteq> [] \<longrightarrow> (\<exists>s. repr s (set (take (refreshed (length hs)) hs)) \<and>
       cachedCurr (insert_all L hs t) = fst (Estimate L s)))"
proof (induction hs rule: rev_induct)
  case Nil
  show ?case using start by (simp add: insert_all_def epoch_start_def)
next
  case (snoc h hs)
  let ?t = "insert_all L hs t" and ?n = "length hs"
  let ?sk = "InsertHash L h (current ?t)"
  from snoc have IH: "repr (current ?t) (set hs)"
    and cached: "hs \<noteq> [] \<Longrightarrow> \<exists>s. repr s (set (take (refreshed ?n) hs)) \<and>
       cachedCurr ?t = fst (Estimate L s)" by auto
  from IH laws have sk: "repr ?sk (set (hs @ [h]))" by (simp add: sketch_laws_def)
  have n: "insertCount ?t + 1 = of_nat (Suc ?n)"
    using start by (simp add: insert_all_count epoch_start_def)
  have due: "(of_nat (Suc ?n) :: u64) \<le> estimateInterval \<or>
      of_nat (Suc ?n) AND (estimateInterval - 1) = 0 \<longleftrightarrow> Suc ?n \<le> 64 \<or> 64 dvd Suc ?n"
    using snoc.prems by (intro refresh_due_iff) simp
  show ?case
  proof (cases "Suc ?n \<le> 64 \<or> 64 dvd Suc ?n")
    case True
    with due have "insert_all L (hs @ [h]) t =
        ?t\<lparr>current := snd (Estimate L ?sk), cachedCurr := fst (Estimate L ?sk),
           insertCount := of_nat (Suc ?n)\<rparr>"
      by (simp only: insert_all_snoc tracker_insert_step [OF n] Let_def if_True)
    moreover from True have "refreshed (length (hs @ [h])) = Suc ?n"
      by (simp add: refreshed_Suc)
    ultimately show ?thesis using sk laws by (auto simp: sketch_laws_def)
  next
    case False
    with due have "insert_all L (hs @ [h]) t =
        ?t\<lparr>current := ?sk, insertCount := of_nat (Suc ?n)\<rparr>"
      by (simp only: insert_all_snoc tracker_insert_step [OF n] Let_def if_False)
    moreover from False have "refreshed (length (hs @ [h])) = refreshed ?n" "hs \<noteq> []"
      by (auto simp: refreshed_Suc)
    ultimately show ?thesis using sk cached refreshed_le [of ?n] by (simp add: take_append)
  qed
qed

section \<open>Accuracy, the drop threshold and the baseline\<close>

lemma estimate_upper:
  assumes laws: "sketch_laws L repr" and start: "epoch_start repr t"
    and hs: "hs \<noteq> []" "length hs < 2 ^ 64"
    and acc: "accurate L repr eps (set (take (refreshed (length hs)) hs))"
  shows "unat (cachedCurr (insert_all L hs t)) \<le> card (set hs) + eps"
proof -
  let ?r = "refreshed (length hs)"
  obtain s where "repr s (set (take ?r hs))"
    and "cachedCurr (insert_all L hs t) = fst (Estimate L s)"
    using insert_all_represents [OF laws start hs(2)] hs(1) by auto
  with acc have "unat (cachedCurr (insert_all L hs t)) \<le> card (set (take ?r hs)) + eps"
    by (simp add: accurate_def)
  also have "card (set (take ?r hs)) \<le> card (set hs)"
    by (intro card_mono) (auto dest: in_set_takeD)
  finally show ?thesis by simp
qed

text \<open>
  During an epoch the cached estimate is close to the true number of distinct values:
  it never exceeds it by more than the sketch's error, and it falls short of it by at most
  that error and the 63 inserts that may have come after the last refresh.
\<close>

lemma cached_estimate_window:
  assumes laws: "sketch_laws L repr" and start: "epoch_start repr t"
    and hs: "hs \<noteq> []" "length hs < 2 ^ 64"
    and acc: "accurate L repr eps (set (take (refreshed (length hs)) hs))"
  shows "unat (cachedCurr (insert_all L hs t)) \<le> card (set hs) + eps \<and>
         card (set hs) \<le> unat (cachedCurr (insert_all L hs t)) + eps + 63"
proof -
  let ?r = "refreshed (length hs)"
  obtain s where s: "repr s (set (take ?r hs))"
    and c: "cachedCurr (insert_all L hs t) = fst (Estimate L s)"
    using insert_all_represents [OF laws start hs(2)] hs(1) by auto
  from s acc have "card (set (take ?r hs)) \<le> unat (cachedCurr (insert_all L hs t)) + eps"
    by (simp add: accurate_def c)
  moreover have "card (set hs) \<le> card (set (take ?r hs)) + card (set (drop ?r hs))"
    by (metis append_take_drop_id card_Un_le set_append)
  moreover have "card (set (drop ?r hs)) \<le> 63"
    using card_length [of "drop ?r hs"] refreshed_lag [of "length hs"] by simp
  ultimately show ?thesis using estimate_upper [OF laws start hs acc] by linarith
qed

text \<open>
  With an exact sketch and values that are all new, the decision is a function of the two
  counts: the number of inserts of this epoch at the last refresh, against the baseline.
\<close>

lemma exact_count:
  assumes "sketch_laws L repr" "epoch_start repr t" "hs \<noteq> []" "length hs < 2 ^ 64"
    and "distinct hs" and "accurate L repr 0 (set (take (refreshed (length hs)) hs))"
  shows "unat (cachedCurr (insert_all L hs t)) = refreshed (length hs)"
proof -
  let ?r = "refreshed (length hs)"
  obtain s where s: "repr s (set (take ?r hs))"
    and c: "cachedCurr (insert_all L hs t) = fst (Estimate L s)"
    using insert_all_represents [OF assms(1,2,4)] assms(3) by auto
  from s assms(6) c have "unat (cachedCurr (insert_all L hs t)) = card (set (take ?r hs))"
    by (simp add: accurate_def le_antisym)
  also have "\<dots> = ?r"
    using assms(5) refreshed_le [of "length hs"] by (simp add: distinct_card)
  finally show ?thesis .
qed

definition first_drop :: "nat \<Rightarrow> nat" where
  "first_drop lim = (if lim < 64 then Suc lim else 64 * Suc (lim div 64))"

lemma first_drop_iff: "lim < refreshed n \<longleftrightarrow> first_drop lim \<le> n"
proof (cases "lim < 64")
  case True
  then show ?thesis
    using refreshed_mono [of 64 n] refreshed_le [of n]
    by (cases "n \<le> 64") (auto simp: refreshed_def first_drop_def)
next
  case False
  then have "lim < refreshed n \<longleftrightarrow> lim < 64 * (n div 64)"
    by (auto simp: refreshed_def)
  also have "\<dots> \<longleftrightarrow> lim div 64 < n div 64"
    using div_less_iff_less_mult [of 64 lim "n div 64"] by (simp add: mult.commute)
  also have "\<dots> \<longleftrightarrow> 64 * Suc (lim div 64) \<le> n"
    using less_eq_div_iff_mult_less_eq [of 64 "Suc (lim div 64)" n]
    by (simp add: mult.commute Suc_le_eq)
  finally show ?thesis using False by (simp add: first_drop_def)
qed


text \<open>
  What a rotation hands to the next epoch: the baseline is the last cached estimate
  (so it may miss up to 63 values of the epoch, although the sketch kept as \<open>previous\<close> has
  them all), the new epoch starts empty, and the tracker counts as idle exactly when the
  epoch had no insert.
\<close>

lemma rotation_hands_over_baseline:
  assumes laws: "sketch_laws L repr" and start: "epoch_start repr t"
    and hs: "hs \<noteq> []" "length hs < 2 ^ 64" "distinct hs"
    and acc: "accurate L repr 0 (set (take (refreshed (length hs)) hs))"
    and t': "t' = snd (tracker_rotate (mustGetSketch L) (insert_all L hs t))"
  shows "unat (cachedPrev t') = refreshed (length hs) \<and> repr (previous t') (set hs) \<and>
         epoch_start repr t' \<and> idleEpochs t' = 0 \<and>
         \<not> fst (tracker_rotate (mustGetSketch L) (insert_all L hs t))"
proof -
  have "insertCount (insert_all L hs t) = of_nat (length hs)"
    using start by (simp add: insert_all_count epoch_start_def)
  then have "unat (insertCount (insert_all L hs t)) = length hs"
    using hs(2) by (simp add: unat_of_nat)
  then have "insertCount (insert_all L hs t) \<noteq> 0"
    using hs(1) by auto
  moreover have "repr (mustGetSketch L) {}"
    using laws by (simp add: sketch_laws_def mustGetSketch_def)
  ultimately show ?thesis
    using exact_count [OF laws start hs acc] insert_all_represents [OF laws start hs(2)]
    by (simp add: t' tracker_rotate_def Let_def epoch_start_def)
qed

text \<open>
  The growth test compares numbers, not sets: in the second epoch the \<open>n\<close>-th distinct
  value is over the limit exactly when the refreshed count exceeds the first epoch's
  refreshed count plus the limit, whatever the values are. Every value of the second epoch
  may be new and the label still passes.
\<close>

lemma growth_compares_counts:
  assumes laws: "sketch_laws L repr" and start: "epoch_start repr t"
    and h1: "h1 \<noteq> []" "length h1 < 2 ^ 64" "distinct h1"
    and acc1: "accurate L repr 0 (set (take (refreshed (length h1)) h1))"
    and h2: "h2 \<noteq> []" "length h2 < 2 ^ 64" "distinct h2"
    and acc2: "accurate L repr 0 (set (take (refreshed (length h2)) h2))"
    and t': "t' = insert_all L h2
                   (snd (tracker_rotate (mustGetSketch L) (insert_all L h1 t)))"
  shows "exceeds (cachedCurr t') (cachedPrev t') limit
     = (refreshed (length h1) + unat limit < refreshed (length h2))"
proof -
  let ?t1 = "snd (tracker_rotate (mustGetSketch L) (insert_all L h1 t))"
  have "repr (mustGetSketch L) {}"
    using laws by (simp add: sketch_laws_def mustGetSketch_def)
  then have start1: "epoch_start repr ?t1" by (rule epoch_start_rotate)
  have "unat (cachedPrev ?t1) = refreshed (length h1)"
    using exact_count [OF laws start h1 acc1] by (simp add: tracker_rotate_def Let_def)
  then show ?thesis
    using exact_count [OF laws start1 h2 acc2] by (simp add: t' exceeds_unat frame_simps)
qed

text \<open>
  C37. A stable label is not always left alone: after an epoch without values the baseline is zero,
  so a set of values that did not grow at all is over the limit again when it returns (as
  soon as it is large enough for a first drop), while without the pause it is not.
\<close>

theorem stable_label_after_pause:
  assumes laws: "sketch_laws L repr" and start: "epoch_start repr t"
    and hs: "hs \<noteq> []" "length hs < 2 ^ 64" "distinct hs"
    and acc: "accurate L repr 0 (set (take (refreshed (length hs)) hs))"
    and seen: "seen = snd (tracker_rotate (mustGetSketch L) (insert_all L hs t))"
    and paused: "paused = snd (tracker_rotate (mustGetSketch L) seen)"
  shows "\<not> exceeds (cachedCurr (insert_all L hs seen)) (cachedPrev (insert_all L hs seen)) limit \<and>
    exceeds (cachedCurr (insert_all L hs paused)) (cachedPrev (insert_all L hs paused)) limit
      = (first_drop (unat limit) \<le> length hs)"
proof -
  have "repr (mustGetSketch L) {}"
    using laws by (simp add: sketch_laws_def mustGetSketch_def)
  then have "epoch_start repr paused" unfolding paused by (rule epoch_start_rotate)
  moreover have "cachedPrev paused = 0" by (simp add: paused seen tracker_rotate_def Let_def)
  ultimately have "exceeds (cachedCurr (insert_all L hs paused)) (cachedPrev (insert_all L hs paused)) limit
      = (first_drop (unat limit) \<le> length hs)"
    using exact_count [OF laws _ hs acc, of paused] by (simp add: exceeds_unat frame_simps first_drop_iff)
  then show ?thesis
    using growth_compares_counts [OF laws start hs acc hs acc, of "insert_all L hs seen" limit] seen by simp
qed

section \<open>Witnesses\<close>

text \<open>
  Concrete runs of the theorems above on the exact sketch of \<open>ref_lib\<close>: \<open>run n\<close> inserts
  the hashes \<open>1, \<dots>, n\<close>.
\<close>

definition demo_hashes :: "nat \<Rightarrow> u64 list" where
  "demo_hashes n = map of_nat [1..<Suc n]"

lemma length_demo_hashes [simp]: "length (demo_hashes n) = n"
  by (simp add: demo_hashes_def)

lemma demo_hashes_facts:
  assumes "0 < n" "n < 2 ^ 64"
  shows "demo_hashes n \<noteq> []" "length (demo_hashes n) < 2 ^ 64" "distinct (demo_hashes n)"
    and "accurate ref_lib ref_repr eps (set (take m (demo_hashes n)))"
proof -
  show "demo_hashes n \<noteq> []" "length (demo_hashes n) < 2 ^ 64"
    using assms by (simp_all add: demo_hashes_def)
  have "inj_on (of_nat :: nat \<Rightarrow> u64) {1..<Suc n}"
    using assms(2) by (intro inj_onI) (auto intro!: of_nat_u64_inj)
  then show "distinct (demo_hashes n)" by (simp add: demo_hashes_def distinct_map del: upt_Suc)
  have "card (set (take m (demo_hashes n))) \<le> length (demo_hashes n)"
    by (metis card_length le_trans length_take min.cobounded1)
  then have "card (set (take m (demo_hashes n))) < 2 ^ 64"
    using assms(2) by simp
  then have "accurate ref_lib ref_repr 0 (set (take m (demo_hashes n)))"
    by (intro ref_lib_accurate) simp
  then show "accurate ref_lib ref_repr eps (set (take m (demo_hashes n)))"
    by (auto simp: accurate_def intro: le_trans trans_le_add1)
qed

lemma newTracker_cachedPrev [simp]: "cachedPrev (newTracker L) = 0"
  by (simp add: newTracker_def)


theorem stable_label_after_pause_witness:
  "exceeds (cachedCurr (insert_all ref_lib (demo_hashes 128) (snd (tracker_rotate (mustGetSketch ref_lib)
       (snd (tracker_rotate (mustGetSketch ref_lib) (insert_all ref_lib (demo_hashes 128) (newTracker ref_lib))))))))
     (cachedPrev (insert_all ref_lib (demo_hashes 128) (snd (tracker_rotate (mustGetSketch ref_lib)
       (snd (tracker_rotate (mustGetSketch ref_lib) (insert_all ref_lib (demo_hashes 128) (newTracker ref_lib)))))))) 100"
proof -
  have n: "(0::nat) < 128" "(128::nat) < 2 ^ 64" by simp_all
  have "first_drop (unat (100::u64)) \<le> length (demo_hashes 128)" by (simp add: first_drop_def)
  then show ?thesis
    using stable_label_after_pause [OF ref_lib_sketch_laws epoch_start_new [OF ref_lib_sketch_laws]
        demo_hashes_facts(1-4) [OF n] refl refl, of 100] by simp
qed

end
