(* ===== verification/Shards.thy ===== *)
theory Shards
  imports Tracker "HOL-Library.Char_ord" "HOL-Library.List_Lexorder"
begin

text \<open>
  The tracker map. \<open>kv_store\<close> is the interface the decision and the rotation rely on: what
  a lookup returns after a store or a delete, and how the number of entries changes. It is
  interpreted here on one shard's map and, in theory \<open>Processor_State\<close>, on the whole array
  of 256 shards, so that sharding is invisible to its clients.
\<close>

section \<open>Keys and shards\<close>

datatype trackerKey = TrackerKey (key_metricName: string) (key_attrKey: string)

text \<open>Keys are ordered by metric, then label; a Go map has no order of its own.\<close>

instantiation trackerKey :: linorder
begin

definition less_eq_trackerKey :: "trackerKey \<Rightarrow> trackerKey \<Rightarrow> bool" where
  "less_eq_trackerKey k l \<longleftrightarrow> key_metricName k < key_metricName l \<or>
     key_metricName k = key_metricName l \<and> key_attrKey k \<le> key_attrKey l"

definition less_trackerKey :: "trackerKey \<Rightarrow> trackerKey \<Rightarrow> bool" where
  "less_trackerKey k l \<longleftrightarrow> k \<le> l \<and> \<not> l \<le> (k :: trackerKey)"

instance
  by standard
    (auto simp: less_eq_trackerKey_def less_trackerKey_def trackerKey.expand)

end

record 'sk trackerShard =
  trackers :: "(trackerKey \<times> 'sk tracker) list"

text \<open>
  \<open>numShards\<close> is an untyped constant in the source: a \<open>uint64\<close> mask in \<open>getShard\<close> and an
  array length elsewhere.
\<close>

definition numShards :: u64 where
  "numShards = 256"

section \<open>The interface of a keyed store\<close>

locale kv_store =
  fixes ok :: "'s \<Rightarrow> bool"
    and get :: "'s \<Rightarrow> 'k \<Rightarrow> 'v option"
    and put :: "'k \<Rightarrow> 'v \<Rightarrow> 's \<Rightarrow> 's"
    and del :: "'k \<Rightarrow> 's \<Rightarrow> 's"
    and entries :: "'s \<Rightarrow> nat"
  assumes ok_put: "ok s \<Longrightarrow> ok (put k v s)"
    and ok_del: "ok s \<Longrightarrow> ok (del k s)"
    and get_put: "ok s \<Longrightarrow> get (put k v s) = (get s)(k \<mapsto> v)"
    and get_del: "ok s \<Longrightarrow> get (del k s) = (get s)(k := None)"
    and entries_put: "ok s \<Longrightarrow>
      entries (put k v s) = (if get s k = None then Suc (entries s) else entries s)"
    and entries_del: "ok s \<Longrightarrow> get s k \<noteq> None \<Longrightarrow> Suc (entries (del k s)) = entries s"
begin

definition puts :: "('k \<times> 'v) list \<Rightarrow> 's \<Rightarrow> 's" where
  "puts kvs s = fold (\<lambda>(k, v). put k v) kvs s"

definition dels :: "'k list \<Rightarrow> 's \<Rightarrow> 's" where
  "dels ks s = fold del ks s"

lemma ok_puts: "ok s \<Longrightarrow> ok (puts kvs s)"
  by (induction kvs arbitrary: s) (auto simp: puts_def ok_put)

lemma ok_dels: "ok s \<Longrightarrow> ok (dels ks s)"
  by (induction ks arbitrary: s) (auto simp: dels_def ok_del)

lemma get_puts: "ok s \<Longrightarrow> distinct (map fst kvs) \<Longrightarrow> get (puts kvs s) = get s ++ map_of kvs"
proof (induction kvs arbitrary: s)
  case Nil
  then show ?case by (simp add: puts_def)
next
  case (Cons kv kvs)
  obtain k v where kv: "kv = (k, v)" by force
  with Cons have "get (puts kvs (put k v s)) = (get s)(k \<mapsto> v) ++ map_of kvs"
    by (simp add: ok_put get_put)
  moreover have "k \<notin> dom (map_of kvs)"
    using Cons.prems(2) kv by (simp add: dom_map_of_conv_image_fst)
  ultimately show ?case
    using kv by (auto simp: puts_def fun_eq_iff map_add_def domIff split: option.split)
qed

lemma entries_puts:
  "ok s \<Longrightarrow> \<forall>k \<in> fst ` set kvs. get s k \<noteq> None \<Longrightarrow> entries (puts kvs s) = entries s"
proof (induction kvs arbitrary: s)
  case Nil
  then show ?case by (simp add: puts_def)
next
  case (Cons kv kvs)
  obtain k v where kv: "kv = (k, v)" by force
  with Cons.prems have "\<forall>k' \<in> fst ` set kvs. get (put k v s) k' \<noteq> None"
    by (auto simp: get_put)
  then have "entries (puts kvs (put k v s)) = entries (put k v s)"
    using Cons by (simp add: ok_put)
  with Cons.prems kv show ?case by (simp add: puts_def entries_put)
qed

lemma get_dels: "ok s \<Longrightarrow> get (dels ks s) k = (if k \<in> set ks then None else get s k)"
  by (induction ks arbitrary: s) (auto simp: dels_def ok_del get_del)

lemma entries_dels:
  "ok s \<Longrightarrow> distinct ks \<Longrightarrow> \<forall>k \<in> set ks. get s k \<noteq> None \<Longrightarrow>
   entries (dels ks s) + length ks = entries s"
proof (induction ks arbitrary: s)
  case Nil
  then show ?case by (simp add: dels_def)
next
  case (Cons k ks)
  have "\<forall>k' \<in> set ks. get (del k s) k' \<noteq> None"
    using Cons.prems by (auto simp: get_del)
  then have "entries (dels ks (del k s)) + length ks = entries (del k s)"
    using Cons.IH [OF ok_del [OF Cons.prems(1)]] Cons.prems(2) by simp
  moreover have "Suc (entries (del k s)) = entries s"
    using Cons.prems by (simp add: entries_del)
  ultimately show ?case by (simp add: dels_def)
qed

end

text \<open>One shard's map, an association list with distinct keys, provides the interface.\<close>

interpretation shard_map: kv_store keys_distinct map_of AList.update AList.delete length
proof unfold_locales
  fix s :: "('a \<times> 'b) list" and k v
  assume "keys_distinct s"
  then show "keys_distinct (AList.update k v s)" "keys_distinct (AList.delete k s)"
    "length (AList.update k v s) = (if map_of s k = None then Suc (length s) else length s)"
    by (simp_all add: length_update)
  show "map_of (AList.update k v s) = (map_of s)(k \<mapsto> v)"
    "map_of (AList.delete k s) = (map_of s)(k := None)"
    by (simp_all add: update_conv' delete_conv')
next
  fix s :: "('a \<times> 'b) list" and k
  assume "keys_distinct s" and k: "map_of s k \<noteq> None"
  moreover from k have "0 < length s" by (cases s) auto
  ultimately show "Suc (length (AList.delete k s)) = length s"
    by (simp add: length_delete)
qed

end
