(* ===== verification/Processor_State.thy ===== *)
theory Processor_State
  imports Config Shards
begin

text \<open>
  The processor's state (\<open>cardinalityProcessor\<close> in \<open>processor.go\<close>): settings, the array of
  shards, the counters and flags, and what it has logged. The shard array as a whole is a
  \<open>kv_store\<close> keyed by (metric, label), whatever the shard a metric's name hashes to.
\<close>

section \<open>The record\<close>

record offenderEntry =
  oe_metricName :: string
  oe_labelKey :: string
  oe_delta :: u64

datatype log_event =
    LogRotating
  | LogDropping string string
  | LogTrackerLimit i64
  | LogEvicted nat
  | LogSuppressed i64 i64
  | LogTopOffender string string u64
  | LogStarting i64
  | LogShuttingDown

datatype instrument = TrackersActive | LabelsStripped | SavingsEstimated
  | TrackersRejected | TopOffenders

text \<open>The life of the background goroutine that \<open>Start\<close> launches.\<close>

datatype rotation_loop = LoopNotLaunched | LoopLaunched | LoopTicking | LoopExited | LoopPanicked

text \<open>
  \<open>logs\<close> is what the logger received, oldest first. \<open>telemetry\<close> is the builder's list of
  callback registrations, \<open>sdkCallbacks\<close> the callbacks the metric SDK currently holds.
\<close>

record 'sk processor =
  cfg :: config
  protectedLabels :: "string set"
  seed :: u64
  shards :: "'sk trackerShard list"
  ctxCancelled :: bool
  startOnce :: bool
  rotationLoop :: rotation_loop
  enforcementMode :: enforcement_mode
  estimatedCostPerMetricMonth :: f64
  labelsStripped :: i64
  trackerCount :: i64
  trackersRejected :: i64
  rejectionWarned :: bool
  dropLogCount :: i64
  dropsThisEpoch :: i64
  telemetry :: "instrument list option"
  sdkCallbacks :: "instrument list"
  topOffenders :: "offenderEntry list"
  logs :: "log_event list"

definition emit :: "log_event \<Rightarrow> 'sk processor \<Rightarrow> 'sk processor" where
  "emit e p = p\<lparr>logs := logs p @ [e]\<rparr>"

definition isProtected :: "'sk processor \<Rightarrow> string \<Rightarrow> bool" where
  "isProtected p key \<longleftrightarrow> key \<in> protectedLabels p"

text \<open>The index of the shard of a metric name.\<close>

definition getShard :: "('v, 'x, 'sk) lib \<Rightarrow> 'sk processor \<Rightarrow> string \<Rightarrow> nat" where
  "getShard L p metricName = unat (maphash_String L (seed p) metricName AND (numShards - 1))"

section \<open>The sharded store\<close>

definition shards_ok :: "'sk processor \<Rightarrow> bool" where
  "shards_ok p \<longleftrightarrow> length (shards p) = unat numShards \<and>
     list_all (\<lambda>s. keys_distinct (trackers s)) (shards p)"

definition update_shard ::
  "nat \<Rightarrow> ((trackerKey \<times> 'sk tracker) list \<Rightarrow> (trackerKey \<times> 'sk tracker) list) \<Rightarrow>
   'sk processor \<Rightarrow> 'sk processor" where
  "update_shard i f p =
     p\<lparr>shards := (shards p)[i := (shards p ! i)\<lparr>trackers := f (trackers (shards p ! i))\<rparr>]\<rparr>"

definition store_get :: "('v, 'x, 'sk) lib \<Rightarrow> 'sk processor \<Rightarrow> trackerKey \<Rightarrow> 'sk tracker option" where
  "store_get L p key = map_of (trackers (shards p ! getShard L p (key_metricName key))) key"

definition store_put ::
  "('v, 'x, 'sk) lib \<Rightarrow> trackerKey \<Rightarrow> 'sk tracker \<Rightarrow> 'sk processor \<Rightarrow> 'sk processor" where
  "store_put L key t p = update_shard (getShard L p (key_metricName key)) (AList.update key t) p"

definition store_del :: "('v, 'x, 'sk) lib \<Rightarrow> trackerKey \<Rightarrow> 'sk processor \<Rightarrow> 'sk processor" where
  "store_del L key p = update_shard (getShard L p (key_metricName key)) (AList.delete key) p"

text \<open>The number of live trackers, which the active-trackers callback also counts.\<close>

definition total_trackers :: "'sk processor \<Rightarrow> nat" where
  "total_trackers p = sum_list (map (\<lambda>s. length (trackers s)) (shards p))"

text \<open>
  Shard routing is in bounds: whatever the hash of the metric name, the index lies in
  the array of 256 shards.
\<close>

lemma getShard_in_bounds: "getShard L p metricName < unat numShards"
  using mask_and_bound [of "maphash_String L (seed p) metricName"]
  by (simp add: getShard_def numShards_def)

lemma getShard_length [simp]: "shards_ok p \<Longrightarrow> getShard L p m < length (shards p)"
  using mask_and_bound [of "maphash_String L (seed p) m"]
  by (simp add: getShard_def numShards_def shards_ok_def)

lemma update_shard_frame [simp, frame_simps]:
  "cfg (update_shard i f p) = cfg p"
  "protectedLabels (update_shard i f p) = protectedLabels p"
  "seed (update_shard i f p) = seed p"
  "ctxCancelled (update_shard i f p) = ctxCancelled p"
  "startOnce (update_shard i f p) = startOnce p"
  "rotationLoop (update_shard i f p) = rotationLoop p"
  "enforcementMode (update_shard i f p) = enforcementMode p"
  "estimatedCostPerMetricMonth (update_shard i f p) = estimatedCostPerMetricMonth p"
  "labelsStripped (update_shard i f p) = labelsStripped p"
  "trackerCount (update_shard i f p) = trackerCount p"
  "trackersRejected (update_shard i f p) = trackersRejected p"
  "rejectionWarned (update_shard i f p) = rejectionWarned p"
  "dropLogCount (update_shard i f p) = dropLogCount p"
  "dropsThisEpoch (update_shard i f p) = dropsThisEpoch p"
  "telemetry (update_shard i f p) = telemetry p"
  "sdkCallbacks (update_shard i f p) = sdkCallbacks p"
  "topOffenders (update_shard i f p) = topOffenders p"
  "logs (update_shard i f p) = logs p"
  by (simp_all add: update_shard_def)

lemma getShard_update_shard [simp]: "getShard L (update_shard i f p) m = getShard L p m"
  by (simp add: getShard_def)

lemma length_update_shard [simp]: "length (shards (update_shard i f p)) = length (shards p)"
  by (simp add: update_shard_def)

lemma nth_update_shard:
  "j < length (shards p) \<Longrightarrow> trackers (shards (update_shard i f p) ! j) =
     (if i = j then f (trackers (shards p ! j)) else trackers (shards p ! j))"
  by (simp add: update_shard_def)

lemma shards_ok_nth: "shards_ok p \<Longrightarrow> i < length (shards p) \<Longrightarrow> keys_distinct (trackers (shards p ! i))"
  by (simp add: shards_ok_def list_all_length)

lemma shards_ok_update_shard:
  assumes "shards_ok p" and "\<And>m. keys_distinct m \<Longrightarrow> keys_distinct (f m)"
  shows "shards_ok (update_shard i f p)"
  using assms by (auto simp: shards_ok_def list_all_length nth_update_shard)

lemma total_update_shard:
  assumes "i < length (shards p)"
  shows "total_trackers (update_shard i f p) + length (trackers (shards p ! i))
     = total_trackers p + length (f (trackers (shards p ! i)))"
proof -
  let ?n = "\<lambda>s. length (trackers s)"
  have "map ?n (shards (update_shard i f p))
      = (map ?n (shards p))[i := length (f (trackers (shards p ! i)))]"
    by (simp add: update_shard_def map_update)
  moreover have "?n (shards p ! i) \<le> sum_list (map ?n (shards p))"
    using assms by (metis elem_le_sum_list length_map nth_map)
  ultimately show ?thesis
    using assms by (simp add: total_trackers_def sum_list_update)
qed

interpretation sharded: kv_store shards_ok "store_get L" "store_put L" "store_del L" total_trackers
  for L :: "('v, 'x, 'sk) lib"
proof unfold_locales
  fix s :: "'sk processor" and k v
  assume ok: "shards_ok s"
  let ?i = "getShard L s (key_metricName k)"
  have i: "?i < length (shards s)" using ok by simp
  show "shards_ok (store_put L k v s)" "shards_ok (store_del L k s)"
    using ok by (auto simp: store_put_def store_del_def intro!: shards_ok_update_shard)
  show "store_get L (store_put L k v s) = (store_get L s)(k \<mapsto> v)"
    "store_get L (store_del L k s) = (store_get L s)(k := None)"
    using ok by (auto simp: store_get_def store_put_def store_del_def nth_update_shard
        update_conv' delete_conv' fun_eq_iff)
  show "total_trackers (store_put L k v s)
      = (if store_get L s k = None then Suc (total_trackers s) else total_trackers s)"
    using total_update_shard [OF i, of "AList.update k v"]
    by (simp add: store_put_def store_get_def length_update split: if_splits)
next
  fix s :: "'sk processor" and k
  assume ok: "shards_ok s" and k: "store_get L s k \<noteq> None"
  let ?i = "getShard L s (key_metricName k)"
  have "?i < length (shards s)" using ok by simp
  from total_update_shard [OF this, of "AList.delete k"]
    shard_map.entries_del [OF shards_ok_nth [OF ok this], of k] k
  show "Suc (total_trackers (store_del L k s)) = total_trackers s"
    by (simp add: store_del_def store_get_def)
qed

section \<open>The struct the constructor builds\<close>

text \<open>
  The first half of \<open>newCardinalityProcessor\<close>: the protected set, the settings captured
  from the configuration, 256 empty shards and zeroed counters. The random hash seed is an
  argument; the telemetry registration that follows is in theory \<open>Telemetry\<close>.
\<close>

definition make_processor :: "('v, 'x, 'sk) lib \<Rightarrow> config \<Rightarrow> u64 \<Rightarrow> 'sk processor" where
  "make_processor L c makeSeed = \<lparr>
     cfg = c,
     protectedLabels = set (NeverDropLabels c),
     seed = makeSeed,
     shards = replicate (unat numShards) \<lparr>trackers = []\<rparr>,
     ctxCancelled = False,
     startOnce = False,
     rotationLoop = LoopNotLaunched,
     enforcementMode = ResolvedEnforcementMode L c,
     estimatedCostPerMetricMonth = EstimatedCostPerMetricMonth c,
     labelsStripped = 0,
     trackerCount = 0,
     trackersRejected = 0,
     rejectionWarned = False,
     dropLogCount = 0,
     dropsThisEpoch = 0,
     telemetry = None,
     sdkCallbacks = [],
     topOffenders = [],
     logs = [] \<rparr>"

lemma make_processor_ok [simp]: "shards_ok (make_processor L c sd)"
  by (simp add: shards_ok_def make_processor_def list_all_iff)

lemma make_processor_total [simp]: "total_trackers (make_processor L c sd) = 0"
  by (simp add: total_trackers_def make_processor_def)

lemma make_processor_get [simp]: "store_get L' (make_processor L c sd) key = None"
proof -
  have "getShard L' (make_processor L c sd) (key_metricName key) < unat numShards"
    using getShard_length [OF make_processor_ok [of L c sd]]
    by (simp add: make_processor_def)
  then show ?thesis by (simp add: store_get_def make_processor_def)
qed

lemma make_processor_simps [simp]:
  "cfg (make_processor L c sd) = c"
  "protectedLabels (make_processor L c sd) = set (NeverDropLabels c)"
  "enforcementMode (make_processor L c sd) = ResolvedEnforcementMode L c"
  "logs (make_processor L c sd) = []"
  "trackerCount (make_processor L c sd) = 0"
  "dropLogCount (make_processor L c sd) = 0"
  "dropsThisEpoch (make_processor L c sd) = 0"
  "rotationLoop (make_processor L c sd) = LoopNotLaunched"
  "startOnce (make_processor L c sd) = False"
  by (simp_all add: make_processor_def)

end
