(* ===== verification/Telemetry.thy ===== *)
theory Telemetry
  imports Processor_State
begin

text \<open>
  The telemetry builder that \<open>mdatagen\<close> generated (\<open>generated_telemetry.go\<close>), the constructor that
  registers its callbacks (\<open>newCardinalityProcessor\<close>, \<open>factory.go\<close>), and what the callbacks
  observe when the metric SDK collects. The SDK is a parameter that may refuse an
  instrument or a registration.
\<close>

section \<open>Telemetry registration\<close>

text \<open>The kind, name, description and unit under which an instrument is created.\<close>

datatype instrument_kind = Int64ObservableCounter | Float64ObservableCounter | Int64ObservableGauge

record instrument_config =
  ic_kind :: instrument_kind
  ic_name :: string
  ic_description :: string
  ic_unit :: string

fun instrument_of :: "instrument \<Rightarrow> instrument_config" where
  "instrument_of LabelsStripped = \<lparr>
     ic_kind = Int64ObservableCounter,
     ic_name = ''otelcol_processor_cardinality_labels.stripped'',
     ic_description = ''Total number of high-cardinality labels stripped or tagged. [Alpha]'',
     ic_unit = ''{labels}''\<rparr>"
| "instrument_of SavingsEstimated = \<lparr>
     ic_kind = Float64ObservableCounter,
     ic_name = ''otelcol_processor_cardinality_savings.estimated'',
     ic_description = ''Cumulative estimated dollar value of time-series churn prevented by the processor. [Alpha]'',
     ic_unit = ''{dollars}''\<rparr>"
| "instrument_of TopOffenders = \<lparr>
     ic_kind = Int64ObservableGauge,
     ic_name = ''otelcol_processor_cardinality_top.offenders'',
     ic_description = ''Cardinality delta of the top-N highest-growth (metric, label) pairs from the last epoch rotation. [Alpha]'',
     ic_unit = ''{pairs}''\<rparr>"
| "instrument_of TrackersActive = \<lparr>
     ic_kind = Int64ObservableGauge,
     ic_name = ''otelcol_processor_cardinality_trackers.active'',
     ic_description = ''Current number of active cardinality trackers across all shards. [Alpha]'',
     ic_unit = ''{trackers}''\<rparr>"
| "instrument_of TrackersRejected = \<lparr>
     ic_kind = Int64ObservableCounter,
     ic_name = ''otelcol_processor_cardinality_trackers.rejected'',
     ic_description = ''Number of new (metric, label) pairs ignored because max_tracker_count was reached. [Alpha]'',
     ic_unit = ''{trackers}''\<rparr>"

text \<open>
  The metric SDK is a parameter: \<open>newInstrument\<close> and \<open>registerCallback\<close> are the errors (if any)
  of creating an instrument from its configuration and of registering its callback.
\<close>

record meter =
  newInstrument :: "instrument_config \<Rightarrow> string option"
  registerCallback :: "instrument \<Rightarrow> string option"

text \<open>\<open>errors.Join\<close> of the five results; \<open>None\<close> when all are \<open>nil\<close>.\<close>

definition NewTelemetryBuilder :: "meter \<Rightarrow> string list option" where
  "NewTelemetryBuilder mt =
     (let errs = List.map_filter (newInstrument mt \<circ> instrument_of)
            [LabelsStripped, SavingsEstimated, TopOffenders, TrackersActive, TrackersRejected]
      in if errs = [] then None else Some errs)"

definition RegisterCallback ::
  "meter \<Rightarrow> instrument \<Rightarrow> 'sk processor \<Rightarrow> string list option \<times> 'sk processor" where
  "RegisterCallback mt i p =
     (case registerCallback mt i of
        Some err \<Rightarrow> (Some [err], p)
      | None \<Rightarrow>
          (None, p\<lparr>sdkCallbacks := sdkCallbacks p @ [i],
                   telemetry := map_option (\<lambda>regs. regs @ [i]) (telemetry p)\<rparr>))"

text \<open>The chain of registrations: the first error stops it.\<close>

fun register_all ::
  "meter \<Rightarrow> instrument list \<Rightarrow> 'sk processor \<Rightarrow> string list option \<times> 'sk processor" where
  "register_all mt [] p = (None, p)"
| "register_all mt (i # is) p =
     (case RegisterCallback mt i p of
        (Some err, p1) \<Rightarrow> (Some err, p1)
      | (None, p1) \<Rightarrow> register_all mt is p1)"

definition callback_order :: "instrument list" where
  "callback_order =
     [TrackersActive, LabelsStripped, SavingsEstimated, TrackersRejected, TopOffenders]"

text \<open>
  The whole constructor. With an error the caller gets \<open>nil\<close>; the second component is then
  the half-built object that the context and the registered callbacks still refer to.
\<close>

definition newCardinalityProcessor ::
  "('v, 'x, 'sk) lib \<Rightarrow> config \<Rightarrow> meter \<Rightarrow> u64 \<Rightarrow> string list option \<times> 'sk processor" where
  "newCardinalityProcessor L c mt makeSeed =
     (let p = make_processor L c makeSeed
      in case NewTelemetryBuilder mt of
           Some err \<Rightarrow> (Some err, p)
         | None \<Rightarrow> register_all mt callback_order (p\<lparr>telemetry := Some []\<rparr>))"

text \<open>The factory's constructor: the type assertion on the configuration, then the above.\<close>

definition createMetricsProcessor ::
  "('v, 'x, 'sk) lib \<Rightarrow> config option \<Rightarrow> meter \<Rightarrow> u64 \<Rightarrow> string list option \<times> 'sk processor option" where
  "createMetricsProcessor L cfgIface mt makeSeed =
     (case cfgIface of
        None \<Rightarrow> (Some [''invalid config type''], None)
      | Some oCfg \<Rightarrow>
          let (err, p) = newCardinalityProcessor L oCfg mt makeSeed
          in (err, if err = None then Some p else None))"

text \<open>
  The public constructor for external tests, and the factory: the component's type, the
  default configuration, the constructor and the registered stability.
\<close>

definition NewCardinalityProcessorForTest ::
  "('v, 'x, 'sk) lib \<Rightarrow> config \<Rightarrow> meter \<Rightarrow> u64 \<Rightarrow> string list option \<times> 'sk processor" where
  "NewCardinalityProcessorForTest L c mt makeSeed = newCardinalityProcessor L c mt makeSeed"

definition typeStr :: string where
  "typeStr = ''cardinality_guardian''"

datatype stability = StabilityLevelDevelopment | StabilityLevelAlpha | StabilityLevelBeta
  | StabilityLevelStable

record 'sk factory =
  fa_type :: string
  fa_createDefaultConfig :: config
  fa_createMetrics :: "config option \<Rightarrow> meter \<Rightarrow> u64 \<Rightarrow> string list option \<times> 'sk processor option"
  fa_metricsStability :: stability

definition NewFactory :: "('v, 'x, 'sk) lib \<Rightarrow> 'sk factory" where
  "NewFactory L = \<lparr>
     fa_type = typeStr,
     fa_createDefaultConfig = createDefaultConfig,
     fa_createMetrics = createMetricsProcessor L,
     fa_metricsStability = StabilityLevelDevelopment\<rparr>"

definition TelemetryBuilder_Shutdown :: "instrument list \<Rightarrow> 'sk processor \<Rightarrow> 'sk processor" where
  "TelemetryBuilder_Shutdown registrations p =
     p\<lparr>sdkCallbacks := fold remove1 registrations (sdkCallbacks p)\<rparr>"

section \<open>What the callbacks observe\<close>

text \<open>The active-trackers callback adds the lengths of the shards' maps in an \<open>int64\<close>.\<close>

definition observe_trackers_active :: "'sk processor \<Rightarrow> i64" where
  "observe_trackers_active p =
     foldl (\<lambda>total s. total + of_nat (length (trackers s))) 0 (shards p)"

text \<open>The float operations of the savings callback; \<open>0x4059000000000000\<close> is the double 100.\<close>

record float_unit =
  f64_mul :: "f64 \<Rightarrow> f64 \<Rightarrow> f64"
  f64_div :: "f64 \<Rightarrow> f64 \<Rightarrow> f64"
  math_Round :: "f64 \<Rightarrow> f64"

definition observe_savings :: "('v, 'x, 'sk) lib \<Rightarrow> float_unit \<Rightarrow> 'sk processor \<Rightarrow> f64" where
  "observe_savings L F p =
     (let drops = labelsStripped p;
          savings = f64_mul F (f64_of_int64 L drops) (estimatedCostPerMetricMonth p)
      in f64_div F (math_Round F (f64_mul F savings 0x4059000000000000)) 0x4059000000000000)"

definition observe_top_offenders :: "'sk processor \<Rightarrow> (i64 \<times> string \<times> string) list" where
  "observe_top_offenders p =
     map (\<lambda>e. (oe_delta e, oe_metricName e, oe_labelKey e)) (topOffenders p)"

text \<open>The generated observers hand a value and its attributes to the SDK under their instrument.\<close>

datatype observation =
    ObserveInt64 instrument i64 "(string \<times> string) list"
  | ObserveFloat64 instrument f64

definition observerInt64_Observe :: "instrument \<Rightarrow> i64 \<Rightarrow> (string \<times> string) list \<Rightarrow> observation" where
  "observerInt64_Observe inst v opts = ObserveInt64 inst v opts"

definition observerFloat64_Observe :: "instrument \<Rightarrow> f64 \<Rightarrow> observation" where
  "observerFloat64_Observe inst v = ObserveFloat64 inst v"

text \<open>The five callbacks.\<close>

fun run_callback ::
  "('v, 'x, 'sk) lib \<Rightarrow> float_unit \<Rightarrow> 'sk processor \<Rightarrow> instrument \<Rightarrow> observation list" where
  "run_callback L F p TrackersActive =
     [observerInt64_Observe TrackersActive (observe_trackers_active p) []]"
| "run_callback L F p LabelsStripped =
     [observerInt64_Observe LabelsStripped (labelsStripped p) []]"
| "run_callback L F p SavingsEstimated =
     [observerFloat64_Observe SavingsEstimated (observe_savings L F p)]"
| "run_callback L F p TrackersRejected =
     [observerInt64_Observe TrackersRejected (trackersRejected p) []]"
| "run_callback L F p TopOffenders =
     map (\<lambda>(delta, metricName, labelKey). observerInt64_Observe TopOffenders delta
            [(''metric_name'', metricName), (''label_key'', labelKey)]) (observe_top_offenders p)"

text \<open>One collection: every callback the SDK holds runs once.\<close>

definition collect ::
  "('v, 'x, 'sk) lib \<Rightarrow> float_unit \<Rightarrow> 'sk processor \<Rightarrow> observation list" where
  "collect L F p = concat (map (run_callback L F p) (sdkCallbacks p))"

text \<open>The registrations stop at the first error and keep what was registered before it.\<close>

definition registered :: "meter \<Rightarrow> instrument list" where
  "registered mt = takeWhile (\<lambda>i. registerCallback mt i = None) callback_order"

lemma register_all_result:
  "fst (register_all mt is p) = None \<longleftrightarrow> list_all (\<lambda>i. registerCallback mt i = None) is"
  "snd (register_all mt is p) =
     p\<lparr>sdkCallbacks := sdkCallbacks p @ takeWhile (\<lambda>i. registerCallback mt i = None) is,
       telemetry := map_option (\<lambda>regs. regs @ takeWhile (\<lambda>i. registerCallback mt i = None) is) (telemetry p)\<rparr>"
  by (induction mt "is" p rule: register_all.induct)
     (auto simp: RegisterCallback_def option.map_comp comp_def option.map_ident split: option.splits)

lemma constructor_result:
  "snd (newCardinalityProcessor L c mt sd) =
     (if NewTelemetryBuilder mt = None
      then (make_processor L c sd)\<lparr>sdkCallbacks := registered mt, telemetry := Some (registered mt)\<rparr>
      else make_processor L c sd)"
  by (auto simp: newCardinalityProcessor_def Let_def register_all_result registered_def
      make_processor_def split: option.split)

lemma constructor_ok:
  assumes "NewTelemetryBuilder mt = None" and "\<And>i. registerCallback mt i = None"
  shows "newCardinalityProcessor L c mt sd = (None, snd (newCardinalityProcessor L c mt sd))"
proof -
  have "fst (newCardinalityProcessor L c mt sd) = None"
    using assms by (simp add: newCardinalityProcessor_def Let_def register_all_result list_all_iff)
  then show ?thesis by (simp add: prod_eq_iff)
qed

lemma observe_active_total: "observe_trackers_active p = of_nat (total_trackers p)"
proof -
  have "foldl (\<lambda>total s. total + of_nat (length (trackers s))) a ss
      = a + (of_nat (sum_list (map (\<lambda>s. length (trackers s)) ss)) :: i64)" for a ss
    by (induction ss arbitrary: a) (simp_all add: ac_simps)
  from this [of 0] show ?thesis by (simp add: observe_trackers_active_def total_trackers_def)
qed

section \<open>Properties\<close>

text \<open>
  C40. A constructor that fails half-way cleans up nothing: the caller gets an error, and the
  callbacks registered before it stay registered and the child context is not cancelled.
\<close>

theorem failed_construction_leaks:
  assumes "NewTelemetryBuilder mt = None"
    and "registerCallback mt i = Some err" and "callback_order = before @ i # after"
    and "list_all (\<lambda>j. registerCallback mt j = None) before"
  shows "fst (newCardinalityProcessor L c mt sd) \<noteq> None \<and>
    sdkCallbacks (snd (newCardinalityProcessor L c mt sd)) = before \<and>
    \<not> ctxCancelled (snd (newCardinalityProcessor L c mt sd))"
proof -
  have "registered mt = before"
    using assms(2,4) by (simp add: registered_def assms(3) list_all_iff)
  moreover have "\<not> list_all (\<lambda>i. registerCallback mt i = None) callback_order"
    using assms(2) by (simp add: assms(3))
  then have "fst (newCardinalityProcessor L c mt sd) \<noteq> None"
    using assms(1) register_all_result(1) [of mt callback_order "make_processor L c sd\<lparr>telemetry := Some []\<rparr>"]
    by (simp only: newCardinalityProcessor_def Let_def option.case simp_thms)
  ultimately show ?thesis
    using assms(1) by (simp add: constructor_result make_processor_def)
qed

section \<open>Witnesses\<close>

text \<open>A meter without errors, and one whose last registration fails.\<close>

definition good_meter :: meter where
  "good_meter = \<lparr>newInstrument = \<lambda>_. None, registerCallback = \<lambda>_. None\<rparr>"

definition failing_meter :: meter where
  "failing_meter = \<lparr>newInstrument = \<lambda>_. None,
     registerCallback = \<lambda>i. if i = TopOffenders then Some ''duplicate'' else None\<rparr>"

theorem failed_construction_leaks_witness:
  "fst (newCardinalityProcessor ref_lib createDefaultConfig failing_meter 7) \<noteq> None \<and>
   sdkCallbacks (snd (newCardinalityProcessor ref_lib createDefaultConfig failing_meter 7))
     = [TrackersActive, LabelsStripped, SavingsEstimated, TrackersRejected]"
proof -
  have "NewTelemetryBuilder failing_meter = None"
    "registerCallback failing_meter TopOffenders = Some ''duplicate''"
    "callback_order = [TrackersActive, LabelsStripped, SavingsEstimated, TrackersRejected] @ TopOffenders # []"
    "list_all (\<lambda>j. registerCallback failing_meter j = None)
       [TrackersActive, LabelsStripped, SavingsEstimated, TrackersRejected]"
    by (simp_all add: failing_meter_def NewTelemetryBuilder_def List.map_filter_def callback_order_def)
  from failed_construction_leaks [OF this, of ref_lib createDefaultConfig 7] show ?thesis by blast
qed

end
