(* ===== verification/Decision.thy ===== *)
theory Decision
  imports Processor_State
begin

text \<open>
  The core decision \<open>shouldDrop\<close> of \<open>processor.go\<close>: find or create the tracker of the pair,
  insert the value's hash and compare the growth with the limit. The lemmas give its
  refinement of a decision on a flat map, the tracker budget it keeps, and its effect on
  the rest of the state.
\<close>

section \<open>Finding the tracker\<close>

text \<open>
  The double-checked lookup, in one uninterrupted run: the read-locked lookup, and on a
  miss the write-locked one, the budget check and the creation. \<open>None\<close> is the early
  return at the budget. (Theory \<open>Concurrency\<close> interleaves these steps.)
\<close>

definition reject_tracker :: "'sk processor \<Rightarrow> 'sk processor" where
  "reject_tracker p0 =
     (let p1 = p0\<lparr>trackersRejected := trackersRejected p0 + 1\<rparr>
      in if rejectionWarned p1 then p1
         else emit (LogTrackerLimit (MaxTrackerCount (cfg p1))) (p1\<lparr>rejectionWarned := True\<rparr>))"

definition budget_exhausted :: "'sk processor \<Rightarrow> bool" where
  "budget_exhausted p \<longleftrightarrow>
     0 < sint (MaxTrackerCount (cfg p)) \<and> sint (MaxTrackerCount (cfg p)) \<le> sint (trackerCount p)"

definition obtainTracker ::
  "('v, 'x, 'sk) lib \<Rightarrow> trackerKey \<Rightarrow> 'sk processor \<Rightarrow> 'sk tracker option \<times> 'sk processor" where
  "obtainTracker L key p =
     (case store_get L p key of
        Some t \<Rightarrow> (Some t, p)
      | None \<Rightarrow>
          (case store_get L p key of
             Some t \<Rightarrow> (Some t, p)
           | None \<Rightarrow>
               if budget_exhausted p then (None, reject_tracker p)
               else
                 let t = newTracker L;
                     p1 = store_put L key t p;
                     p2 = p1\<lparr>trackerCount := trackerCount p1 + 1\<rparr>
                 in (Some t, p2)))"

definition shouldDrop ::
  "('v, 'x, 'sk) lib \<Rightarrow> string \<Rightarrow> string \<Rightarrow> string \<Rightarrow> 'sk processor \<Rightarrow> bool \<times> 'sk processor" where
  "shouldDrop L metricName attrKey attrVal p =
     (let key = TrackerKey metricName attrKey;
          hashVal = Sum64String L attrVal
      in case obtainTracker L key p of
           (None, p1) \<Rightarrow> (False, p1)
         | (Some t, p1) \<Rightarrow>
             let ((currCount, prevCount), t1) = tracker_insert L hashVal t;
                 p2 = store_put L key t1 p1
             in (exceeds currCount prevCount (getLimit (cfg p2) metricName), p2))"

section \<open>What a decision leaves alone\<close>

text \<open>The settings and lifecycle fields no data point changes.\<close>

definition same_settings :: "'sk processor \<Rightarrow> 'sk processor \<Rightarrow> bool" where
  "same_settings p q \<longleftrightarrow>
     cfg q = cfg p \<and> protectedLabels q = protectedLabels p \<and> seed q = seed p \<and>
     enforcementMode q = enforcementMode p \<and>
     estimatedCostPerMetricMonth q = estimatedCostPerMetricMonth p \<and>
     ctxCancelled q = ctxCancelled p \<and> startOnce q = startOnce p \<and>
     rotationLoop q = rotationLoop p \<and> telemetry q = telemetry p \<and>
     sdkCallbacks q = sdkCallbacks p \<and> topOffenders q = topOffenders p"

lemma same_settings_refl [simp]: "same_settings p p"
  by (simp add: same_settings_def)

lemma same_settings_trans: "same_settings p q \<Longrightarrow> same_settings q r \<Longrightarrow> same_settings p r"
  by (simp add: same_settings_def)

lemma store_put_frame [simp, frame_simps]:
  "cfg (store_put L k t p) = cfg p"
  "seed (store_put L k t p) = seed p"
  "labelsStripped (store_put L k t p) = labelsStripped p"
  "trackerCount (store_put L k t p) = trackerCount p"
  "trackersRejected (store_put L k t p) = trackersRejected p"
  "rejectionWarned (store_put L k t p) = rejectionWarned p"
  "dropLogCount (store_put L k t p) = dropLogCount p"
  "dropsThisEpoch (store_put L k t p) = dropsThisEpoch p"
  "logs (store_put L k t p) = logs p"
  "same_settings p (store_put L k t p)"
  by (simp_all add: store_put_def same_settings_def)

lemma store_only_shards:
  "shards q = shards p \<Longrightarrow> seed q = seed p \<Longrightarrow> store_get L q = store_get L p"
  by (simp add: store_get_def getShard_def fun_eq_iff)

lemma reject_tracker_frame [simp, frame_simps]:
  "cfg (reject_tracker p) = cfg p"
  "shards (reject_tracker p) = shards p"
  "seed (reject_tracker p) = seed p"
  "trackerCount (reject_tracker p) = trackerCount p"
  "labelsStripped (reject_tracker p) = labelsStripped p"
  "dropLogCount (reject_tracker p) = dropLogCount p"
  "dropsThisEpoch (reject_tracker p) = dropsThisEpoch p"
  "same_settings p (reject_tracker p)"
  by (simp_all add: reject_tracker_def emit_def Let_def same_settings_def)

lemma reject_tracker_ok [simp]: "shards_ok (reject_tracker p) = shards_ok p"
  "total_trackers (reject_tracker p) = total_trackers p"
  by (simp_all add: shards_ok_def total_trackers_def)

lemma count_update [simp]:
  "shards_ok (p\<lparr>trackerCount := c\<rparr>) = shards_ok p"
  "total_trackers (p\<lparr>trackerCount := c\<rparr>) = total_trackers p"
  "same_settings p (p\<lparr>trackerCount := c\<rparr>)"
  by (simp_all add: shards_ok_def total_trackers_def same_settings_def)

text \<open>The new tracker is stored before the counter is bumped.\<close>

definition create_tracker ::
  "('v, 'x, 'sk) lib \<Rightarrow> trackerKey \<Rightarrow> 'sk processor \<Rightarrow> 'sk processor" where
  "create_tracker L key p =
     (store_put L key (newTracker L) p)\<lparr>trackerCount := trackerCount p + 1\<rparr>"

lemma create_tracker_frame [simp, frame_simps]:
  "cfg (create_tracker L key p) = cfg p"
  "labelsStripped (create_tracker L key p) = labelsStripped p"
  "trackersRejected (create_tracker L key p) = trackersRejected p"
  "rejectionWarned (create_tracker L key p) = rejectionWarned p"
  "dropLogCount (create_tracker L key p) = dropLogCount p"
  "dropsThisEpoch (create_tracker L key p) = dropsThisEpoch p"
  "logs (create_tracker L key p) = logs p"
  "trackerCount (create_tracker L key p) = trackerCount p + 1"
  by (simp_all add: create_tracker_def)

lemma create_tracker_same_settings [simp]: "same_settings p (create_tracker L key p)"
  using store_put_frame(10) [of p L key "newTracker L"]
  by (simp add: create_tracker_def same_settings_def)

lemma obtainTracker_tracked:
  "store_get L p key = Some t \<Longrightarrow> obtainTracker L key p = (Some t, p)"
  by (simp add: obtainTracker_def)

lemma obtainTracker_rejected:
  "store_get L p key = None \<Longrightarrow> budget_exhausted p \<Longrightarrow>
   obtainTracker L key p = (None, reject_tracker p)"
  by (simp add: obtainTracker_def)

lemma obtainTracker_created:
  "store_get L p key = None \<Longrightarrow> \<not> budget_exhausted p \<Longrightarrow>
   obtainTracker L key p = (Some (newTracker L), create_tracker L key p)"
  by (simp add: obtainTracker_def create_tracker_def Let_def)

lemmas obtainTracker_simps = obtainTracker_tracked obtainTracker_rejected obtainTracker_created

lemma obtainTracker_cases [case_names tracked rejected created]:
  obtains t where "store_get L p key = Some t"
  | "store_get L p key = None" "budget_exhausted p"
  | "store_get L p key = None" "\<not> budget_exhausted p"
  by (cases "store_get L p key") auto

text \<open>The three outcomes of a decision.\<close>

definition decide_on ::
  "('v, 'x, 'sk) lib \<Rightarrow> trackerKey \<Rightarrow> u64 \<Rightarrow> 'sk tracker \<Rightarrow> 'sk processor \<Rightarrow> bool \<times> 'sk processor" where
  "decide_on L key h t p =
     (exceeds (cachedCurr (snd (tracker_insert L h t))) (cachedPrev t)
        (getLimit (cfg p) (key_metricName key)),
      store_put L key (snd (tracker_insert L h t)) p)"

lemma shouldDrop_tracked:
  "store_get L p (TrackerKey m k) = Some t \<Longrightarrow>
   shouldDrop L m k v p = decide_on L (TrackerKey m k) (Sum64String L v) t p"
  by (simp add: shouldDrop_def obtainTracker_simps decide_on_def Let_def split_beta
      tracker_insert_result frame_simps)

lemma shouldDrop_rejected:
  "store_get L p (TrackerKey m k) = None \<Longrightarrow> budget_exhausted p \<Longrightarrow>
   shouldDrop L m k v p = (False, reject_tracker p)"
  by (simp add: shouldDrop_def obtainTracker_simps Let_def)

lemma shouldDrop_created:
  "store_get L p (TrackerKey m k) = None \<Longrightarrow> \<not> budget_exhausted p \<Longrightarrow>
   shouldDrop L m k v p = decide_on L (TrackerKey m k) (Sum64String L v) (newTracker L)
     (create_tracker L (TrackerKey m k) p)"
  by (simp add: shouldDrop_def obtainTracker_simps decide_on_def Let_def split_beta
      tracker_insert_result frame_simps)

lemmas shouldDrop_simps = shouldDrop_tracked shouldDrop_rejected shouldDrop_created

lemma decide_on_same_settings: "same_settings p q \<Longrightarrow> same_settings p (snd (decide_on L k h t q))"
  by (simp add: decide_on_def same_settings_trans)

lemma shouldDrop_same_settings [simp]: "same_settings p (snd (shouldDrop L m k v p))"
  by (cases rule: obtainTracker_cases [of L p "TrackerKey m k"])
     (simp_all add: shouldDrop_simps decide_on_same_settings)

text \<open>The enforcement counters are the caller's business.\<close>

lemma shouldDrop_counters [simp, frame_simps]:
  "labelsStripped (snd (shouldDrop L m k v p)) = labelsStripped p"
  "dropLogCount (snd (shouldDrop L m k v p)) = dropLogCount p"
  "dropsThisEpoch (snd (shouldDrop L m k v p)) = dropsThisEpoch p"
  by (cases rule: obtainTracker_cases [of L p "TrackerKey m k"];
      simp add: shouldDrop_simps decide_on_def)+

section \<open>The tracker budget\<close>

text \<open>
  The atomic counter agrees with the number of live trackers (modulo \<open>2^64\<close>, so without
  any assumption on its size), and with a budget configured the number stays within it.
\<close>

definition tracker_inv :: "'sk processor \<Rightarrow> bool" where
  "tracker_inv p \<longleftrightarrow> shards_ok p \<and> trackerCount p = of_nat (total_trackers p) \<and>
     (0 < sint (MaxTrackerCount (cfg p)) \<longrightarrow>
        int (total_trackers p) \<le> sint (MaxTrackerCount (cfg p)))"

lemma tracker_inv_shards_ok [simp]: "tracker_inv p \<Longrightarrow> shards_ok p"
  by (simp add: tracker_inv_def)

lemma budget_exhausted_iff:
  assumes "tracker_inv p"
  shows "budget_exhausted p \<longleftrightarrow> 0 < sint (MaxTrackerCount (cfg p)) \<and>
     sint (MaxTrackerCount (cfg p)) \<le> int (total_trackers p)"
proof (cases "0 < sint (MaxTrackerCount (cfg p))")
  case True
  then have "int (total_trackers p) < 2 ^ 63"
    using assms sint_less [of "MaxTrackerCount (cfg p)"] by (simp add: tracker_inv_def)
  then have "sint (trackerCount p) = int (total_trackers p)"
    using assms by (simp add: tracker_inv_def)
  then show ?thesis by (simp add: budget_exhausted_def)
qed (simp add: budget_exhausted_def)

lemma tracker_inv_put:
  "tracker_inv p \<Longrightarrow> store_get L p k \<noteq> None \<Longrightarrow> tracker_inv (store_put L k t p)"
  by (auto simp: tracker_inv_def sharded.ok_put sharded.entries_put)

lemma create_tracker_ok: "shards_ok p \<Longrightarrow> shards_ok (create_tracker L key p)"
  by (simp add: create_tracker_def sharded.ok_put)

lemma create_tracker_get:
  "shards_ok p \<Longrightarrow> store_get L (create_tracker L key p) = (store_get L p)(key \<mapsto> newTracker L)"
proof -
  assume ok: "shards_ok p"
  have "store_get L (create_tracker L key p) = store_get L (store_put L key (newTracker L) p)"
    by (rule store_only_shards) (simp_all add: create_tracker_def)
  with ok show ?thesis by (simp add: sharded.get_put)
qed

lemma tracker_inv_create:
  assumes inv: "tracker_inv p" and new: "store_get L p key = None" and room: "\<not> budget_exhausted p"
  shows "tracker_inv (create_tracker L key p)"
proof -
  have "total_trackers (create_tracker L key p) = Suc (total_trackers p)"
    using inv new by (simp add: create_tracker_def sharded.entries_put)
  then show ?thesis
    using inv room by (auto simp: tracker_inv_def create_tracker_ok budget_exhausted_iff [OF inv])
qed

lemma tracker_inv_reject: "tracker_inv p \<Longrightarrow> tracker_inv (reject_tracker p)"
  by (simp add: tracker_inv_def)

lemma tracker_inv_decide_on:
  "tracker_inv p \<Longrightarrow> store_get L p k \<noteq> None \<Longrightarrow> tracker_inv (snd (decide_on L k h t p))"
  by (simp add: decide_on_def tracker_inv_put)

text \<open>
  The decision keeps the budget: the counter still equals the number of trackers and,
  with \<open>MaxTrackerCount\<close> set, no decision takes the number of trackers past it.
\<close>

lemma shouldDrop_keeps_inv:
  assumes "tracker_inv p"
  shows "tracker_inv (snd (shouldDrop L m k v p))"
proof (cases rule: obtainTracker_cases [of L p "TrackerKey m k"])
  case (tracked t)
  with assms show ?thesis by (simp add: shouldDrop_simps tracker_inv_decide_on)
next
  case rejected
  with assms show ?thesis by (simp add: shouldDrop_simps tracker_inv_reject)
next
  case created
  with assms show ?thesis
    by (simp add: shouldDrop_simps tracker_inv_decide_on tracker_inv_create create_tracker_get)
qed

section \<open>Refinement: a decision on a flat map\<close>

text \<open>
  What the decision means, without shards, hashes of names or machine arithmetic on the
  estimates: one map from (metric, label) to trackers, and "the estimate exceeds the
  baseline by more than the limit" over the natural numbers.
\<close>

definition flat_decision ::
  "('v, 'x, 'sk) lib \<Rightarrow> nat \<Rightarrow> bool \<Rightarrow> trackerKey \<Rightarrow> u64 \<Rightarrow>
   (trackerKey \<rightharpoonup> 'sk tracker) \<Rightarrow> bool \<times> (trackerKey \<rightharpoonup> 'sk tracker)" where
  "flat_decision L limit full key h trs =
     (let judge = (\<lambda>t. let t' = snd (tracker_insert L h t)
                      in (unat (cachedPrev t') + limit < unat (cachedCurr t'), trs(key \<mapsto> t')))
      in case trs key of
           Some t \<Rightarrow> judge t
         | None \<Rightarrow> if full then (False, trs) else judge (newTracker L))"

lemma decide_on_flat:
  "shards_ok p \<Longrightarrow> fst (decide_on L k h t p) =
     (unat (cachedPrev (snd (tracker_insert L h t))) + unat (getLimit (cfg p) (key_metricName k))
        < unat (cachedCurr (snd (tracker_insert L h t))))"
  "shards_ok p \<Longrightarrow> store_get L (snd (decide_on L k h t p)) =
     (store_get L p)(k \<mapsto> snd (tracker_insert L h t))"
  by (simp_all add: decide_on_def exceeds_unat frame_simps sharded.get_put)

text \<open>
  C1. \<open>shouldDrop\<close> refines the flat decision: under the tracker invariant its verdict and
  its effect on the trackers are those of the flat map, where the pair is refused only if
  a budget is set and already used up by the live trackers. Sharding, the hash seed and
  the unsigned subtraction do not show.
\<close>

theorem shouldDrop_refines_flat_decision:
  assumes inv: "tracker_inv p"
    and full: "full = (0 < sint (MaxTrackerCount (cfg p)) \<and>
                       sint (MaxTrackerCount (cfg p)) \<le> int (total_trackers p))"
  shows "flat_decision L (unat (getLimit (cfg p) m)) full (TrackerKey m k) (Sum64String L v)
           (store_get L p)
       = (fst (shouldDrop L m k v p), store_get L (snd (shouldDrop L m k v p)))"
proof (cases rule: obtainTracker_cases [of L p "TrackerKey m k"])
  case (tracked t)
  with inv show ?thesis
    by (simp add: shouldDrop_simps decide_on_flat flat_decision_def Let_def)
next
  case rejected
  moreover have "store_get L (reject_tracker p) = store_get L p"
    by (rule store_only_shards) simp_all
  ultimately show ?thesis
    using full budget_exhausted_iff [OF inv] by (simp add: shouldDrop_simps flat_decision_def Let_def)
next
  case created
  moreover have "\<not> full"
    using created(2) full budget_exhausted_iff [OF inv] by blast
  ultimately show ?thesis
    using inv by (simp add: shouldDrop_simps decide_on_flat flat_decision_def Let_def
        create_tracker_ok create_tracker_get)
qed

text \<open>
  At the budget a new pair passes through: it is not dropped, no tracker changes, one
  rejection is counted, and the warning is logged only if none was logged since the flag
  was last reset.
\<close>

lemma full_budget_passes_new_pairs_through:
  assumes "store_get L p (TrackerKey m k) = None" and "budget_exhausted p"
  shows "\<not> fst (shouldDrop L m k v p) \<and>
    shards (snd (shouldDrop L m k v p)) = shards p \<and>
    trackersRejected (snd (shouldDrop L m k v p)) = trackersRejected p + 1 \<and>
    rejectionWarned (snd (shouldDrop L m k v p)) \<and>
    logs (snd (shouldDrop L m k v p)) =
      (if rejectionWarned p then logs p else logs p @ [LogTrackerLimit (MaxTrackerCount (cfg p))])"
  using assms by (simp add: shouldDrop_simps reject_tracker_def emit_def Let_def)

section \<open>A sequence of decisions\<close>

text \<open>
  Any sequence of requests (metric, label, value). A label's tracker sees exactly its own
  values, in order: other pairs, in the same shard or not, do not touch it.
\<close>

type_synonym request = "string \<times> string \<times> string"

definition request_step ::
  "('v, 'x, 'sk) lib \<Rightarrow> request \<Rightarrow> 'sk processor \<Rightarrow> bool \<times> 'sk processor" where
  "request_step L r p = (case r of (m, k, v) \<Rightarrow> shouldDrop L m k v p)"

definition hashes_of :: "('v, 'x, 'sk) lib \<Rightarrow> trackerKey \<Rightarrow> request list \<Rightarrow> u64 list" where
  "hashes_of L key rs =
     map (\<lambda>(m, k, v). Sum64String L v) (filter (\<lambda>(m, k, v). TrackerKey m k = key) rs)"

interpretation request_loop: loop_invariant "request_step L" tracker_inv
  for L :: "('v, 'x, 'sk) lib"
  by unfold_locales (auto simp: request_step_def shouldDrop_keeps_inv split: prod.split)

interpretation request_settings: loop_contract "request_step L" same_settings
  for L :: "('v, 'x, 'sk) lib"
  by unfold_locales
    (auto simp: request_step_def split: prod.split intro: same_settings_trans)

lemma shards_ok_shouldDrop: "shards_ok p \<Longrightarrow> shards_ok (snd (shouldDrop L m k v p))"
  by (cases rule: obtainTracker_cases [of L p "TrackerKey m k"])
     (simp_all add: shouldDrop_simps decide_on_def sharded.ok_put create_tracker_ok)

lemma shouldDrop_other_tracker:
  assumes "shards_ok p" and "key \<noteq> TrackerKey m k"
  shows "store_get L (snd (shouldDrop L m k v p)) key = store_get L p key"
proof (cases rule: obtainTracker_cases [of L p "TrackerKey m k"])
  case rejected
  moreover have "store_get L (reject_tracker p) = store_get L p"
    by (rule store_only_shards) simp_all
  ultimately show ?thesis by (simp add: shouldDrop_simps)
qed (use assms in \<open>simp_all add: shouldDrop_simps decide_on_flat create_tracker_ok create_tracker_get\<close>)

lemma shouldDrop_own_tracker:
  assumes "shards_ok p" and "store_get L p (TrackerKey m k) = Some t"
  shows "store_get L (snd (shouldDrop L m k v p)) (TrackerKey m k)
     = Some (snd (tracker_insert L (Sum64String L v) t))"
  using assms by (simp add: shouldDrop_simps decide_on_flat)

text \<open>
  After any sequence of decisions on any pairs, the tracker of a pair that was tracked at
  the start is its old tracker with the hashes of its own values inserted in order.
\<close>

lemma tracker_own_values:
  assumes "shards_ok p" and "store_get L p key = Some t"
  shows "store_get L (snd (traverse (request_step L) rs p)) key
     = Some (insert_all L (hashes_of L key rs) t)"
  using assms
proof (induction rs arbitrary: p t)
  case Nil
  then show ?case by (simp add: hashes_of_def insert_all_def)
next
  case (Cons r rs)
  obtain m k v where r: "r = (m, k, v)" by (cases r) auto
  let ?p = "snd (shouldDrop L m k v p)"
  have ok: "shards_ok ?p" using Cons.prems(1) by (rule shards_ok_shouldDrop)
  show ?case
  proof (cases "TrackerKey m k = key")
    case True
    with Cons.prems have "store_get L ?p key = Some (snd (tracker_insert L (Sum64String L v) t))"
      using shouldDrop_own_tracker by blast
    from Cons.IH [OF ok this] True r show ?thesis
      by (simp add: request_step_def hashes_of_def insert_all_def split_beta Let_def)
  next
    case False
    with Cons.prems have "store_get L ?p key = Some t"
      by (simp add: shouldDrop_other_tracker)
    from Cons.IH [OF ok this] False r show ?thesis
      by (simp add: request_step_def hashes_of_def split_beta Let_def)
  qed
qed

lemma request_cfg: "cfg (snd (traverse (request_step L) rs p)) = cfg p"
  using request_settings.loop_R [of p L rs] by (simp add: same_settings_def)

text \<open>
  C29. Labels are judged independently: the verdict on a value of one (metric, label) pair
  is the same in any two processors and after any two histories in which that pair starts
  from the same tracker, has the same limit and has shown the same values, whatever was
  decided for other pairs.
\<close>

theorem labels_judged_independently:
  assumes "shards_ok p" "shards_ok q"
    and "store_get L p (TrackerKey m k) = Some t" "store_get L q (TrackerKey m k) = Some t"
    and "getLimit (cfg p) m = getLimit (cfg q) m"
    and "hashes_of L (TrackerKey m k) rs = hashes_of L (TrackerKey m k) rs'"
  shows "fst (shouldDrop L m k v (snd (traverse (request_step L) rs p)))
       = fst (shouldDrop L m k v (snd (traverse (request_step L) rs' q)))"
proof -
  have p: "store_get L (snd (traverse (request_step L) rs p)) (TrackerKey m k)
      = Some (insert_all L (hashes_of L (TrackerKey m k) rs) t)"
    using assms(1,3) by (rule tracker_own_values)
  have "store_get L (snd (traverse (request_step L) rs' q)) (TrackerKey m k)
      = Some (insert_all L (hashes_of L (TrackerKey m k) rs') t)"
    using assms(2,4) by (rule tracker_own_values)
  with assms(6) have q: "store_get L (snd (traverse (request_step L) rs' q)) (TrackerKey m k)
      = Some (insert_all L (hashes_of L (TrackerKey m k) rs) t)" by simp
  show ?thesis
    unfolding shouldDrop_tracked [OF p] shouldDrop_tracked [OF q]
    using assms(5) by (simp add: decide_on_def request_cfg)
qed

text \<open>
  A pair that is not tracked yet gets its tracker at one of its own values (at the first,
  unless the budget is used up then), and from there on the tracker sees all of them.
\<close>

lemma new_pair_values:
  assumes "shards_ok p" and "store_get L p key = None"
  shows "store_get L (snd (traverse (request_step L) rs p)) key = None \<or>
    (\<exists>n. store_get L (snd (traverse (request_step L) rs p)) key
       = Some (insert_all L (drop n (hashes_of L key rs)) (newTracker L)))"
  using assms
proof (induction rs arbitrary: p)
  case (Cons r rs)
  obtain m k v where r: "r = (m, k, v)" by (cases r) auto
  let ?p = "snd (shouldDrop L m k v p)" and ?h = "Sum64String L v"
  have ok: "shards_ok ?p" using Cons.prems(1) by (rule shards_ok_shouldDrop)
  have step: "snd (traverse (request_step L) (r # rs) p) = snd (traverse (request_step L) rs ?p)"
    by (simp add: r request_step_def split_beta Let_def)
  have hashes: "hashes_of L key (r # rs) = (if TrackerKey m k = key then ?h # hashes_of L key rs else hashes_of L key rs)"
    by (simp add: r hashes_of_def)
  show ?case
  proof (cases "store_get L ?p key")
    case None
    from Cons.IH [OF ok None] show ?thesis
    proof
      assume "\<exists>n. store_get L (snd (traverse (request_step L) rs ?p)) key
        = Some (insert_all L (drop n (hashes_of L key rs)) (newTracker L))"
      then obtain n where n: "store_get L (snd (traverse (request_step L) rs ?p)) key
        = Some (insert_all L (drop n (hashes_of L key rs)) (newTracker L))" by blast
      have "drop n (hashes_of L key rs) = drop (if TrackerKey m k = key then Suc n else n) (hashes_of L key (r # rs))"
        by (simp add: hashes)
      with n show ?thesis unfolding step by metis
    qed (unfold step, rule disjI1)
  next
    case (Some t)
    have key: "TrackerKey m k = key"
      using shouldDrop_other_tracker [OF Cons.prems(1), of key m k L v] Cons.prems(2) Some by force
    moreover have "\<not> budget_exhausted p"
    proof
      assume "budget_exhausted p"
      then have "store_get L ?p key = store_get L (reject_tracker p) key"
        using Cons.prems(2) key by (simp add: shouldDrop_simps)
      also have "\<dots> = None"
        using Cons.prems(2) store_only_shards [of "reject_tracker p" p L] by simp
      finally show False using Some by simp
    qed
    ultimately have t: "t = insert_all L [?h] (newTracker L)"
      using Some Cons.prems
      by (auto simp: shouldDrop_simps decide_on_flat create_tracker_ok insert_all_def)
    have "store_get L (snd (traverse (request_step L) rs ?p)) key
        = Some (insert_all L (hashes_of L key rs) t)"
      by (rule tracker_own_values [OF ok Some])
    also have "insert_all L (hashes_of L key rs) t = insert_all L (drop 0 (hashes_of L key (r # rs))) (newTracker L)"
      by (simp add: t hashes key insert_all_def)
    finally show ?thesis unfolding step by blast
  qed
qed simp

text \<open>
  C7. A label that stays within its limit is never touched, whether it is tracked at the start
  of the epoch or first seen during it, and whether or not the tracker budget is used up:
  if every estimate its sketch can give is off by at most \<open>eps\<close>, and the number of distinct
  hashes the label shows this epoch plus \<open>eps\<close> is at most the limit of its metric, the
  decision is "keep", whatever else the processor is asked in between.
\<close>

theorem within_limit_never_dropped:
  assumes laws: "sketch_laws L repr" and ok: "shards_ok p"
    and start: "\<forall>t. store_get L p (TrackerKey m k) = Some t \<longrightarrow> epoch_start repr t"
    and hs: "hs = hashes_of L (TrackerKey m k) (rs @ [(m, k, v)])" "length hs < 2 ^ 64"
    and acc: "\<forall>n < length hs. accurate L repr eps (set (take (refreshed (length (drop n hs))) (drop n hs)))"
    and few: "card (set hs) + eps \<le> unat (getLimit (cfg p) m)"
  shows "\<not> fst (shouldDrop L m k v (snd (traverse (request_step L) rs p)))"
proof -
  let ?key = "TrackerKey m k" and ?h = "Sum64String L v"
  let ?p = "snd (traverse (request_step L) rs p)" and ?hs = "hashes_of L (TrackerKey m k) rs"
  have cfg: "cfg ?p = cfg p" by (rule request_cfg)
  have hs': "hs = ?hs @ [?h]" by (simp add: hs(1) hashes_of_def)
  have judge: "\<not> exceeds (cachedCurr (snd (tracker_insert L ?h (insert_all L (drop n ?hs) t))))
      (cachedPrev (insert_all L (drop n ?hs) t)) (getLimit (cfg p) m)"
    if n: "n \<le> length ?hs" and t: "epoch_start repr t" for n t
  proof -
    have d: "drop n hs = drop n ?hs @ [?h]" using n by (simp add: hs')
    have "length (drop n hs) < 2 ^ 64" using hs(2) by (rule le_less_trans [rotated]) simp
    moreover have "drop n hs \<noteq> []" "n < length hs" using n by (simp_all add: d) (simp add: hs')
    ultimately have "unat (cachedCurr (insert_all L (drop n hs) t)) \<le> card (set (drop n hs)) + eps"
      using acc by (intro estimate_upper [OF laws t]) simp_all
    also have "card (set (drop n hs)) \<le> card (set hs)" by (intro card_mono set_drop_subset) simp
    finally show ?thesis using few by (simp add: d insert_all_snoc exceeds_unat)
  qed
  consider (old) t where "store_get L p ?key = Some t" | (none) "store_get L ?p ?key = None"
    | (new) n where "store_get L ?p ?key = Some (insert_all L (drop n ?hs) (newTracker L))"
    using new_pair_values [OF ok, of L ?key rs] by fastforce
  then show ?thesis
  proof cases
    case old
    from tracker_own_values [OF ok this] judge [of 0 t] start old show ?thesis
      by (simp add: shouldDrop_simps decide_on_def cfg)
  next
    case none
    have "drop (length ?hs) ?hs = []" by simp
    with none judge [OF order.refl epoch_start_new [OF laws]] show ?thesis
      by (cases "budget_exhausted ?p") (simp_all add: shouldDrop_simps decide_on_def cfg insert_all_def)
  next
    case new
    have "drop n ?hs = drop (min n (length ?hs)) ?hs" by (simp add: min_def)
    with new judge [of "min n (length ?hs)" "newTracker L"] epoch_start_new [OF laws] show ?thesis
      by (simp add: shouldDrop_simps decide_on_def cfg)
  qed
qed

section \<open>Witnesses\<close>

text \<open>A processor with limit 3 and a budget of one tracker, after one and more values.\<close>

lemma make_processor_inv [simp]: "tracker_inv (make_processor L c sd)"
  by (simp add: tracker_inv_def)

definition demo_config :: config where
  "demo_config = createDefaultConfig\<lparr>MaxCardinalityDeltaPerEpoch := 3, MaxTrackerCount := 1\<rparr>"

definition demo_tracked :: "u64 list processor" where
  "demo_tracked = store_put ref_lib (TrackerKey ''m'' ''k'') (newTracker ref_lib)
     (make_processor ref_lib demo_config 7)"

lemma demo_tracked_facts:
  "shards_ok demo_tracked" "cfg demo_tracked = demo_config"
  "store_get ref_lib demo_tracked (TrackerKey ''m'' ''k'') = Some (newTracker ref_lib)"
  by (simp_all add: demo_tracked_def sharded.ok_put sharded.get_put)

theorem shouldDrop_refines_flat_decision_witness:
  "flat_decision ref_lib (unat (getLimit demo_config ''m'')) False (TrackerKey ''m'' ''k'')
     (Sum64String ref_lib ''a'') (store_get ref_lib (make_processor ref_lib demo_config 7))
   = (fst (shouldDrop ref_lib ''m'' ''k'' ''a'' (make_processor ref_lib demo_config 7)),
      store_get ref_lib (snd (shouldDrop ref_lib ''m'' ''k'' ''a''
        (make_processor ref_lib demo_config 7))))"
proof -
  have f: "False = (0 < sint (MaxTrackerCount (cfg (make_processor ref_lib demo_config 7))) \<and>
      sint (MaxTrackerCount (cfg (make_processor ref_lib demo_config 7)))
        \<le> int (total_trackers (make_processor ref_lib demo_config 7 :: u64 list processor)))"
    by (simp add: demo_config_def)
  show ?thesis
    using shouldDrop_refines_flat_decision [OF make_processor_inv f, of ref_lib "''m''" "''k''" "''a''"]
    by simp
qed

theorem labels_judged_independently_witness:
  "fst (shouldDrop ref_lib ''m'' ''k'' ''b''
     (snd (traverse (request_step ref_lib) [(''m'', ''k'', ''a''), (''x'', ''y'', ''z'')] demo_tracked)))
   = fst (shouldDrop ref_lib ''m'' ''k'' ''b''
     (snd (traverse (request_step ref_lib) [(''m'', ''k'', ''a'')] demo_tracked)))"
  by (rule labels_judged_independently
        [OF demo_tracked_facts(1) demo_tracked_facts(1) demo_tracked_facts(3) demo_tracked_facts(3)])
     (simp_all add: hashes_of_def)

text \<open>The pair is new, and its three values are the three that the limit allows.\<close>

theorem within_limit_never_dropped_witness:
  "\<not> fst (shouldDrop ref_lib ''m'' ''k'' ''c''
     (snd (traverse (request_step ref_lib) [(''m'', ''k'', ''a''), (''m'', ''k'', ''b'')]
       (make_processor ref_lib demo_config 7))))"
proof -
  let ?p = "make_processor ref_lib demo_config 7"
  let ?hs = "hashes_of ref_lib (TrackerKey ''m'' ''k'')
     ([(''m'', ''k'', ''a''), (''m'', ''k'', ''b'')] @ [(''m'', ''k'', ''c'')])"
  have len: "length ?hs = 3" by (simp add: hashes_of_def)
  have "card (set (take i (drop n ?hs))) \<le> 3" for i n
    by (rule le_trans [OF card_length]) (simp add: len min_le_iff_disj del: append.simps append_Cons)
  then have "card (set (take i (drop n ?hs))) < 2 ^ 64" for i n
    by (rule le_less_trans) simp
  then have acc: "\<forall>n < length ?hs. accurate ref_lib ref_repr 0 (set (take (refreshed (length (drop n ?hs))) (drop n ?hs)))"
    by (intro allI impI ref_lib_accurate) simp_all
  have "card (set ?hs) \<le> length ?hs" by (rule card_length)
  also have "length ?hs = unat (getLimit (cfg ?p) ''m'')"
    unfolding len by (simp add: demo_config_def getLimit_def createDefaultConfig_def)
  finally have few: "card (set ?hs) + 0 \<le> unat (getLimit (cfg ?p) ''m'')" by simp
  have ok: "shards_ok ?p" and new: "\<forall>t. store_get ref_lib ?p (TrackerKey ''m'' ''k'') = Some t \<longrightarrow> epoch_start ref_repr t"
    by simp_all
  have small: "length ?hs < 2 ^ 64" unfolding len by simp
  show ?thesis
    by (rule within_limit_never_dropped [OF ref_lib_sketch_laws ok new refl small acc few])
qed

end
