(* ===== verification/Attributes.thy ===== *)
theory Attributes
  imports Decision
begin

text \<open>
  Enforcement on one data point (\<open>handleAttributes\<close> of \<open>processor.go\<close>): the callback that
  \<open>RemoveIf\<close> calls on every attribute, in the three modes, and the deferred mutations. The
  main lemma separates what is decided (the same in every mode) from what is done about it;
  the properties of each mode follow from it.
\<close>

section \<open>The code\<close>

definition overflowTag :: string where
  "overflowTag = ''otel.metric.overflow''"

text \<open>
  The state the callback closes over: the processor, \<open>shouldTag\<close> and \<open>overflowKeys\<close>.
\<close>

type_synonym 'sk attr_state = "'sk processor \<times> bool \<times> string list"

text \<open>The log line of a stripped attribute, capped per epoch; the counter is bumped only
  when a cap is set, because Go evaluates the disjunction from the left.\<close>

definition log_drop :: "string \<Rightarrow> string \<Rightarrow> 'sk processor \<Rightarrow> 'sk processor" where
  "log_drop metricName k p =
     (let maxLog = DropLogMaxPerEpoch (cfg p)
      in if maxLog = 0 then emit (LogDropping metricName k) p
         else
           let p1 = p\<lparr>dropLogCount := dropLogCount p + 1\<rparr>
           in if sint (dropLogCount p1) \<le> sint maxLog
              then emit (LogDropping metricName k) p1 else p1)"

definition attr_callback ::
  "('v, 'x, 'sk) lib \<Rightarrow> string \<Rightarrow> enforcement_mode \<Rightarrow> string \<times> 'v \<Rightarrow> 'sk attr_state \<Rightarrow>
   bool \<times> 'sk attr_state" where
  "attr_callback L metricName mode kv st =
     (case kv of (k, v) \<Rightarrow> case st of (p, shouldTag, overflowKeys) \<Rightarrow>
        if isProtected p k then (False, p, shouldTag, overflowKeys)
        else
          let (drop, p1) = shouldDrop L metricName k (AsString L v) p
          in if drop then
               let p2 = p1\<lparr>labelsStripped := labelsStripped p1 + 1\<rparr>
               in if mode = EnforcementTagOnly then (False, p2, True, overflowKeys)
                  else if mode = EnforcementOverflowAttribute
                    then (False, p2, shouldTag, overflowKeys @ [k])
                  else if mode = EnforcementStripAndReaggregate then
                    let p3 = p2\<lparr>dropsThisEpoch := dropsThisEpoch p2 + 1\<rparr>
                    in (True, log_drop metricName k p3, shouldTag, overflowKeys)
                  else (False, p2, shouldTag, overflowKeys)
             else (False, p1, shouldTag, overflowKeys))"

definition handleAttributesWithMode ::
  "('v, 'x, 'sk) lib \<Rightarrow> string \<Rightarrow> enforcement_mode \<Rightarrow> 'v attrs \<Rightarrow> 'sk processor \<Rightarrow>
   'v attrs \<times> 'sk processor" where
  "handleAttributesWithMode L metricName mode attrs p =
     (let (removed, p1, shouldTag, overflowKeys) =
            traverse (attr_callback L metricName mode) attrs (p, False, []);
          attrs1 = map_RemoveIf L removed attrs;
          attrs2 = (if shouldTag then PutBool L overflowTag True attrs1 else attrs1);
          attrs3 = fold (\<lambda>k m. PutStr L k overflowSentinel m) overflowKeys attrs2
      in (attrs3, p1))"

definition handleAttributes ::
  "('v, 'x, 'sk) lib \<Rightarrow> string \<Rightarrow> 'v attrs \<Rightarrow> 'sk processor \<Rightarrow> 'v attrs \<times> 'sk processor" where
  "handleAttributes L metricName attrs p =
     handleAttributesWithMode L metricName (enforcementMode p) attrs p"

section \<open>Deciding and acting\<close>

text \<open>The decision on one attribute, before the mode comes in.\<close>

definition judge ::
  "('v, 'x, 'sk) lib \<Rightarrow> string \<Rightarrow> string \<times> 'v \<Rightarrow> 'sk processor \<Rightarrow> bool \<times> 'sk processor" where
  "judge L metricName kv p =
     (if isProtected p (fst kv) then (False, p)
      else shouldDrop L metricName (fst kv) (AsString L (snd kv)) p)"

definition verdicts ::
  "('v, 'x, 'sk) lib \<Rightarrow> string \<Rightarrow> 'v attrs \<Rightarrow> 'sk processor \<Rightarrow> bool list" where
  "verdicts L metricName attrs p = fst (traverse (judge L metricName) attrs p)"

definition flagged_keys :: "bool list \<Rightarrow> 'v attrs \<Rightarrow> string list" where
  "flagged_keys ds attrs = map (fst \<circ> fst) (filter snd (zip attrs ds))"

definition enforce ::
  "('v, 'x, 'sk) lib \<Rightarrow> enforcement_mode \<Rightarrow> bool list \<Rightarrow> 'v attrs \<Rightarrow> 'v attrs" where
  "enforce L mode ds attrs =
     (if mode = EnforcementTagOnly
        then (if list_ex (\<lambda>d. d) ds then PutBool L overflowTag True attrs else attrs)
      else if mode = EnforcementOverflowAttribute
        then fold (\<lambda>k m. PutStr L k overflowSentinel m) (flagged_keys ds attrs) attrs
      else if mode = EnforcementStripAndReaggregate then remove_flagged ds attrs
      else attrs)"

text \<open>What a decision reads and writes: everything but the enforcement counters and logs.\<close>

definition core :: "'sk processor \<Rightarrow>
    config \<times> string set \<times> u64 \<times> 'sk trackerShard list \<times> i64" where
  "core p = (cfg p, protectedLabels p, seed p, shards p, trackerCount p)"

lemma core_store_get: "core p = core q \<Longrightarrow> store_get L p = store_get L q"
  by (rule store_only_shards) (simp_all add: core_def)

lemma core_store_put: "core p = core q \<Longrightarrow> core (store_put L k t p) = core (store_put L k t q)"
  unfolding store_put_def by (simp add: core_def getShard_def update_shard_def)

lemma core_reject [simp]: "core (reject_tracker p) = core p"
  by (simp add: core_def reject_tracker_def emit_def Let_def)

lemma core_create: "core p = core q \<Longrightarrow> core (create_tracker L k p) = core (create_tracker L k q)"
  using core_store_put [of p q L k "newTracker L"]
  by (simp add: create_tracker_def core_def)

lemma core_decide_on:
  "core p = core q \<Longrightarrow> fst (decide_on L k h t p) = fst (decide_on L k h t q) \<and>
     core (snd (decide_on L k h t p)) = core (snd (decide_on L k h t q))"
  using core_store_put [of p q L k "snd (tracker_insert L h t)"]
  by (simp add: decide_on_def) (simp add: core_def)

lemma core_shouldDrop:
  assumes c: "core p = core q"
  shows "fst (shouldDrop L m k v p) = fst (shouldDrop L m k v q)"
    and "core (snd (shouldDrop L m k v p)) = core (snd (shouldDrop L m k v q))"
proof -
  have g: "store_get L q = store_get L p" and b: "budget_exhausted q = budget_exhausted p"
    using c core_store_get [OF c, of L] by (simp_all add: budget_exhausted_def core_def)
  show "fst (shouldDrop L m k v p) = fst (shouldDrop L m k v q)"
    "core (snd (shouldDrop L m k v p)) = core (snd (shouldDrop L m k v q))"
    by (cases rule: obtainTracker_cases [of L p "TrackerKey m k"];
        simp add: shouldDrop_simps g b c core_decide_on [OF c] core_decide_on [OF core_create [OF c]])+
qed

lemma core_counters [simp]:
  "core (p\<lparr>labelsStripped := n\<rparr>) = core p"
  "core (p\<lparr>dropsThisEpoch := n\<rparr>) = core p"
  "core (p\<lparr>dropLogCount := n\<rparr>) = core p"
  "core (emit e p) = core p"
  by (simp_all add: core_def emit_def)

lemma core_log_drop [simp]: "core (log_drop m k p) = core p"
  by (simp add: log_drop_def Let_def)

lemma core_isProtected: "core p = core q \<Longrightarrow> isProtected p k = isProtected q k"
  by (simp add: core_def isProtected_def)

lemma core_judge:
  assumes "core p = core q"
  shows "fst (judge L m kv p) = fst (judge L m kv q)"
    and "core (snd (judge L m kv p)) = core (snd (judge L m kv q))"
  using core_shouldDrop [OF assms, of L m "fst kv" "AsString L (snd kv)"]
    core_isProtected [OF assms, of "fst kv"] assms
  by (simp_all add: judge_def)

text \<open>The bookkeeping of one verdict.\<close>

definition note_verdict ::
  "string \<Rightarrow> enforcement_mode \<Rightarrow> string \<Rightarrow> bool \<Rightarrow> 'sk processor \<Rightarrow> 'sk processor" where
  "note_verdict metricName mode k d p =
     (if \<not> d then p
      else let p1 = p\<lparr>labelsStripped := labelsStripped p + 1\<rparr>
           in if mode = EnforcementStripAndReaggregate
              then log_drop metricName k (p1\<lparr>dropsThisEpoch := dropsThisEpoch p1 + 1\<rparr>)
              else p1)"

lemma attr_callback_judge:
  "attr_callback L m mode kv (p, tag, keys) =
     (let (d, p1) = judge L m kv p
      in (d \<and> mode = EnforcementStripAndReaggregate,
          note_verdict m mode (fst kv) d p1,
          tag \<or> (d \<and> mode = EnforcementTagOnly),
          keys @ (if d \<and> mode = EnforcementOverflowAttribute then [fst kv] else [])))"
  by (simp add: attr_callback_def judge_def note_verdict_def Let_def split_beta)

lemma log_drop_labelsStripped [simp]: "labelsStripped (log_drop m k p) = labelsStripped p"
  by (simp add: log_drop_def emit_def Let_def)

lemma note_verdict_core [simp]: "core (note_verdict m mode k d p) = core p"
  by (simp add: note_verdict_def Let_def)

lemma note_verdict_stripped [simp]:
  "labelsStripped (note_verdict m mode k d p) = labelsStripped p + (if d then 1 else 0)"
  by (simp add: note_verdict_def Let_def)

lemma judge_stripped [simp]: "labelsStripped (snd (judge L m kv p)) = labelsStripped p"
  by (simp add: judge_def)

lemma callback_loop:
  assumes "core p = core q"
  shows "fst (traverse (attr_callback L m mode) attrs (p, tag, keys)) =
      map (\<lambda>d. d \<and> mode = EnforcementStripAndReaggregate) (fst (traverse (judge L m) attrs q)) \<and>
    core (fst (snd (traverse (attr_callback L m mode) attrs (p, tag, keys)))) =
      core (snd (traverse (judge L m) attrs q)) \<and>
    fst (snd (snd (traverse (attr_callback L m mode) attrs (p, tag, keys)))) =
      (tag \<or> (mode = EnforcementTagOnly \<and> list_ex (\<lambda>d. d) (fst (traverse (judge L m) attrs q)))) \<and>
    snd (snd (snd (traverse (attr_callback L m mode) attrs (p, tag, keys)))) =
      keys @ (if mode = EnforcementOverflowAttribute
              then flagged_keys (fst (traverse (judge L m) attrs q)) attrs else []) \<and>
    labelsStripped (fst (snd (traverse (attr_callback L m mode) attrs (p, tag, keys)))) =
      labelsStripped p + of_nat (count_list (fst (traverse (judge L m) attrs q)) True)"
  using assms
proof (induction attrs arbitrary: p q tag keys)
  case Nil
  then show ?case by (simp add: flagged_keys_def)
next
  case (Cons kv attrs)
  obtain d p1 where j: "judge L m kv p = (d, p1)" by force
  obtain d' q1 where j': "judge L m kv q = (d', q1)" by force
  from core_judge [OF Cons.prems, of L m kv] j j'
  have d: "d' = d" and c: "core (note_verdict m mode (fst kv) d p1) = core q1" by simp_all
  have ls: "labelsStripped (note_verdict m mode (fst kv) d p1) = labelsStripped p + (if d then 1 else 0)"
    using judge_stripped [of L m kv p] j by simp
  show ?case
    using Cons.IH [OF c, of "tag \<or> (d \<and> mode = EnforcementTagOnly)"
        "keys @ (if d \<and> mode = EnforcementOverflowAttribute then [fst kv] else [])"] ls
    by (auto simp: attr_callback_judge j j' d Let_def split_beta flagged_keys_def)
qed

lemma length_verdicts [simp]: "length (verdicts L m attrs p) = length attrs"
  by (simp add: verdicts_def)

lemma handle_processor:
  "snd (handleAttributesWithMode L m mode attrs p) =
     fst (snd (traverse (attr_callback L m mode) attrs (p, False, [])))"
  by (simp add: handleAttributesWithMode_def split_beta Let_def)

lemma handle_core:
  "core (snd (handleAttributesWithMode L m mode attrs p)) =
     core (snd (traverse (judge L m) attrs p))"
  using callback_loop [OF refl, of L m mode attrs p False "[]"] by (simp add: handle_processor)

lemma handle_enforces:
  assumes laws: "pdata_laws L"
  shows "fst (handleAttributesWithMode L m mode attrs p) =
    enforce L mode (verdicts L m attrs p) attrs"
proof -
  let ?ds = "verdicts L m attrs p"
  let ?rm = "map (\<lambda>d. d \<and> mode = EnforcementStripAndReaggregate) ?ds"
  have loop: "fst (traverse (attr_callback L m mode) attrs (p, False, [])) = ?rm"
    "fst (snd (snd (traverse (attr_callback L m mode) attrs (p, False, [])))) =
       (mode = EnforcementTagOnly \<and> list_ex (\<lambda>d. d) ?ds)"
    "snd (snd (snd (traverse (attr_callback L m mode) attrs (p, False, [])))) =
       (if mode = EnforcementOverflowAttribute then flagged_keys ?ds attrs else [])"
    using callback_loop [OF refl, of L m mode attrs p False "[]"] by (simp_all add: verdicts_def)
  have "map_RemoveIf L ?rm attrs = remove_flagged ?rm attrs"
    using laws by (intro pdata_RemoveIf) simp_all
  moreover have "mode \<noteq> EnforcementStripAndReaggregate \<Longrightarrow> remove_flagged ?rm attrs = attrs"
    by (intro remove_flagged_none) (simp_all add: list_ex_iff)
  moreover have "mode = EnforcementStripAndReaggregate \<Longrightarrow> ?rm = ?ds"
    by (simp add: map_idI)
  moreover have "fst (handleAttributesWithMode L m mode attrs p) =
    fold (\<lambda>k m. PutStr L k overflowSentinel m)
      (if mode = EnforcementOverflowAttribute then flagged_keys ?ds attrs else [])
      (if mode = EnforcementTagOnly \<and> list_ex (\<lambda>d. d) ?ds
       then PutBool L overflowTag True (map_RemoveIf L ?rm attrs) else map_RemoveIf L ?rm attrs)"
    by (simp only: handleAttributesWithMode_def split_beta Let_def loop fst_conv)
  ultimately show ?thesis
    by (cases "mode = EnforcementStripAndReaggregate") (auto simp: enforce_def)
qed

section \<open>What each mode does to the attributes\<close>

lemma judge_protectedLabels: "protectedLabels (snd (judge L m kv p)) = protectedLabels p"
  using shouldDrop_same_settings [of p L m "fst kv" "AsString L (snd kv)"]
  by (simp add: judge_def same_settings_def)

interpretation judge_loop: loop_output "judge L m" "\<lambda>p. protectedLabels p = labels"
    "\<lambda>kv d. d \<longrightarrow> fst kv \<notin> labels"
  for L :: "('v, 'x, 'sk) lib" and m labels
proof unfold_locales
  fix q :: "'sk processor" and kv
  assume "protectedLabels q = labels"
  then show "protectedLabels (snd (judge L m kv q)) = labels"
    and "fst (judge L m kv q) \<longrightarrow> fst kv \<notin> labels"
    by (simp add: judge_protectedLabels, simp add: judge_def isProtected_def)
qed

lemma verdicts_protect:
  "list_all2 (\<lambda>kv d. d \<longrightarrow> \<not> isProtected p (fst kv)) attrs (verdicts L m attrs p)"
  using judge_loop.loop_P [of p "protectedLabels p" attrs L m]
  by (simp add: verdicts_def isProtected_def)

lemma flagged_keys_unprotected: "k \<in> set (flagged_keys (verdicts L m attrs p) attrs) \<Longrightarrow> \<not> isProtected p k"
  using verdicts_protect [of p attrs L m]
  by (auto simp: flagged_keys_def list_all2_iff)

lemma flagged_keys_subset: "set (flagged_keys ds attrs) \<subseteq> fst ` set attrs"
  by (auto simp: flagged_keys_def dest: set_zip_leftD intro: rev_image_eqI)

lemma filter_other_keys:
  assumes "\<And>k' v. P (k', v) \<Longrightarrow> k' \<noteq> k" and "other_entries k a = other_entries k b"
  shows "filter P a = filter P b"
  using other_entries_filter [of P k a] other_entries_filter [of P k b] assms by metis

lemma fold_PutStr_others:
  assumes "pdata_laws L" and "\<And>k v. k \<in> set ks \<Longrightarrow> \<not> P (k, v)"
  shows "filter P (fold (\<lambda>k m. PutStr L k s m) ks attrs) = filter P attrs"
  using assms(2)
proof (induction ks arbitrary: attrs)
  case Nil
  then show ?case by simp
next
  case (Cons k ks)
  have "filter P (PutStr L k s attrs) = filter P attrs"
    by (rule filter_other_keys [of P k]) (use Cons.prems pdata_PutStr(1) [OF assms(1)] in auto)
  with Cons show ?case by simp
qed

lemma fold_PutStr_keys:
  "pdata_laws L \<Longrightarrow> set ks \<subseteq> fst ` set attrs \<Longrightarrow>
   map fst (fold (\<lambda>k m. PutStr L k s m) ks attrs) = map fst attrs"
proof (induction ks arbitrary: attrs)
  case Nil
  then show ?case by simp
next
  case (Cons k ks)
  then have "map fst (PutStr L k s attrs) = map fst attrs"
    by (simp add: pdata_PutStr(3))
  moreover from this have "fst ` set (PutStr L k s attrs) = fst ` set attrs"
    by (metis list.set_map)
  ultimately show ?case using Cons by simp
qed

lemma fold_PutStr_get:
  assumes "pdata_laws L" and "k \<in> set ks"
  shows "map_option (AsString L) (map_of (fold (\<lambda>k m. PutStr L k s m) ks attrs) k) = Some s"
  using assms(2)
proof (induction ks arbitrary: attrs rule: rev_induct)
  case Nil
  then show ?case by simp
next
  case (snoc k' ks)
  show ?case
  proof (cases "k = k'")
    case True
    then show ?thesis by (simp add: pdata_PutStr(2) [OF assms(1)])
  next
    case False
    let ?m = "fold (\<lambda>k m. PutStr L k s m) ks attrs"
    have "map_of (PutStr L k' s ?m) k = map_of (other_entries k' (PutStr L k' s ?m)) k"
      by (simp add: map_of_other_entries [OF False])
    also have "\<dots> = map_of (other_entries k' ?m) k"
      by (simp only: pdata_PutStr(1) [OF assms(1)])
    also have "\<dots> = map_of ?m k" by (rule map_of_other_entries [OF False])
    finally show ?thesis using snoc False by simp
  qed
qed

lemma handle_protects:
  assumes laws: "pdata_laws L" and tag: "overflowTag \<notin> protectedLabels p"
  shows "filter (\<lambda>(k, v). isProtected p k) (fst (handleAttributesWithMode L m mode attrs p))
       = filter (\<lambda>(k, v). isProtected p k) attrs"
proof -
  let ?P = "\<lambda>(k, v). isProtected p k" and ?ds = "verdicts L m attrs p"
  have "filter ?P (PutBool L overflowTag True attrs) = filter ?P attrs"
    by (rule filter_other_keys [OF _ pdata_PutBool_others [OF laws]])
       (use tag in \<open>auto simp: isProtected_def\<close>)
  moreover have "filter ?P (fold (\<lambda>k m. PutStr L k overflowSentinel m) (flagged_keys ?ds attrs) attrs)
      = filter ?P attrs"
    by (rule fold_PutStr_others [OF laws]) (use flagged_keys_unprotected in fastforce)
  moreover have "filter ?P (remove_flagged ?ds attrs) = filter ?P attrs"
    using verdicts_protect [of p attrs L m]
    by (intro filter_remove_flagged) (auto simp: list_all2_iff split: prod.splits)
  ultimately show ?thesis
    by (simp only: handle_enforces [OF laws] enforce_def if_split) simp
qed

text \<open>
  Tag-only mode deletes nothing: every attribute other than the tag is kept, in order
  and with its value; the tag \<open>otel.metric.overflow\<close> reads \<open>true\<close> afterwards if some
  attribute was over its limit, and if none was the data point is unchanged.
\<close>

lemma tag_only_keeps_attributes:
  assumes laws: "pdata_laws L"
  shows "other_entries overflowTag (fst (handleAttributesWithMode L m EnforcementTagOnly attrs p))
      = other_entries overflowTag attrs \<and>
    (if list_ex (\<lambda>d. d) (verdicts L m attrs p)
     then map_option (AsString L)
            (map_of (fst (handleAttributesWithMode L m EnforcementTagOnly attrs p)) overflowTag)
          = Some ''true''
     else fst (handleAttributesWithMode L m EnforcementTagOnly attrs p) = attrs)"
  using pdata_PutBool_others [OF laws, of overflowTag True attrs]
    pdata_PutBool_get [OF laws, of overflowTag True attrs]
  by (simp add: handle_enforces [OF laws] enforce_def)

text \<open>
  C28. Overflow mode keeps the keys: the data point has the same keys in the same order,
  every attribute within its limit keeps its entry, and every key over its limit reads the
  sentinel \<open>otel.cardinality_overflow\<close>.
\<close>

theorem overflow_mode_replaces_values:
  assumes laws: "pdata_laws L"
    and out: "out = fst (handleAttributesWithMode L m EnforcementOverflowAttribute attrs p)"
    and over: "over = flagged_keys (verdicts L m attrs p) attrs"
  shows "map fst out = map fst attrs \<and>
    filter (\<lambda>(k, v). k \<notin> set over) out = filter (\<lambda>(k, v). k \<notin> set over) attrs \<and>
    list_all (\<lambda>k. map_option (AsString L) (map_of out k) = Some overflowSentinel) over"
  using fold_PutStr_keys [OF laws flagged_keys_subset]
    fold_PutStr_others [OF laws, of over "\<lambda>(k, v). k \<notin> set over"]
    fold_PutStr_get [OF laws, of _ over]
  by (auto simp: out over handle_enforces [OF laws] enforce_def list_all_iff)

text \<open>
  C27. Strip mode removes exactly the attributes that were judged over their limit, and
  nothing else of the data point changes.
\<close>

theorem strip_mode_removes_exactly_flagged:
  assumes laws: "pdata_laws L"
  shows "fst (handleAttributesWithMode L m EnforcementStripAndReaggregate attrs p)
     = map fst (filter (\<lambda>(kv, over). \<not> over) (zip attrs (verdicts L m attrs p)))"
  by (simp add: handle_enforces [OF laws] enforce_def remove_flagged_def)

text \<open>
  Detection does not depend on the mode: in any two modes the same trackers, tracker
  count and settings result from a data point, and the stripped-labels counter grows by
  the number of attributes over their limit (modulo \<open>2^64\<close>).
\<close>

lemma detection_independent_of_mode:
  "core (snd (handleAttributesWithMode L m mode attrs p))
     = core (snd (handleAttributesWithMode L m mode' attrs p)) \<and>
   labelsStripped (snd (handleAttributesWithMode L m mode attrs p))
     = labelsStripped p + of_nat (count_list (verdicts L m attrs p) True)"
  using callback_loop [OF refl, of L m mode attrs p False "[]"]
  by (simp add: handle_core verdicts_def) (simp add: handle_processor)

section \<open>Witnesses\<close>

text \<open>
  A data point whose label \<open>k\<close> shows its second value with a limit of one, and whose label
  \<open>region\<close> is protected.
\<close>

definition demo_attrs :: "string attrs" where
  "demo_attrs = [(''k'', ''b''), (''region'', ''eu'')]"

definition demo_second :: "u64 list processor" where
  "demo_second = snd (shouldDrop ref_lib ''m'' ''k'' ''a''
     (make_processor ref_lib (createDefaultConfig\<lparr>MaxCardinalityDeltaPerEpoch := 1\<rparr>) 7))"

lemma demo_verdicts: "verdicts ref_lib ''m'' demo_attrs demo_second = [True, False]"
  by code_simp

theorem overflow_mode_replaces_values_witness:
  "map fst (fst (handleAttributesWithMode ref_lib ''m'' EnforcementOverflowAttribute
      demo_attrs demo_second)) = [''k'', ''region''] \<and>
   map_of (fst (handleAttributesWithMode ref_lib ''m'' EnforcementOverflowAttribute
      demo_attrs demo_second)) ''k'' = Some overflowSentinel"
  using overflow_mode_replaces_values [OF ref_lib_pdata_laws refl refl, of "''m''" demo_attrs demo_second]
  by (simp add: demo_verdicts flagged_keys_def) (simp add: demo_attrs_def ref_lib_def)

theorem strip_mode_removes_exactly_flagged_witness:
  "fst (handleAttributesWithMode ref_lib ''m'' EnforcementStripAndReaggregate demo_attrs demo_second)
     = [(''region'', ''eu'')]"
  using strip_mode_removes_exactly_flagged [OF ref_lib_pdata_laws, of "''m''" demo_attrs demo_second]
  by (simp add: demo_verdicts) (simp add: demo_attrs_def)

end
