(* ===== verification/Reaggregation.thy ===== *)
theory Reaggregation
  imports Pdata
begin

text \<open>
  Inline spatial reaggregation (\<open>reaggregation.go\<close>): the identity hash of an attribute map,
  the merge of two points, and the three-phase in-place merge of a data point slice. The
  in-place loop over indices is shown to compute a plain specification (group by identity,
  fold each group into its first member), from which the properties follow.
\<close>

section \<open>The code\<close>

definition pair_string :: "string \<Rightarrow> string \<Rightarrow> string" where
  "pair_string k v = k @ [CHR 0x00] @ v"

definition hashAttributes :: "('v, 'x, 'sk) lib \<Rightarrow> 'v attrs \<Rightarrow> u64" where
  "hashAttributes L attrs =
     (if length attrs = 0 then 0
      else foldl (\<lambda>combined (k, v). combined XOR Sum64String L (pair_string k (AsString L v)))
             0 attrs)"

definition copyNumberValue ::
  "('v, 'x) number_dp \<Rightarrow> ('v, 'x) number_dp \<Rightarrow> ('v, 'x) number_dp" where
  "copyNumberValue src dst =
     (case dp_value src of
        NumberInt i \<Rightarrow> dst\<lparr>dp_value := NumberInt i\<rparr>
      | NumberDouble d \<Rightarrow> dst\<lparr>dp_value := NumberDouble d\<rparr>
      | NumberEmpty \<Rightarrow> dst)"

text \<open>The bits of the double \<open>+0\<close> are all zero.\<close>

definition numberDataPointToDouble :: "('v, 'x, 'sk) lib \<Rightarrow> ('v, 'x) number_dp \<Rightarrow> f64" where
  "numberDataPointToDouble L dp =
     (case dp_value dp of
        NumberInt i \<Rightarrow> f64_of_int64 L i
      | NumberDouble d \<Rightarrow> d
      | NumberEmpty \<Rightarrow> 0)"

definition addNumberValue ::
  "('v, 'x, 'sk) lib \<Rightarrow> ('v, 'x) number_dp \<Rightarrow> ('v, 'x) number_dp \<Rightarrow> ('v, 'x) number_dp" where
  "addNumberValue L src dst =
     (case (dp_value src, dp_value dst) of
        (NumberInt s, NumberInt d) \<Rightarrow> dst\<lparr>dp_value := NumberInt (d + s)\<rparr>
      | (NumberDouble s, NumberDouble d) \<Rightarrow> dst\<lparr>dp_value := NumberDouble (f64_add L d s)\<rparr>
      | _ \<Rightarrow>
          dst\<lparr>dp_value := NumberDouble (f64_add L (numberDataPointToDouble L dst)
                                            (numberDataPointToDouble L src))\<rparr>)"

text \<open>
  The body of the merge loop's \<open>switch\<close>: \<open>merge_points L ty d current leader\<close> returns both
  points afterwards (\<open>current\<close> loses its exemplars).
\<close>

definition merge_points ::
  "('v, 'x, 'sk) lib \<Rightarrow> metricType \<Rightarrow> bool \<Rightarrow>
   ('v, 'x) number_dp \<Rightarrow> ('v, 'x) number_dp \<Rightarrow> ('v, 'x) number_dp \<times> ('v, 'x) number_dp" where
  "merge_points L mtype isDelta cur leader =
     (if mtype = MetricTypeGauge then
        let l1 = (if dp_timestamp leader < dp_timestamp cur then
                    let a = copyNumberValue cur leader;
                        b = a\<lparr>dp_timestamp := dp_timestamp cur\<rparr>
                    in if 0 < dp_startTimestamp cur
                       then b\<lparr>dp_startTimestamp := dp_startTimestamp cur\<rparr> else b
                  else leader);
            (ce, le) = MoveAndAppendTo L (dp_exemplars cur) (dp_exemplars l1)
        in (cur\<lparr>dp_exemplars := ce\<rparr>, l1\<lparr>dp_exemplars := le\<rparr>)
      else if mtype = MetricTypeSum \<and> isDelta then
        let a = addNumberValue L cur leader;
            b = (if dp_timestamp a < dp_timestamp cur
                 then a\<lparr>dp_timestamp := dp_timestamp cur\<rparr> else a);
            c = (if dp_startTimestamp cur < dp_startTimestamp b
                 then b\<lparr>dp_startTimestamp := dp_startTimestamp cur\<rparr> else b);
            (ce, le) = MoveAndAppendTo L (dp_exemplars cur) (dp_exemplars c)
        in (cur\<lparr>dp_exemplars := ce\<rparr>, c\<lparr>dp_exemplars := le\<rparr>)
      else (cur, leader))"

text \<open>Phase 1: the hashes, and whether one of them repeats.\<close>

fun has_collisions :: "u64 list \<Rightarrow> (u64 \<rightharpoonup> nat) \<Rightarrow> nat \<Rightarrow> bool \<Rightarrow> bool" where
  "has_collisions [] seen i found = found"
| "has_collisions (h # hs) seen i found =
     (case seen h of
        Some j \<Rightarrow> has_collisions hs seen (Suc i) True
      | None \<Rightarrow> has_collisions hs (seen(h \<mapsto> i)) (Suc i) found)"

text \<open>Phase 2: one iteration, on the leaders seen, the slice and the removal marks.\<close>

type_synonym ('v, 'x) merge_state =
  "(u64 \<rightharpoonup> nat) \<times> ('v, 'x) number_dp list \<times> (nat \<Rightarrow> bool)"

definition merge_step ::
  "('v, 'x, 'sk) lib \<Rightarrow> metricType \<Rightarrow> bool \<Rightarrow> u64 list \<Rightarrow> nat \<Rightarrow>
   ('v, 'x) merge_state \<Rightarrow> ('v, 'x) merge_state" where
  "merge_step L mtype isDelta infos i st =
     (case st of (seen, dps, remove) \<Rightarrow>
        let h = infos ! i
        in case seen h of
             None \<Rightarrow> (seen(h \<mapsto> i), dps, remove)
           | Some leaderIdx \<Rightarrow>
               let (cur', leader') = merge_points L mtype isDelta (dps ! i) (dps ! leaderIdx)
               in (seen, dps[leaderIdx := leader', i := cur'], remove(i := True)))"

definition merge_loop ::
  "('v, 'x, 'sk) lib \<Rightarrow> metricType \<Rightarrow> bool \<Rightarrow> u64 list \<Rightarrow> nat \<Rightarrow>
   ('v, 'x) number_dp list \<Rightarrow> ('v, 'x) merge_state" where
  "merge_loop L mtype isDelta infos n dps =
     fold (merge_step L mtype isDelta infos) [0..<n] (Map.empty, dps, \<lambda>_. False)"

text \<open>Phase 3 answers \<open>RemoveIf\<close> with the mark of each index in turn.\<close>

definition reaggregateNumberDataPoints ::
  "('v, 'x, 'sk) lib \<Rightarrow> ('v, 'x) number_dp list \<Rightarrow> metricType \<Rightarrow> bool \<Rightarrow>
   ('v, 'x) number_dp list" where
  "reaggregateNumberDataPoints L dps mtype isDelta =
     (let n = length dps
      in if n \<le> 1 then dps
         else
           let infos = map (\<lambda>dp. hashAttributes L (dp_attributes dp)) dps
           in if \<not> has_collisions infos Map.empty 0 False then dps
              else
                let (seen, dps1, remove) = merge_loop L mtype isDelta infos n dps
                in slice_RemoveIf L (map remove [0..<n]) dps1)"

section \<open>The specification: group by identity, fold each group\<close>

definition identity :: "('v, 'x, 'sk) lib \<Rightarrow> ('v, 'x) number_dp \<Rightarrow> u64" where
  "identity L dp = hashAttributes L (dp_attributes dp)"

definition merge_into ::
  "('v, 'x, 'sk) lib \<Rightarrow> metricType \<Rightarrow> bool \<Rightarrow>
   ('v, 'x) number_dp \<Rightarrow> ('v, 'x) number_dp \<Rightarrow> ('v, 'x) number_dp" where
  "merge_into L mtype isDelta leader cur = snd (merge_points L mtype isDelta cur leader)"

function merge_groups ::
  "('v, 'x, 'sk) lib \<Rightarrow> metricType \<Rightarrow> bool \<Rightarrow> ('v, 'x) number_dp list \<Rightarrow>
   ('v, 'x) number_dp list" where
  "merge_groups L mtype isDelta [] = []"
| "merge_groups L mtype isDelta (dp # dps) =
     foldl (merge_into L mtype isDelta) dp (filter (\<lambda>q. identity L q = identity L dp) dps)
     # merge_groups L mtype isDelta (filter (\<lambda>q. identity L q \<noteq> identity L dp) dps)"
  by pat_completeness auto
termination
  by (relation "measure (\<lambda>(L, mtype, isDelta, dps). length dps)")
     (auto simp: le_imp_less_Suc)

section \<open>Lemmas on the merge\<close>

lemma attributes_merge_points [simp]:
  "dp_attributes (snd (merge_points L ty d cur leader)) = dp_attributes leader"
  "dp_attributes (fst (merge_points L ty d cur leader)) = dp_attributes cur"
  by (simp_all add: merge_points_def copyNumberValue_def addNumberValue_def Let_def split_beta
      split: number_value.split)

lemma identity_merge_points [simp]:
  "identity L (snd (merge_points L ty d cur leader)) = identity L leader"
  "identity L (fst (merge_points L ty d cur leader)) = identity L cur"
  by (simp_all add: identity_def)

lemma identity_merge_into [simp]: "identity L (merge_into L ty d leader cur) = identity L leader"
  by (simp add: merge_into_def)

lemma identity_foldl_merge [simp]: "identity L (foldl (merge_into L ty d) x ys) = identity L x"
  by (induction ys arbitrary: x) simp_all

lemma merge_groups_identities:
  "identity L ` set (merge_groups L ty d dps) = identity L ` set dps"
  by (induction L ty d dps rule: merge_groups.induct) auto

lemma merge_groups_distinct: "distinct (map (identity L) (merge_groups L ty d dps))"
  by (induction L ty d dps rule: merge_groups.induct) (auto simp: merge_groups_identities)

lemma merge_groups_id:
  "distinct (map (identity L) dps) \<Longrightarrow> merge_groups L ty d dps = dps"
proof (induction dps)
  case Nil
  then show ?case by simp
next
  case (Cons x dps)
  then have "identity L x \<notin> identity L ` set dps" by simp
  then have "\<forall>q \<in> set dps. identity L q \<noteq> identity L x" by (metis imageI)
  then have "filter (\<lambda>q. identity L q = identity L x) dps = []"
    "filter (\<lambda>q. identity L q \<noteq> identity L x) dps = dps"
    by (simp_all add: filter_empty_conv filter_id_conv)
  with Cons show ?case by simp
qed

text \<open>How the specification grows with one more point at the end of the slice.\<close>

lemma merge_groups_snoc:
  "merge_groups L ty d (dps @ [y]) =
     (if identity L y \<in> identity L ` set dps
      then map (\<lambda>l. if identity L l = identity L y then merge_into L ty d l y else l)
             (merge_groups L ty d dps)
      else merge_groups L ty d dps @ [y])"
proof (induction L ty d dps rule: merge_groups.induct)
  case (1 L ty d)
  then show ?case by simp
next
  case (2 L ty d x dps)
  let ?rest = "filter (\<lambda>q. identity L q \<noteq> identity L x) dps"
  show ?case
  proof (cases "identity L y = identity L x")
    case True
    have rest: "map (\<lambda>l. if identity L l = identity L y then merge_into L ty d l y else l)
        (merge_groups L ty d ?rest) = merge_groups L ty d ?rest"
    proof (rule map_idI)
      fix l
      assume "l \<in> set (merge_groups L ty d ?rest)"
      then have "identity L l \<in> identity L ` set ?rest"
        by (metis imageI merge_groups_identities)
      then have "identity L l \<noteq> identity L y" by (auto simp: True)
      then show "(if identity L l = identity L y then merge_into L ty d l y else l) = l"
        by (rule if_not_P)
    qed
    have "filter (\<lambda>q. identity L q = identity L x) (dps @ [y])
        = filter (\<lambda>q. identity L q = identity L x) dps @ [y]"
      "filter (\<lambda>q. identity L q \<noteq> identity L x) (dps @ [y]) = ?rest"
      using True by simp_all
    then have "merge_groups L ty d ((x # dps) @ [y]) =
        merge_into L ty d (foldl (merge_into L ty d) x (filter (\<lambda>q. identity L q = identity L x) dps)) y
        # merge_groups L ty d ?rest"
      by (simp only: append_Cons merge_groups.simps foldl_append foldl.simps)
    moreover have "identity L y \<in> identity L ` set (x # dps)"
      by (simp add: True)
    ultimately show ?thesis
      using rest by (simp only: if_True merge_groups.simps list.map identity_foldl_merge True refl)
  next
    case False
    let ?new = "\<lambda>l. if identity L l = identity L y then merge_into L ty d l y else l"
    let ?x = "foldl (merge_into L ty d) x (filter (\<lambda>q. identity L q = identity L x) dps)"
    from False have rest: "identity L y \<in> identity L ` set ?rest
        \<longleftrightarrow> identity L y \<in> identity L ` set (x # dps)"
      by (auto simp: image_iff)
    have "merge_groups L ty d ((x # dps) @ [y]) = ?x # merge_groups L ty d (?rest @ [y])"
      using False by simp
    also have "\<dots> = ?x # (if identity L y \<in> identity L ` set (x # dps)
        then map ?new (merge_groups L ty d ?rest) else merge_groups L ty d ?rest @ [y])"
      by (simp only: 2 rest)
    also have "\<dots> = (if identity L y \<in> identity L ` set (x # dps)
        then map ?new (?x # merge_groups L ty d ?rest) else (?x # merge_groups L ty d ?rest) @ [y])"
      using False by (simp del: image_eqI)
    finally show ?thesis by (simp only: merge_groups.simps)
  qed
qed

lemma has_collisions_iff:
  "has_collisions hs seen i found \<longleftrightarrow> found \<or> \<not> distinct hs \<or> set hs \<inter> dom seen \<noteq> {}"
proof (induction hs seen i found rule: has_collisions.induct)
  case (1 seen i found)
  then show ?case by simp
next
  case (2 h hs seen i found)
  show ?case
  proof (cases "seen h")
    case None
    with 2(1) [OF None] show ?thesis
      by (auto simp del: fun_upd_apply simp: dom_fun_upd)
  next
    case (Some j)
    with 2(2) [OF Some] show ?thesis by auto
  qed
qed

lemma remove_flagged_upt:
  "length ys = i \<Longrightarrow> remove_flagged (map f [0..<i]) ys = map ((!) ys) (filter (\<lambda>k. \<not> f k) [0..<i])"
proof (induction ys arbitrary: i rule: rev_induct)
  case Nil
  then show ?case by simp
next
  case (snoc y ys)
  let ?n = "length ys"
  have "map ((!) (ys @ [y])) (filter (\<lambda>k. \<not> f k) [0..<?n])
      = map ((!) ys) (filter (\<lambda>k. \<not> f k) [0..<?n])"
    by (intro map_cong) (auto simp: nth_append)
  with snoc show ?case by (auto simp: remove_flagged_def)
qed

section \<open>The in-place loop computes the specification\<close>

text \<open>
  After \<open>i\<close> iterations: \<open>seen\<close> maps a hash to the kept index that carries it, the slice
  beyond \<open>i\<close> is untouched, identities never change, and the kept points of the first \<open>i\<close>
  are the specification's result on the first \<open>i\<close> points.
\<close>

definition merge_inv ::
  "('v, 'x, 'sk) lib \<Rightarrow> metricType \<Rightarrow> bool \<Rightarrow> ('v, 'x) number_dp list \<Rightarrow> nat \<Rightarrow>
   ('v, 'x) merge_state \<Rightarrow> bool" where
  "merge_inv L ty d xs i st \<longleftrightarrow>
     (case st of (seen, dps, remove) \<Rightarrow>
        (\<forall>h j. seen h = Some j \<longleftrightarrow> j < i \<and> \<not> remove j \<and> identity L (dps ! j) = h) \<and>
        length dps = length xs \<and>
        (\<forall>k. i \<le> k \<and> k < length xs \<longrightarrow> dps ! k = xs ! k \<and> \<not> remove k) \<and>
        (\<forall>k < length xs. identity L (dps ! k) = identity L (xs ! k)) \<and>
        map ((!) dps) (filter (\<lambda>k. \<not> remove k) [0..<i]) = merge_groups L ty d (take i xs))"

lemma merge_inv_seen_None:
  assumes inv: "merge_inv L ty d xs i (seen, dps, remove)" and i: "i < length xs"
    and new: "seen h = None" and h: "h = identity L (xs ! i)"
  shows "identity L (xs ! i) \<notin> identity L ` set (take i xs)"
proof
  assume "identity L (xs ! i) \<in> identity L ` set (take i xs)"
  then have "h \<in> identity L ` set (merge_groups L ty d (take i xs))"
    by (simp add: merge_groups_identities h)
  then have "h \<in> set (map (identity L) (map ((!) dps) (filter (\<lambda>k. \<not> remove k) [0..<i])))"
    using inv by (simp add: merge_inv_def)
  then obtain k where "k < i" "\<not> remove k" "identity L (dps ! k) = h" by auto
  then have "seen h = Some k" using inv by (simp add: merge_inv_def)
  with new show False by simp
qed

lemma merge_step_inv_new:
  assumes inv: "merge_inv L ty d xs i (seen, dps, remove)" and i: "i < length xs"
    and new: "seen (identity L (xs ! i)) = None"
  shows "merge_inv L ty d xs (Suc i) (seen(identity L (xs ! i) \<mapsto> i), dps, remove)"
proof -
  let ?h = "identity L (xs ! i)"
  have fresh: "?h \<notin> identity L ` set (take i xs)"
    by (rule merge_inv_seen_None [OF inv i new refl])
  have at_i: "dps ! i = xs ! i" "\<not> remove i" using inv i by (auto simp: merge_inv_def)
  have "map ((!) dps) (filter (\<lambda>k. \<not> remove k) [0..<Suc i]) = merge_groups L ty d (take (Suc i) xs)"
    using inv i fresh at_i by (simp add: take_Suc_conv_app_nth merge_groups_snoc merge_inv_def)
  moreover have "(seen(?h \<mapsto> i)) h = Some j \<longleftrightarrow>
      j < Suc i \<and> \<not> remove j \<and> identity L (dps ! j) = h" for h j
  proof -
    have seen: "seen h' = Some j \<longleftrightarrow> j < i \<and> \<not> remove j \<and> identity L (dps ! j) = h'" for h'
      using inv by (simp add: merge_inv_def)
    with new have "\<not> (j < i \<and> \<not> remove j \<and> identity L (dps ! j) = ?h)"
      by (metis option.distinct(1))
    with seen [of h] at_i show ?thesis by (cases "h = ?h") (auto simp: less_Suc_eq)
  qed
  ultimately show ?thesis using inv i by (simp add: merge_inv_def)
qed

lemma merge_step_inv_merge:
  assumes inv: "merge_inv L ty d xs i (seen, dps, remove)" and i: "i < length xs"
    and old: "seen (identity L (xs ! i)) = Some j"
    and m: "merge_points L ty d (dps ! i) (dps ! j) = (cur', leader')"
  shows "merge_inv L ty d xs (Suc i) (seen, dps[j := leader', i := cur'], remove(i := True))"
proof -
  let ?h = "identity L (xs ! i)" and ?dps = "dps[j := leader', i := cur']"
  have j: "j < i" "\<not> remove j" "identity L (dps ! j) = ?h"
    using inv old by (auto simp: merge_inv_def)
  have len: "length dps = length xs" and at_i: "dps ! i = xs ! i"
    using inv i by (auto simp: merge_inv_def)
  have l': "leader' = merge_into L ty d (dps ! j) (xs ! i)"
    using m at_i by (simp add: merge_into_def)
  have ids: "identity L leader' = ?h" "identity L cur' = ?h"
    using m j(3) at_i identity_merge_points [of L ty d "dps ! i" "dps ! j"] by simp_all
  have same: "identity L (?dps ! k) = identity L (dps ! k)" if "k < length xs" for k
    using that ids j at_i len i by (cases "k = i"; cases "k = j") simp_all
  have only_j: "identity L (dps ! k) = ?h \<longleftrightarrow> k = j" if "k < i" "\<not> remove k" for k
  proof -
    have "seen ?h = Some k \<longleftrightarrow> k < i \<and> \<not> remove k \<and> identity L (dps ! k) = ?h"
      using inv by (simp add: merge_inv_def)
    with old that show ?thesis by auto
  qed
  have kept: "map ((!) ?dps) (filter (\<lambda>k. \<not> (remove(i := True)) k) [0..<Suc i])
      = map (\<lambda>l. if identity L l = ?h then merge_into L ty d l (xs ! i) else l)
          (map ((!) dps) (filter (\<lambda>k. \<not> remove k) [0..<i]))"
  proof -
    have "filter (\<lambda>k. \<not> (remove(i := True)) k) [0..<Suc i] = filter (\<lambda>k. \<not> remove k) [0..<i]"
      by (auto intro: filter_cong)
    then show ?thesis
      using len i j only_j by (auto simp: l' nth_list_update)
  qed
  have "?h \<in> identity L ` set (take i xs)"
  proof -
    have "identity L (xs ! j) = ?h" using inv i j by (simp add: merge_inv_def)
    moreover have "xs ! j \<in> set (take i xs)" using i j by (auto simp: in_set_conv_nth)
    ultimately show ?thesis by (metis imageI)
  qed
  then have "merge_groups L ty d (take (Suc i) xs)
      = map (\<lambda>l. if identity L l = ?h then merge_into L ty d l (xs ! i) else l)
          (merge_groups L ty d (take i xs))"
    using i by (simp add: take_Suc_conv_app_nth merge_groups_snoc)
  moreover have "map ((!) dps) (filter (\<lambda>k. \<not> remove k) [0..<i]) = merge_groups L ty d (take i xs)"
    using inv by (simp add: merge_inv_def)
  ultimately have "map ((!) ?dps) (filter (\<lambda>k. \<not> (remove(i := True)) k) [0..<Suc i])
      = merge_groups L ty d (take (Suc i) xs)"
    by (simp only: kept)
  moreover have "seen h = Some k \<longleftrightarrow>
      k < Suc i \<and> \<not> (remove(i := True)) k \<and> identity L (?dps ! k) = h" for h k
    using inv i same [of k] by (auto simp: merge_inv_def less_Suc_eq)
  moreover have "?dps ! k = xs ! k \<and> \<not> (remove(i := True)) k" if "Suc i \<le> k" "k < length xs" for k
    using inv that j by (simp add: merge_inv_def)
  moreover have "identity L (?dps ! k) = identity L (xs ! k)" if "k < length xs" for k
    using inv that same by (simp add: merge_inv_def)
  ultimately show ?thesis using len by (simp add: merge_inv_def)
qed

lemma merge_loop_inv:
  assumes "i \<le> length xs"
  shows "merge_inv L ty d xs i
     (fold (merge_step L ty d (map (identity L) xs)) [0..<i] (Map.empty, xs, \<lambda>_. False))"
  using assms
proof (induction i)
  case 0
  show ?case by (simp add: merge_inv_def)
next
  case (Suc i)
  then have i: "i < length xs" by simp
  obtain seen dps remove where st:
    "fold (merge_step L ty d (map (identity L) xs)) [0..<i] (Map.empty, xs, \<lambda>_. False)
      = (seen, dps, remove)" by (metis prod_cases3)
  with Suc have inv: "merge_inv L ty d xs i (seen, dps, remove)" by simp
  have step: "fold (merge_step L ty d (map (identity L) xs)) [0..<Suc i] (Map.empty, xs, \<lambda>_. False)
      = merge_step L ty d (map (identity L) xs) i (seen, dps, remove)"
    using st by simp
  have h: "map (identity L) xs ! i = identity L (xs ! i)" using i by simp
  show ?case
  proof (cases "seen (identity L (xs ! i))")
    case None
    then have "merge_step L ty d (map (identity L) xs) i (seen, dps, remove)
        = (seen(identity L (xs ! i) \<mapsto> i), dps, remove)"
      by (simp add: merge_step_def h)
    with merge_step_inv_new [OF inv i None] show ?thesis by (simp only: step)
  next
    case (Some j)
    obtain cur' leader' where m: "merge_points L ty d (dps ! i) (dps ! j) = (cur', leader')"
      by force
    from Some m have "merge_step L ty d (map (identity L) xs) i (seen, dps, remove)
        = (seen, dps[j := leader', i := cur'], remove(i := True))"
      by (simp add: merge_step_def h)
    with merge_step_inv_merge [OF inv i Some m] show ?thesis by (simp only: step)
  qed
qed

lemma reaggregate_eq_merge_groups:
  assumes laws: "pdata_laws L"
  shows "reaggregateNumberDataPoints L dps ty d = merge_groups L ty d dps"
proof -
  let ?infos = "map (\<lambda>dp. hashAttributes L (dp_attributes dp)) dps"
  have infos: "?infos = map (identity L) dps" by (simp add: identity_def)
  have plain: "merge_groups L ty d dps = dps"
    if "length dps \<le> 1 \<or> \<not> has_collisions ?infos Map.empty 0 False"
  proof -
    have "distinct (map (identity L) dps)" if "length dps \<le> 1"
      using that by (cases dps) auto
    moreover have "distinct (map (identity L) dps)" if "\<not> has_collisions ?infos Map.empty 0 False"
      using that unfolding infos has_collisions_iff by simp
    ultimately have "distinct (map (identity L) dps)" using that by blast
    then show ?thesis by (rule merge_groups_id)
  qed
  obtain seen dps1 remove where st:
    "merge_loop L ty d ?infos (length dps) dps = (seen, dps1, remove)" by (metis prod_cases3)
  have "merge_inv L ty d dps (length dps) (seen, dps1, remove)"
    using merge_loop_inv [of "length dps" dps L ty d] st by (simp add: merge_loop_def infos)
  then have len: "length dps1 = length dps" and
    kept: "map ((!) dps1) (filter (\<lambda>k. \<not> remove k) [0..<length dps]) = merge_groups L ty d dps"
    by (simp_all add: merge_inv_def)
  have "slice_RemoveIf L (map remove [0..<length dps]) dps1
      = remove_flagged (map remove [0..<length dps]) dps1"
    by (rule pdata_slice_RemoveIf [OF laws]) (simp add: len)
  also have "\<dots> = merge_groups L ty d dps"
    by (simp only: remove_flagged_upt [OF len] kept)
  finally show ?thesis
    using plain by (auto simp: reaggregateNumberDataPoints_def Let_def st)
qed

section \<open>What a group's result holds\<close>

text \<open>The members of the group of a point, in slice order.\<close>

definition group_of ::
  "('v, 'x, 'sk) lib \<Rightarrow> ('v, 'x) number_dp list \<Rightarrow> ('v, 'x) number_dp \<Rightarrow> ('v, 'x) number_dp list" where
  "group_of L dps r = filter (\<lambda>q. identity L q = identity L r) dps"

lemma merge_groups_mem:
  "r \<in> set (merge_groups L ty d dps) \<Longrightarrow>
   \<exists>x xs. group_of L dps r = x # xs \<and> r = foldl (merge_into L ty d) x xs"
proof (induction L ty d dps rule: merge_groups.induct)
  case (1 L ty d)
  then show ?case by simp
next
  case (2 L ty d x dps)
  let ?rest = "filter (\<lambda>q. identity L q \<noteq> identity L x) dps"
  consider "r = foldl (merge_into L ty d) x (filter (\<lambda>q. identity L q = identity L x) dps)"
    | "r \<in> set (merge_groups L ty d ?rest)" using 2(2) by auto
  then show ?case
  proof cases
    case 1
    then show ?thesis by (simp add: group_of_def)
  next
    case 2
    then have "identity L r \<in> identity L ` set ?rest"
      by (metis imageI merge_groups_identities)
    then have ne: "identity L r \<noteq> identity L x" by auto
    then have "group_of L (x # dps) r = group_of L ?rest r"
      by (auto simp: group_of_def intro!: filter_cong)
    with "2.IH" [OF 2] show ?thesis by simp
  qed
qed

text \<open>
  A quantity that a merge combines with some operation: over a group it is the fold of that
  operation. \<open>ok\<close> is what the points must satisfy and a merge keeps.
\<close>

locale merged_quantity =
  fixes mg :: "'p \<Rightarrow> 'p \<Rightarrow> 'p" and f :: "'p \<Rightarrow> 'a" and comb :: "'a \<Rightarrow> 'a \<Rightarrow> 'a"
    and ok :: "'p \<Rightarrow> bool"
  assumes f_mg: "ok l \<Longrightarrow> ok c \<Longrightarrow> f (mg l c) = comb (f l) (f c)"
    and ok_mg: "ok l \<Longrightarrow> ok c \<Longrightarrow> ok (mg l c)"
begin

lemma f_foldl: "ok x \<Longrightarrow> list_all ok xs \<Longrightarrow> f (foldl mg x xs) = foldl comb (f x) (map f xs)"
  by (induction xs arbitrary: x) (simp_all add: f_mg ok_mg)

lemma ok_foldl: "ok x \<Longrightarrow> list_all ok xs \<Longrightarrow> ok (foldl mg x xs)"
  by (induction xs arbitrary: x) (simp_all add: ok_mg)

end

lemma foldl_plus: "foldl (+) (a::'a::comm_monoid_add) xs = a + sum_list xs"
  by (induction xs arbitrary: a) (simp_all add: ac_simps)

lemma foldl_append_concat: "foldl (@) a xss = a @ concat xss"
  by (induction xss arbitrary: a) simp_all

lemma foldl_max: "foldl max (a::'a::linorder) xs = Max (insert a (set xs))"
proof (induction xs arbitrary: a)
  case (Cons x xs)
  have "Max (insert (max a x) (set xs)) = Max (insert a (insert x (set xs)))"
    by (cases "xs = []") (simp_all add: max.assoc)
  with Cons show ?case by simp
qed simp

lemma foldl_min: "foldl min (a::'a::linorder) xs = Min (insert a (set xs))"
proof (induction xs arbitrary: a)
  case (Cons x xs)
  have "Min (insert (min a x) (set xs)) = Min (insert a (insert x (set xs)))"
    by (cases "xs = []") (simp_all add: min.assoc)
  with Cons show ?case by simp
qed simp

definition is_int :: "('v, 'x) number_dp \<Rightarrow> bool" where
  "is_int dp \<longleftrightarrow> (case dp_value dp of NumberInt i \<Rightarrow> True | _ \<Rightarrow> False)"

definition int_of :: "('v, 'x) number_dp \<Rightarrow> i64" where
  "int_of dp = (case dp_value dp of NumberInt i \<Rightarrow> i | _ \<Rightarrow> 0)"

lemma addNumberValue_frame [simp, frame_simps]:
  "dp_timestamp (addNumberValue L c l) = dp_timestamp l"
  "dp_startTimestamp (addNumberValue L c l) = dp_startTimestamp l"
  "dp_exemplars (addNumberValue L c l) = dp_exemplars l"
  by (simp_all add: addNumberValue_def split: number_value.split)

lemma merge_sum_fields:
  assumes "pdata_laws L"
  shows "dp_timestamp (merge_into L MetricTypeSum True l c) = max (dp_timestamp l) (dp_timestamp c)"
    and "dp_startTimestamp (merge_into L MetricTypeSum True l c)
           = min (dp_startTimestamp l) (dp_startTimestamp c)"
    and "dp_exemplars (merge_into L MetricTypeSum True l c) = dp_exemplars l @ dp_exemplars c"
    and "dp_value (merge_into L MetricTypeSum True l c) = dp_value (addNumberValue L c l)"
  by (auto simp: merge_into_def merge_points_def pdata_Move [OF assms] Let_def max_def min_def)

interpretation sum_timestamp: merged_quantity "merge_into L MetricTypeSum True" dp_timestamp max
    "\<lambda>_. pdata_laws L"
  for L :: "('v, 'x, 'sk) lib"
  by unfold_locales (simp_all add: merge_sum_fields)

interpretation sum_start: merged_quantity "merge_into L MetricTypeSum True" dp_startTimestamp min
    "\<lambda>_. pdata_laws L"
  for L :: "('v, 'x, 'sk) lib"
  by unfold_locales (simp_all add: merge_sum_fields)

interpretation sum_exemplars: merged_quantity "merge_into L MetricTypeSum True" dp_exemplars "(@)"
    "\<lambda>_. pdata_laws L"
  for L :: "('v, 'x, 'sk) lib"
  by unfold_locales (simp_all add: merge_sum_fields)

interpretation sum_value: merged_quantity "merge_into L MetricTypeSum True" int_of "(+)"
    "\<lambda>dp. pdata_laws L \<and> is_int dp"
  for L :: "('v, 'x, 'sk) lib"
  by unfold_locales
     (auto simp: merge_sum_fields int_of_def is_int_def addNumberValue_def split: number_value.splits)

lemma copyNumberValue_frame [simp, frame_simps]:
  "dp_timestamp (copyNumberValue c l) = dp_timestamp l"
  "dp_startTimestamp (copyNumberValue c l) = dp_startTimestamp l"
  "dp_exemplars (copyNumberValue c l) = dp_exemplars l"
  "dp_value (copyNumberValue c l) = (if dp_value c = NumberEmpty then dp_value l else dp_value c)"
  by (simp_all add: copyNumberValue_def split: number_value.split)

lemma merge_gauge_fields:
  assumes "pdata_laws L"
  shows "dp_timestamp (merge_into L MetricTypeGauge d l c) = max (dp_timestamp l) (dp_timestamp c)"
    and "dp_exemplars (merge_into L MetricTypeGauge d l c) = dp_exemplars l @ dp_exemplars c"
    and "dp_value (merge_into L MetricTypeGauge d l c) =
           (if dp_timestamp l < dp_timestamp c \<and> dp_value c \<noteq> NumberEmpty
            then dp_value c else dp_value l)"
  by (auto simp: merge_into_def merge_points_def pdata_Move [OF assms] Let_def max_def)

interpretation gauge_timestamp: merged_quantity "merge_into L MetricTypeGauge d" dp_timestamp max
    "\<lambda>_. pdata_laws L"
  for L :: "('v, 'x, 'sk) lib" and d
  by unfold_locales (simp_all add: merge_gauge_fields)

interpretation gauge_exemplars: merged_quantity "merge_into L MetricTypeGauge d" dp_exemplars "(@)"
    "\<lambda>_. pdata_laws L"
  for L :: "('v, 'x, 'sk) lib" and d
  by unfold_locales (simp_all add: merge_gauge_fields)

text \<open>The pair (timestamp, value) of a gauge: the later one, the earlier on a tie.\<close>

definition later :: "u64 \<times> number_value \<Rightarrow> u64 \<times> number_value \<Rightarrow> u64 \<times> number_value" where
  "later a b = (if fst a < fst b then b else a)"

interpretation gauge_reading: merged_quantity "merge_into L MetricTypeGauge d"
    "\<lambda>dp. (dp_timestamp dp, dp_value dp)" later
    "\<lambda>dp. pdata_laws L \<and> dp_value dp \<noteq> NumberEmpty"
  for L :: "('v, 'x, 'sk) lib" and d
  by unfold_locales (auto simp: merge_gauge_fields later_def max_def)

lemma foldl_later_mem: "foldl later a xs \<in> insert a (set xs)"
proof (induction xs arbitrary: a)
  case Nil
  show ?case by simp
next
  case (Cons x xs)
  from Cons.IH [of "later a x"] show ?case by (auto simp: later_def split: if_splits)
qed

lemma list_all_laws: "pdata_laws L \<Longrightarrow> list_all (\<lambda>_. pdata_laws L) xs"
  by (simp add: list_all_iff)

text \<open>Totals over the whole slice.\<close>

lemma sum_list_filter_split:
  "sum_list (map f (filter P xs)) + sum_list (map f (filter (\<lambda>x. \<not> P x) xs))
     = sum_list (map (f :: 'p \<Rightarrow> 'a::comm_monoid_add) xs)"
  by (induction xs) (simp_all add: ac_simps)

lemma mset_concat_filter_split:
  "mset (concat (map f (filter P xs))) + mset (concat (map f (filter (\<lambda>x. \<not> P x) xs)))
     = mset (concat (map f xs))"
  by (induction xs) (simp_all add: ac_simps)

lemma merge_groups_total:
  assumes "pdata_laws L"
  shows "list_all is_int dps \<Longrightarrow>
    sum_list (map int_of (merge_groups L MetricTypeSum True dps)) = sum_list (map int_of dps)"
proof (induction "length dps" arbitrary: dps rule: less_induct)
  case less
  show ?case
  proof (cases dps)
    case (Cons x xs)
    let ?same = "filter (\<lambda>q. identity L q = identity L x) xs"
    let ?rest = "filter (\<lambda>q. identity L q \<noteq> identity L x) xs"
    from less.prems Cons assms have ok: "pdata_laws L \<and> is_int x"
      "list_all (\<lambda>dp. pdata_laws L \<and> is_int dp) ?same" "list_all is_int ?rest"
      by (auto simp: list_all_iff)
    have "length ?rest < length dps" by (simp add: Cons le_imp_less_Suc)
    from less.hyps [OF this ok(3)] sum_value.f_foldl [OF ok(1,2)]
      sum_list_filter_split [of int_of "\<lambda>q. identity L q = identity L x" xs]
    show ?thesis by (simp add: Cons foldl_plus add.assoc)
  qed simp
qed

lemma merge_groups_exemplars:
  assumes laws: "pdata_laws L"
  shows "mset (concat (map dp_exemplars (merge_groups L MetricTypeSum True dps)))
    = mset (concat (map dp_exemplars dps))"
proof (induction "length dps" arbitrary: dps rule: less_induct)
  case less
  show ?case
  proof (cases dps)
    case (Cons x xs)
    let ?rest = "filter (\<lambda>q. identity L q \<noteq> identity L x) xs"
    have "length ?rest < length dps" by (simp add: Cons le_imp_less_Suc)
    from less.hyps [OF this] sum_exemplars.f_foldl [OF laws list_all_laws [OF laws]]
      mset_concat_filter_split [of dp_exemplars "\<lambda>q. identity L q = identity L x" xs]
    show ?thesis by (simp add: Cons foldl_append_concat add.assoc del: mset_concat)
  qed simp
qed

lemma merge_groups_length: "length (merge_groups L ty d dps) \<le> length dps"
proof (induction L ty d dps rule: merge_groups.induct)
  case (2 L ty d x dps)
  from le_trans [OF 2 length_filter_le] show ?case by simp
qed simp

lemma attributes_foldl_merge: "dp_attributes (foldl (merge_into L ty d) x ys) = dp_attributes x"
  by (induction ys arbitrary: x) (simp_all add: merge_into_def)

lemma merge_groups_attributes:
  "dp_attributes ` set (merge_groups L ty d dps) \<subseteq> dp_attributes ` set dps"
  by (induction L ty d dps rule: merge_groups.induct) (auto simp: attributes_foldl_merge)

section \<open>Properties\<close>

text \<open>
  C6. Reaggregation refines grouping: the in-place loop with its hash table of leaders, its
  removal marks and its compaction returns exactly the groups of equal identity, in order
  of first occurrence, each folded into its first member; the early returns agree.
\<close>

theorem reaggregation_refines_grouping:
  assumes "pdata_laws L"
  shows "reaggregateNumberDataPoints L dps mtype isDelta = merge_groups L mtype isDelta dps"
  using assms by (rule reaggregate_eq_merge_groups)

text \<open>
  Single writer: afterwards no two points of the slice share an identity hash, every
  identity that was present still is, and running it again changes nothing.
\<close>

lemma reaggregation_restores_single_writer:
  assumes "pdata_laws L"
  shows "distinct (map (identity L) (reaggregateNumberDataPoints L dps ty d)) \<and>
    identity L ` set (reaggregateNumberDataPoints L dps ty d) = identity L ` set dps \<and>
    reaggregateNumberDataPoints L (reaggregateNumberDataPoints L dps ty d) ty d
      = reaggregateNumberDataPoints L dps ty d"
  by (simp add: reaggregate_eq_merge_groups [OF assms] merge_groups_distinct
      merge_groups_identities merge_groups_id)

text \<open>
  C24. A delta sum is conserved: for integer points, each point of the result carries the sum
  of the values of its group (\<open>int64\<close> addition, wrapping as in Go), the latest timestamp
  and the earliest start of the group, and all the group's exemplars in order.
\<close>

theorem delta_sum_conserves_groups:
  assumes laws: "pdata_laws L" and ints: "list_all is_int dps"
    and r: "r \<in> set (reaggregateNumberDataPoints L dps MetricTypeSum True)"
  shows "int_of r = sum_list (map int_of (group_of L dps r)) \<and> is_int r \<and>
    dp_timestamp r = Max (dp_timestamp ` set (group_of L dps r)) \<and>
    dp_startTimestamp r = Min (dp_startTimestamp ` set (group_of L dps r)) \<and>
    dp_exemplars r = concat (map dp_exemplars (group_of L dps r))"
proof -
  obtain x xs where g: "group_of L dps r = x # xs"
    and fold: "r = foldl (merge_into L MetricTypeSum True) x xs"
    using merge_groups_mem r reaggregate_eq_merge_groups [OF laws] by metis
  have "set (x # xs) \<subseteq> set dps" by (auto simp: group_of_def simp flip: g)
  with ints have ok: "pdata_laws L \<and> is_int x" "list_all (\<lambda>dp. pdata_laws L \<and> is_int dp) xs"
    using laws by (auto simp: list_all_iff)
  show ?thesis
    using sum_value.f_foldl [OF ok] sum_value.ok_foldl [OF ok]
      sum_timestamp.f_foldl [OF laws list_all_laws [OF laws], of x xs]
      sum_start.f_foldl [OF laws list_all_laws [OF laws], of x xs]
      sum_exemplars.f_foldl [OF laws list_all_laws [OF laws], of x xs]
    by (simp add: g flip: fold) (simp add: foldl_plus foldl_max foldl_min foldl_append_concat)
qed

text \<open>
  C25. A gauge keeps the last reading: each point of the result has the latest timestamp of
  its group and all the group's exemplars in order, and if no point of the group has an
  empty value, it has the value of a member with that timestamp. (A later point without a
  value moves the timestamp and leaves the older value under it.)
\<close>

theorem gauge_keeps_latest_reading:
  assumes laws: "pdata_laws L"
    and r: "r \<in> set (reaggregateNumberDataPoints L dps MetricTypeGauge False)"
  shows "dp_timestamp r = Max (dp_timestamp ` set (group_of L dps r)) \<and>
    dp_exemplars r = concat (map dp_exemplars (group_of L dps r)) \<and>
    (list_all (\<lambda>dp. dp_value dp \<noteq> NumberEmpty) (group_of L dps r) \<longrightarrow>
     (dp_timestamp r, dp_value r)
       \<in> (\<lambda>dp. (dp_timestamp dp, dp_value dp)) ` set (group_of L dps r))"
proof -
  obtain x xs where g: "group_of L dps r = x # xs"
    and fold: "r = foldl (merge_into L MetricTypeGauge False) x xs"
    using merge_groups_mem r reaggregate_eq_merge_groups [OF laws] by metis
  have "(dp_timestamp r, dp_value r) \<in> (\<lambda>dp. (dp_timestamp dp, dp_value dp)) ` set (group_of L dps r)"
    if "list_all (\<lambda>dp. dp_value dp \<noteq> NumberEmpty) (group_of L dps r)"
  proof -
    from that have ok: "pdata_laws L \<and> dp_value x \<noteq> NumberEmpty"
      "list_all (\<lambda>dp. pdata_laws L \<and> dp_value dp \<noteq> NumberEmpty) xs"
      using laws by (auto simp: list_all_iff g)
    have "(dp_timestamp r, dp_value r)
        = foldl later (dp_timestamp x, dp_value x) (map (\<lambda>dp. (dp_timestamp dp, dp_value dp)) xs)"
      using gauge_reading.f_foldl [OF ok] by (simp add: fold)
    then show ?thesis
      using foldl_later_mem [of "(dp_timestamp x, dp_value x)"
          "map (\<lambda>dp. (dp_timestamp dp, dp_value dp)) xs"] by (simp add: g)
  qed
  then show ?thesis
    using gauge_timestamp.f_foldl [OF laws list_all_laws [OF laws], of False x xs]
      gauge_exemplars.f_foldl [OF laws list_all_laws [OF laws], of False x xs]
    by (simp add: g flip: fold) (simp add: foldl_max foldl_append_concat)
qed

subsection \<open>The identity hash\<close>

lemma hash_as_fold:
  "hashAttributes L attrs =
     fold (\<lambda>kv c. c XOR Sum64String L (pair_string (fst kv) (AsString L (snd kv)))) attrs 0"
  by (simp add: hashAttributes_def foldl_conv_fold case_prod_beta')

lemma fold_xor_perm:
  assumes "mset a = mset b"
  shows "fold (\<lambda>kv c. c XOR (g kv :: u64)) a = fold (\<lambda>kv c. c XOR g kv) b"
  by (rule fold_multiset_equiv [OF _ assms]) (simp add: fun_eq_iff xor.assoc xor.commute xor.left_commute)

text \<open>
  The identity does not depend on the order of the attributes: two maps with the same
  entries have the same identity hash.
\<close>

lemma hash_order_independent:
  assumes "mset a = mset b"
  shows "hashAttributes L a = hashAttributes L b"
  by (simp only: hash_as_fold fold_xor_perm [OF assms])

text \<open>
  A repeated entry cancels, whatever the string hash is: an attribute list that carries
  the same entry twice has the identity of the list without it, so their points are merged.
\<close>

lemma duplicate_entry_cancels:
  "hashAttributes L ((k, v) # (k, v) # m) = hashAttributes L m"
  by (simp add: hash_as_fold xor.assoc)

text \<open>
  The null byte does not separate key from value when one of them contains it: the key
  \<open>k NUL a\<close> with value \<open>b\<close> has the identity of the key \<open>k\<close> with value \<open>a NUL b\<close>, whatever
  the string hash is.
\<close>

lemma null_separator_ambiguous:
  assumes "AsString L v = b" and "AsString L w = a @ [CHR 0x00] @ b"
  shows "hashAttributes L [(k @ [CHR 0x00] @ a, v)] = hashAttributes L [(k, w)]"
  using assms by (simp add: hash_as_fold pair_string_def)

section \<open>Witnesses\<close>

definition demo_point :: "string \<Rightarrow> u64 \<Rightarrow> i64 \<Rightarrow> nat list \<Rightarrow> (string, nat) number_dp" where
  "demo_point region ts n ex = \<lparr> dp_attributes = [(''region'', region)], dp_startTimestamp = ts - 1,
     dp_timestamp = ts, dp_value = NumberInt n, dp_exemplars = ex, dp_flags = 0 \<rparr>"

definition demo_slice :: "(string, nat) number_dp list" where
  "demo_slice = [demo_point ''eu'' 10 5 [1], demo_point ''us'' 11 7 [2], demo_point ''eu'' 12 6 [3]]"

lemma demo_slice_sum:
  "reaggregateNumberDataPoints ref_lib demo_slice MetricTypeSum True =
     [(demo_point ''eu'' 12 11 [1, 3])\<lparr>dp_startTimestamp := 9\<rparr>, demo_point ''us'' 11 7 [2]]"
  by code_simp

lemma demo_slice_gauge:
  "reaggregateNumberDataPoints ref_lib demo_slice MetricTypeGauge False =
     [demo_point ''eu'' 12 6 [1, 3], demo_point ''us'' 11 7 [2]]"
  by code_simp

theorem reaggregation_refines_grouping_witness:
  "merge_groups ref_lib MetricTypeSum True demo_slice =
     [(demo_point ''eu'' 12 11 [1, 3])\<lparr>dp_startTimestamp := 9\<rparr>, demo_point ''us'' 11 7 [2]]"
  using reaggregation_refines_grouping [OF ref_lib_pdata_laws, of demo_slice MetricTypeSum True]
  by (simp add: demo_slice_sum)

theorem delta_sum_conserves_groups_witness:
  "int_of (demo_point ''eu'' 12 11 [1, 3]\<lparr>dp_startTimestamp := 9\<rparr>) =
     sum_list (map int_of (group_of ref_lib demo_slice
       (demo_point ''eu'' 12 11 [1, 3]\<lparr>dp_startTimestamp := 9\<rparr>)))"
proof -
  have ints: "list_all is_int demo_slice" by code_simp
  have "demo_point ''eu'' 12 11 [1, 3]\<lparr>dp_startTimestamp := 9\<rparr>
      \<in> set (reaggregateNumberDataPoints ref_lib demo_slice MetricTypeSum True)"
    by (simp add: demo_slice_sum)
  then show ?thesis
    using delta_sum_conserves_groups [OF ref_lib_pdata_laws ints] by blast
qed

theorem gauge_keeps_latest_reading_witness:
  "dp_timestamp (demo_point ''eu'' 12 6 [1, 3]) =
     Max (dp_timestamp ` set (group_of ref_lib demo_slice (demo_point ''eu'' 12 6 [1, 3]))) \<and>
   (12, dp_value (demo_point ''eu'' 12 6 [1, 3])) \<in> (\<lambda>dp. (dp_timestamp dp, dp_value dp)) `
     set (group_of ref_lib demo_slice (demo_point ''eu'' 12 6 [1, 3]))"
proof -
  have vals: "list_all (\<lambda>dp. dp_value dp \<noteq> NumberEmpty)
      (group_of ref_lib demo_slice (demo_point ''eu'' 12 6 [1, 3]))" by code_simp
  have "demo_point ''eu'' 12 6 [1, 3]
      \<in> set (reaggregateNumberDataPoints ref_lib demo_slice MetricTypeGauge False)"
    by (simp add: demo_slice_gauge)
  from gauge_keeps_latest_reading [OF ref_lib_pdata_laws this] vals show ?thesis
    by (simp add: demo_point_def)
qed

end
