(* ===== verification/Pipeline.thy ===== *)
theory Pipeline
  imports Attributes Reaggregation
begin

text \<open>
  From the batch to the data point (\<open>processor.go\<close>): \<open>ConsumeMetrics\<close> walks resources, scopes
  and metrics, \<open>processMetric\<close> dispatches on the metric's type and on the mode, and the
  \<open>process...DataPoints\<close> loops call \<open>handleAttributes\<close>. What a metric's points become is
  returned; the processor is threaded through. The downstream consumer is a parameter.
\<close>

section \<open>The loops over data points\<close>

definition processNumberDataPoints ::
  "('v, 'x, 'sk) lib \<Rightarrow> string \<Rightarrow> ('v, 'x) number_dp list \<Rightarrow> 'sk processor \<Rightarrow>
   ('v, 'x) number_dp list \<times> 'sk processor" where
  "processNumberDataPoints L metricName =
     traverse (\<lambda>dp p. let (a, p1) = handleAttributes L metricName (dp_attributes dp) p
                      in (dp\<lparr>dp_attributes := a\<rparr>, p1))"

definition processHistogramDataPoints ::
  "('v, 'x, 'sk) lib \<Rightarrow> string \<Rightarrow> ('v, 'x) other_dp list \<Rightarrow> 'sk processor \<Rightarrow>
   ('v, 'x) other_dp list \<times> 'sk processor" where
  "processHistogramDataPoints L metricName =
     traverse (\<lambda>dp p. let (a, p1) = handleAttributes L metricName (od_attributes dp) p
                      in (dp\<lparr>od_attributes := a\<rparr>, p1))"

definition processExponentialHistogramDataPoints ::
  "('v, 'x, 'sk) lib \<Rightarrow> string \<Rightarrow> ('v, 'x) other_dp list \<Rightarrow> 'sk processor \<Rightarrow>
   ('v, 'x) other_dp list \<times> 'sk processor" where
  "processExponentialHistogramDataPoints L metricName =
     traverse (\<lambda>dp p. let (a, p1) = handleAttributes L metricName (od_attributes dp) p
                      in (dp\<lparr>od_attributes := a\<rparr>, p1))"

definition processSummaryDataPoints ::
  "('v, 'x, 'sk) lib \<Rightarrow> string \<Rightarrow> ('v, 'x) other_dp list \<Rightarrow> 'sk processor \<Rightarrow>
   ('v, 'x) other_dp list \<times> 'sk processor" where
  "processSummaryDataPoints L metricName =
     traverse (\<lambda>dp p. let (a, p1) = handleAttributes L metricName (od_attributes dp) p
                      in (dp\<lparr>od_attributes := a\<rparr>, p1))"

definition processNumberDataPointsWithMode ::
  "('v, 'x, 'sk) lib \<Rightarrow> string \<Rightarrow> enforcement_mode \<Rightarrow> ('v, 'x) number_dp list \<Rightarrow> 'sk processor \<Rightarrow>
   ('v, 'x) number_dp list \<times> 'sk processor" where
  "processNumberDataPointsWithMode L metricName mode =
     traverse (\<lambda>dp p. let (a, p1) = handleAttributesWithMode L metricName mode (dp_attributes dp) p
                      in (dp\<lparr>dp_attributes := a\<rparr>, p1))"

definition processHistogramDataPointsWithMode ::
  "('v, 'x, 'sk) lib \<Rightarrow> string \<Rightarrow> enforcement_mode \<Rightarrow> ('v, 'x) other_dp list \<Rightarrow> 'sk processor \<Rightarrow>
   ('v, 'x) other_dp list \<times> 'sk processor" where
  "processHistogramDataPointsWithMode L metricName mode =
     traverse (\<lambda>dp p. let (a, p1) = handleAttributesWithMode L metricName mode (od_attributes dp) p
                      in (dp\<lparr>od_attributes := a\<rparr>, p1))"

definition processExponentialHistogramDataPointsWithMode ::
  "('v, 'x, 'sk) lib \<Rightarrow> string \<Rightarrow> enforcement_mode \<Rightarrow> ('v, 'x) other_dp list \<Rightarrow> 'sk processor \<Rightarrow>
   ('v, 'x) other_dp list \<times> 'sk processor" where
  "processExponentialHistogramDataPointsWithMode L metricName mode =
     traverse (\<lambda>dp p. let (a, p1) = handleAttributesWithMode L metricName mode (od_attributes dp) p
                      in (dp\<lparr>od_attributes := a\<rparr>, p1))"

definition processSummaryDataPointsWithMode ::
  "('v, 'x, 'sk) lib \<Rightarrow> string \<Rightarrow> enforcement_mode \<Rightarrow> ('v, 'x) other_dp list \<Rightarrow> 'sk processor \<Rightarrow>
   ('v, 'x) other_dp list \<times> 'sk processor" where
  "processSummaryDataPointsWithMode L metricName mode =
     traverse (\<lambda>dp p. let (a, p1) = handleAttributesWithMode L metricName mode (od_attributes dp) p
                      in (dp\<lparr>od_attributes := a\<rparr>, p1))"

section \<open>Dispatch on the metric\<close>

definition process_data ::
  "('v, 'x, 'sk) lib \<Rightarrow> string \<Rightarrow> ('v, 'x) metric_data \<Rightarrow> 'sk processor \<Rightarrow>
   ('v, 'x) metric_data \<times> 'sk processor" where
  "process_data L name data p =
     (let strip = (enforcementMode p = EnforcementStripAndReaggregate)
      in case data of
           Gauge dps \<Rightarrow>
             let (dps1, p1) = processNumberDataPoints L name dps p;
                 dps2 = (if strip then reaggregateNumberDataPoints L dps1 MetricTypeGauge False
                         else dps1)
             in (Gauge dps2, p1)
         | SumMetric temp monotonic dps \<Rightarrow>
             let isDelta = (temp = TemporalityDelta)
             in if strip \<and> \<not> isDelta then
                  let (dps1, p1) = processNumberDataPointsWithMode L name EnforcementTagOnly dps p
                  in (SumMetric temp monotonic dps1, p1)
                else
                  let (dps1, p1) = processNumberDataPoints L name dps p;
                      dps2 = (if strip \<and> isDelta
                              then reaggregateNumberDataPoints L dps1 MetricTypeSum True else dps1)
                  in (SumMetric temp monotonic dps2, p1)
         | Histogram temp dps \<Rightarrow>
             let (dps1, p1) =
                   (if strip then processHistogramDataPointsWithMode L name EnforcementTagOnly dps p
                    else processHistogramDataPoints L name dps p)
             in (Histogram temp dps1, p1)
         | ExponentialHistogram temp dps \<Rightarrow>
             let (dps1, p1) =
                   (if strip
                    then processExponentialHistogramDataPointsWithMode L name EnforcementTagOnly dps p
                    else processExponentialHistogramDataPoints L name dps p)
             in (ExponentialHistogram temp dps1, p1)
         | Summary dps \<Rightarrow>
             let (dps1, p1) =
                   (if strip then processSummaryDataPointsWithMode L name EnforcementTagOnly dps p
                    else processSummaryDataPoints L name dps p)
             in (Summary dps1, p1)
         | EmptyMetric \<Rightarrow> (EmptyMetric, p))"

definition processMetric ::
  "('v, 'x, 'sk) lib \<Rightarrow> ('v, 'x) metric \<Rightarrow> 'sk processor \<Rightarrow> ('v, 'x) metric \<times> 'sk processor" where
  "processMetric L m p =
     (let (d, p1) = process_data L (m_name m) (m_data m) p in (m\<lparr>m_data := d\<rparr>, p1))"

definition process_scope ::
  "('v, 'x, 'sk) lib \<Rightarrow> ('v, 'x) scope_metrics \<Rightarrow> 'sk processor \<Rightarrow>
   ('v, 'x) scope_metrics \<times> 'sk processor" where
  "process_scope L s p =
     (let (ms, p1) = traverse (processMetric L) (sm_metrics s) p in (s\<lparr>sm_metrics := ms\<rparr>, p1))"

definition process_resource ::
  "('v, 'x, 'sk) lib \<Rightarrow> ('v, 'x) resource_metrics \<Rightarrow> 'sk processor \<Rightarrow>
   ('v, 'x) resource_metrics \<times> 'sk processor" where
  "process_resource L r p =
     (let (ss, p1) = traverse (process_scope L) (rm_scopes r) p in (r\<lparr>rm_scopes := ss\<rparr>, p1))"

text \<open>
  The next consumer takes the batch, may change its own state and returns an error or
  none (\<open>nil\<close>).
\<close>

type_synonym ('v, 'x) batch = "('v, 'x) resource_metrics list"
type_synonym ('v, 'x, 'n) consumer = "('v, 'x) batch \<Rightarrow> 'n \<Rightarrow> string option \<times> 'n"

definition ConsumeMetrics ::
  "('v, 'x, 'sk) lib \<Rightarrow> ('v, 'x, 'n) consumer \<Rightarrow> ('v, 'x) batch \<Rightarrow> 'sk processor \<times> 'n \<Rightarrow>
   string option \<times> 'sk processor \<times> 'n" where
  "ConsumeMetrics L nextConsumer md st =
     (case st of (p, n) \<Rightarrow>
        let (md1, p1) = traverse (process_resource L) md p;
            (err, n1) = nextConsumer md1 n
        in (err, p1, n1))"

definition MutatesData :: bool where
  "MutatesData = True"

section \<open>What the whole pipeline inherits from the attribute callback\<close>

text \<open>
  A reflexive and transitive relation between processor states that the callback of
  \<open>RemoveIf\<close> keeps is kept by every loop above it, up to a whole batch.
\<close>

locale processor_contract =
  fixes L :: "('v, 'x, 'sk) lib" and R :: "'sk processor \<Rightarrow> 'sk processor \<Rightarrow> bool"
  assumes refl_R: "R p p"
    and trans_R: "R p q \<Longrightarrow> R q r \<Longrightarrow> R p r"
    and callback_R: "R p (fst (snd (attr_callback L m mode kv (p, tag, ks))))"

sublocale processor_contract \<subseteq>
  callbacks: loop_contract "attr_callback L m mode" "\<lambda>s t. R (fst s) (fst t)" for m mode
proof unfold_locales
  fix s :: "'sk attr_state" and kv :: "string \<times> 'v"
  show "R (fst s) (fst (snd (attr_callback L m mode kv s)))"
    using callback_R by (cases s) auto
qed (auto intro: refl_R trans_R)

context processor_contract begin

lemma attributes_with_mode_R: "R p (snd (handleAttributesWithMode L m mode attrs p))"
  using callbacks.loop_R [of "(p, False, [])" m mode attrs] by (simp add: handle_processor)

lemma attributes_R: "R p (snd (handleAttributes L m attrs p))"
  by (simp add: handleAttributes_def attributes_with_mode_R)

lemma points_R:
  assumes "\<And>dp q. R q (snd (body dp q))"
  shows "R p (snd (traverse body dps p))"
proof (rule loop_contract.loop_R [where R = R], unfold_locales)
  show "R q q" for q by (rule refl_R)
  show "R q u" if "R q t" "R t u" for q t u using that by (rule trans_R)
  show "R q (snd (body dp q))" for q dp by (rule assms)
qed

lemma number_points_R:
  "R p (snd (processNumberDataPoints L m dps p))"
  "R p (snd (processNumberDataPointsWithMode L m mode dps p))"
  unfolding processNumberDataPoints_def processNumberDataPointsWithMode_def
  by (rule points_R, simp add: split_beta Let_def attributes_R attributes_with_mode_R)+

lemma other_points_R:
  "R p (snd (processHistogramDataPoints L m ods p))"
  "R p (snd (processHistogramDataPointsWithMode L m mode ods p))"
  "R p (snd (processExponentialHistogramDataPoints L m ods p))"
  "R p (snd (processExponentialHistogramDataPointsWithMode L m mode ods p))"
  "R p (snd (processSummaryDataPoints L m ods p))"
  "R p (snd (processSummaryDataPointsWithMode L m mode ods p))"
  unfolding processHistogramDataPoints_def processHistogramDataPointsWithMode_def
    processExponentialHistogramDataPoints_def processExponentialHistogramDataPointsWithMode_def
    processSummaryDataPoints_def processSummaryDataPointsWithMode_def
  by (rule points_R, simp add: split_beta Let_def attributes_R attributes_with_mode_R)+

lemma data_R: "R p (snd (process_data L name d p))"
  by (cases d) (simp_all add: process_data_def Let_def split_beta refl_R number_points_R other_points_R)

lemma metric_R: "R p (snd (processMetric L m p))"
  by (simp add: processMetric_def split_beta Let_def data_R)

lemma scope_R: "R p (snd (process_scope L s p))"
  using points_R [where body = "processMetric L"] metric_R
  by (simp add: process_scope_def split_beta Let_def)

lemma resource_R: "R p (snd (process_resource L r p))"
  using points_R [where body = "process_scope L"] scope_R
  by (simp add: process_resource_def split_beta Let_def)

lemma batch_R: "R p (snd (traverse (process_resource L) md p))"
  using points_R [where body = "process_resource L"] resource_R by blast

lemma consume_R: "R p (fst (snd (ConsumeMetrics L nxt md (p, n))))"
  using batch_R by (simp add: ConsumeMetrics_def split_beta Let_def)

end

section \<open>The contracts the callback provides\<close>

lemma callback_processor:
  "fst (snd (attr_callback L m mode kv (p, tag, ks)))
     = note_verdict m mode (fst kv) (fst (judge L m kv p)) (snd (judge L m kv p))"
  by (simp add: attr_callback_judge split_beta Let_def)

lemma log_drop_same_settings [simp]: "same_settings p (log_drop m k p)"
  by (simp add: log_drop_def same_settings_def emit_def Let_def)

lemma note_verdict_same_settings [simp]: "same_settings p (note_verdict m mode k d p)"
  by (simp add: note_verdict_def Let_def log_drop_def same_settings_def emit_def)

lemma judge_same_settings [simp]: "same_settings p (snd (judge L m kv p))"
  by (simp add: judge_def)

interpretation settings_contract: processor_contract L same_settings for L :: "('v, 'x, 'sk) lib"
proof unfold_locales
  fix p :: "'sk processor" and m mode and kv :: "string \<times> 'v" and tag ks
  show "same_settings p (fst (snd (attr_callback L m mode kv (p, tag, ks))))"
    unfolding callback_processor
    by (rule same_settings_trans [OF judge_same_settings note_verdict_same_settings])
qed (auto intro: same_settings_trans)

lemma tracker_inv_core: "core p = core q \<Longrightarrow> tracker_inv p = tracker_inv q"
  by (simp add: tracker_inv_def core_def shards_ok_def total_trackers_def)

lemma judge_keeps_inv: "tracker_inv p \<Longrightarrow> tracker_inv (snd (judge L m kv p))"
  by (simp add: judge_def shouldDrop_keeps_inv)

interpretation tracker_contract: processor_contract L "\<lambda>p q. tracker_inv p \<longrightarrow> tracker_inv q"
  for L :: "('v, 'x, 'sk) lib"
proof unfold_locales
  fix p :: "'sk processor" and m mode and kv :: "string \<times> 'v" and tag ks
  show "tracker_inv p \<longrightarrow> tracker_inv (fst (snd (attr_callback L m mode kv (p, tag, ks))))"
    unfolding callback_processor
    by (simp add: judge_keeps_inv tracker_inv_core [OF note_verdict_core])
qed auto

section \<open>What the batch keeps\<close>

text \<open>Everything but the data points.\<close>

datatype metric_kind = KEmpty | KGauge | KSum temporality bool | KHistogram temporality
  | KExponentialHistogram temporality | KSummary

fun kind_of :: "('v, 'x) metric_data \<Rightarrow> metric_kind" where
  "kind_of EmptyMetric = KEmpty"
| "kind_of (Gauge dps) = KGauge"
| "kind_of (SumMetric temp monotonic dps) = KSum temp monotonic"
| "kind_of (Histogram temp ods) = KHistogram temp"
| "kind_of (ExponentialHistogram temp ods) = KExponentialHistogram temp"
| "kind_of (Summary ods) = KSummary"

definition metric_envelope :: "('v, 'x) metric \<Rightarrow> string \<times> string \<times> string \<times> metric_kind" where
  "metric_envelope m = (m_name m, m_description m, m_unit m, kind_of (m_data m))"

definition envelope ::
  "('v, 'x) batch \<Rightarrow> ('v attrs \<times> ('v attrs \<times> (string \<times> string \<times> string \<times> metric_kind) list) list) list" where
  "envelope md =
     map (\<lambda>r. (rm_resource r,
       map (\<lambda>s. (sm_scope s, map metric_envelope (sm_metrics s))) (rm_scopes r))) md"

lemma kind_process_data [simp]: "kind_of (fst (process_data L name d p)) = kind_of d"
  by (cases d) (simp_all add: process_data_def Let_def split_beta)

lemma envelope_metric [simp]: "metric_envelope (fst (processMetric L m p)) = metric_envelope m"
  by (simp add: metric_envelope_def processMetric_def split_beta Let_def)

lemma envelope_scope:
  "sm_scope (fst (process_scope L s p)) = sm_scope s"
  "map metric_envelope (sm_metrics (fst (process_scope L s p))) = map metric_envelope (sm_metrics s)"
  by (simp_all add: process_scope_def split_beta Let_def traverse_map [where I = "\<lambda>_. True"])

lemma envelope_resource:
  "rm_resource (fst (process_resource L r p)) = rm_resource r"
  "map (\<lambda>s. (sm_scope s, map metric_envelope (sm_metrics s))) (rm_scopes (fst (process_resource L r p)))
     = map (\<lambda>s. (sm_scope s, map metric_envelope (sm_metrics s))) (rm_scopes r)"
proof -
  have "map (\<lambda>s. (sm_scope s, map metric_envelope (sm_metrics s)))
      (fst (traverse (process_scope L) (rm_scopes r) p))
    = map (\<lambda>s. (sm_scope s, map metric_envelope (sm_metrics s))) (rm_scopes r)"
    by (rule traverse_map [where I = "\<lambda>_. True"]) (simp_all only: envelope_scope)
  then show "map (\<lambda>s. (sm_scope s, map metric_envelope (sm_metrics s)))
      (rm_scopes (fst (process_resource L r p)))
    = map (\<lambda>s. (sm_scope s, map metric_envelope (sm_metrics s))) (rm_scopes r)"
    by (simp add: process_resource_def split_beta Let_def)
qed (simp add: process_resource_def split_beta Let_def)

text \<open>The attribute lists of a metric's data points, in order.\<close>

fun point_attributes :: "('v, 'x) metric_data \<Rightarrow> 'v attrs list" where
  "point_attributes EmptyMetric = []"
| "point_attributes (Gauge dps) = map dp_attributes dps"
| "point_attributes (SumMetric temp monotonic dps) = map dp_attributes dps"
| "point_attributes (Histogram temp ods) = map od_attributes ods"
| "point_attributes (ExponentialHistogram temp ods) = map od_attributes ods"
| "point_attributes (Summary ods) = map od_attributes ods"

fun number_points :: "('v, 'x) metric_data \<Rightarrow> ('v, 'x) number_dp list" where
  "number_points (Gauge dps) = dps"
| "number_points (SumMetric temp monotonic dps) = dps"
| "number_points _ = []"

fun reaggregatable :: "('v, 'x) metric_data \<Rightarrow> bool" where
  "reaggregatable (Gauge dps) = True"
| "reaggregatable (SumMetric temp monotonic dps) = (temp = TemporalityDelta)"
| "reaggregatable _ = False"

text \<open>The metric with its points' attributes rewritten.\<close>

fun map_attributes :: "('v attrs \<Rightarrow> 'v attrs) \<Rightarrow> ('v, 'x) metric_data \<Rightarrow> ('v, 'x) metric_data" where
  "map_attributes f EmptyMetric = EmptyMetric"
| "map_attributes f (Gauge dps) = Gauge (map (\<lambda>dp. dp\<lparr>dp_attributes := f (dp_attributes dp)\<rparr>) dps)"
| "map_attributes f (SumMetric temp monotonic dps) =
     SumMetric temp monotonic (map (\<lambda>dp. dp\<lparr>dp_attributes := f (dp_attributes dp)\<rparr>) dps)"
| "map_attributes f (Histogram temp ods) =
     Histogram temp (map (\<lambda>dp. dp\<lparr>od_attributes := f (od_attributes dp)\<rparr>) ods)"
| "map_attributes f (ExponentialHistogram temp ods) =
     ExponentialHistogram temp (map (\<lambda>dp. dp\<lparr>od_attributes := f (od_attributes dp)\<rparr>) ods)"
| "map_attributes f (Summary ods) =
     Summary (map (\<lambda>dp. dp\<lparr>od_attributes := f (od_attributes dp)\<rparr>) ods)"

text \<open>
  A function of the attributes that enforcement in one mode does not change, on every
  processor with the same settings, is not changed by the loop over the points.
\<close>

definition kept_by :: "('v, 'x, 'sk) lib \<Rightarrow> 'sk processor \<Rightarrow> enforcement_mode \<Rightarrow> ('v attrs \<Rightarrow> 'a) \<Rightarrow> bool" where
  "kept_by L p mode f \<longleftrightarrow> (\<forall>m attrs q. same_settings p q \<longrightarrow>
     f (fst (handleAttributesWithMode L m mode attrs q)) = f attrs)"

lemma same_settings_handle:
  "same_settings p q \<Longrightarrow> same_settings p (snd (handleAttributesWithMode L m mode attrs q))"
  by (rule same_settings_trans [OF _ settings_contract.attributes_with_mode_R])

lemma same_settings_mode: "same_settings p q \<Longrightarrow> enforcementMode q = enforcementMode p"
  by (simp add: same_settings_def)

lemma kept_byD:
  "kept_by L p mode f \<Longrightarrow> same_settings p q \<Longrightarrow>
   f (fst (handleAttributesWithMode L m mode attrs q)) = f attrs"
  by (simp add: kept_by_def)

lemma number_points_kept_with_mode:
  assumes f: "kept_by L p mode f"
    and g: "\<And>dp a. f a = f (dp_attributes dp) \<Longrightarrow> g (dp\<lparr>dp_attributes := a\<rparr>) = g dp"
  shows "map g (fst (processNumberDataPointsWithMode L m mode dps p)) = map g dps"
  unfolding processNumberDataPointsWithMode_def
  by (rule traverse_map [where I = "same_settings p"])
     (simp_all add: split_beta Let_def g kept_byD [OF f] same_settings_handle)

lemma number_points_kept:
  assumes f: "kept_by L p (enforcementMode p) f"
    and g: "\<And>dp a. f a = f (dp_attributes dp) \<Longrightarrow> g (dp\<lparr>dp_attributes := a\<rparr>) = g dp"
  shows "map g (fst (processNumberDataPoints L m dps p)) = map g dps"
  unfolding processNumberDataPoints_def handleAttributes_def
  by (rule traverse_map [where I = "same_settings p"])
     (simp_all add: split_beta Let_def g kept_byD [OF f] same_settings_handle same_settings_mode)

lemma other_points_kept_with_mode:
  assumes f: "kept_by L p mode f"
    and g: "\<And>dp a. f a = f (od_attributes dp) \<Longrightarrow> g (dp\<lparr>od_attributes := a\<rparr>) = g dp"
  shows "map g (fst (processHistogramDataPointsWithMode L m mode ods p)) = map g ods"
    and "map g (fst (processExponentialHistogramDataPointsWithMode L m mode ods p)) = map g ods"
    and "map g (fst (processSummaryDataPointsWithMode L m mode ods p)) = map g ods"
  unfolding processHistogramDataPointsWithMode_def processSummaryDataPointsWithMode_def
    processExponentialHistogramDataPointsWithMode_def
  by (rule traverse_map [where I = "same_settings p"];
      simp add: split_beta Let_def g kept_byD [OF f] same_settings_handle)+

lemma other_points_kept:
  assumes f: "kept_by L p (enforcementMode p) f"
    and g: "\<And>dp a. f a = f (od_attributes dp) \<Longrightarrow> g (dp\<lparr>od_attributes := a\<rparr>) = g dp"
  shows "map g (fst (processHistogramDataPoints L m ods p)) = map g ods"
    and "map g (fst (processExponentialHistogramDataPoints L m ods p)) = map g ods"
    and "map g (fst (processSummaryDataPoints L m ods p)) = map g ods"
  unfolding processHistogramDataPoints_def processExponentialHistogramDataPoints_def
    processSummaryDataPoints_def handleAttributes_def
  by (rule traverse_map [where I = "same_settings p"];
      simp add: split_beta Let_def g kept_byD [OF f] same_settings_handle same_settings_mode)+

text \<open>The mode that a metric's points are really enforced in.\<close>

definition effective_mode :: "'sk processor \<Rightarrow> ('v, 'x) metric_data \<Rightarrow> enforcement_mode" where
  "effective_mode p d =
     (if enforcementMode p = EnforcementStripAndReaggregate \<and> \<not> reaggregatable d
      then EnforcementTagOnly else enforcementMode p)"

lemma process_data_kept:
  assumes f: "kept_by L p (effective_mode p d) f"
    and no: "\<not> (enforcementMode p = EnforcementStripAndReaggregate \<and> reaggregatable d)"
  shows "map_attributes f (fst (process_data L name d p)) = map_attributes f d"
proof -
  show ?thesis
  proof (cases "enforcementMode p = EnforcementStripAndReaggregate")
    case True
    with no f have f': "kept_by L p EnforcementTagOnly f" by (simp add: effective_mode_def)
    from True no show ?thesis
      by (cases d) (simp_all add: process_data_def Let_def split_beta number_points_kept_with_mode [OF f']
          other_points_kept_with_mode [OF f'])
  next
    case False
    with f have f': "kept_by L p (enforcementMode p) f" by (simp add: effective_mode_def)
    from False show ?thesis
      by (cases d) (simp_all add: process_data_def Let_def split_beta number_points_kept [OF f']
          other_points_kept [OF f'])
  qed
qed

text \<open>What the modes keep of the attributes.\<close>

lemma kept_anything: "kept_by L p mode (\<lambda>_. ())"
  by (simp add: kept_by_def)

lemma kept_by_tagging: "pdata_laws L \<Longrightarrow> kept_by L p EnforcementTagOnly (other_entries overflowTag)"
  by (simp add: kept_by_def handle_enforces enforce_def pdata_PutBool_others)

lemma kept_protected:
  assumes "pdata_laws L" and "overflowTag \<notin> protectedLabels p"
  shows "kept_by L p mode (filter (\<lambda>(k, v). k \<in> protectedLabels p))"
proof -
  have "filter (\<lambda>(k, v). k \<in> protectedLabels p) (fst (handleAttributesWithMode L m mode attrs q))
      = filter (\<lambda>(k, v). k \<in> protectedLabels p) attrs" if "same_settings p q" for m attrs q
    using handle_protects [OF assms(1), of q m mode attrs] that assms(2)
    by (simp add: same_settings_def isProtected_def)
  then show ?thesis by (simp add: kept_by_def)
qed

lemma number_points_values:
  "map int_of (fst (processNumberDataPoints L m dps p)) = map int_of dps"
  "map is_int (fst (processNumberDataPoints L m dps p)) = map is_int dps"
  "map dp_exemplars (fst (processNumberDataPoints L m dps p)) = map dp_exemplars dps"
  "map int_of (fst (processNumberDataPointsWithMode L m mode dps p)) = map int_of dps"
  "map dp_exemplars (fst (processNumberDataPointsWithMode L m mode dps p)) = map dp_exemplars dps"
  by (rule number_points_kept [OF kept_anything] number_points_kept_with_mode [OF kept_anything],
      simp add: int_of_def is_int_def)+

lemma number_points_length:
  "length (fst (processNumberDataPoints L m dps p)) = length dps"
  "length (fst (processNumberDataPointsWithMode L m mode dps p)) = length dps"
  by (simp_all add: processNumberDataPoints_def processNumberDataPointsWithMode_def)

lemma point_attributes_map:
  "map f (point_attributes d) = point_attributes (map_attributes f d)"
  by (cases d) (simp_all add: comp_def)

section \<open>Properties\<close>

text \<open>
  A batch reaches the next consumer exactly once, after all enforcement, and its error
  is returned as it is; resources, scopes, metric names, descriptions, units, types and
  temporalities and their order are those of the incoming batch.
\<close>

lemma consume_forwards_the_batch:
  "\<exists>md1. envelope md1 = envelope md \<and>
     fst (ConsumeMetrics L nextConsumer md (p, n)) = fst (nextConsumer md1 n) \<and>
     snd (snd (ConsumeMetrics L nextConsumer md (p, n))) = snd (nextConsumer md1 n)"
proof (intro exI conjI)
  show "envelope (fst (traverse (process_resource L) md p)) = envelope md"
    unfolding envelope_def
    by (rule traverse_map [where I = "\<lambda>_. True"]) (simp_all only: envelope_resource)
qed (simp_all add: ConsumeMetrics_def split_beta Let_def)

text \<open>
  C10. Where reaggregation is not supported nothing is lost: in tag-only mode for every
  metric, and in strip mode for cumulative sums, histograms, exponential histograms and
  summaries, each data point is still there, in order, with all its attributes, values and
  exemplars; at most the overflow tag is added or overwritten.
\<close>

theorem tagging_never_loses_data:
  assumes laws: "pdata_laws L"
    and mode: "enforcementMode p = EnforcementTagOnly \<or>
      enforcementMode p = EnforcementStripAndReaggregate \<and> \<not> reaggregatable (m_data m)"
  shows "map_attributes (other_entries overflowTag) (m_data (fst (processMetric L m p)))
       = map_attributes (other_entries overflowTag) (m_data m)"
proof -
  have ne: "EnforcementTagOnly \<noteq> EnforcementStripAndReaggregate"
    by (simp add: EnforcementTagOnly_def EnforcementStripAndReaggregate_def)
  with mode have eff: "effective_mode p (m_data m) = EnforcementTagOnly"
    by (auto simp: effective_mode_def)
  show ?thesis
    using process_data_kept [of L p "m_data m" "other_entries overflowTag"] kept_by_tagging [OF laws]
      mode ne by (auto simp: processMetric_def split_beta Let_def eff)
qed

text \<open>
  C26. Strip mode leaves no duplicate series: after a gauge or a delta sum has been processed,
  whichever attributes were stripped, no two of its points share an identity.
\<close>

theorem strip_mode_restores_single_writer:
  assumes laws: "pdata_laws L" and mode: "enforcementMode p = EnforcementStripAndReaggregate"
    and data: "reaggregatable (m_data m)"
  shows "distinct (map (identity L) (number_points (m_data (fst (processMetric L m p))))) \<and>
    length (number_points (m_data (fst (processMetric L m p)))) \<le> length (number_points (m_data m))"
proof (cases "m_data m")
  case (Gauge dps)
  with mode show ?thesis
    using le_trans [OF merge_groups_length number_points_length(1) [THEN eq_imp_le]]
    by (simp add: processMetric_def process_data_def Let_def split_beta merge_groups_distinct
        reaggregate_eq_merge_groups [OF laws])
next
  case (SumMetric temp monotonic dps)
  with mode data show ?thesis
    using le_trans [OF merge_groups_length number_points_length(1) [THEN eq_imp_le]]
    by (simp add: processMetric_def process_data_def Let_def split_beta merge_groups_distinct
        reaggregate_eq_merge_groups [OF laws])
qed (use data in simp_all)

text \<open>
  C9. Enforcement never changes the total of a sum: in every mode, for integer points, the
  values of the points that leave the processor add up (in \<open>int64\<close>) to those that entered,
  and the exemplars are the same multiset.
\<close>

theorem sum_totals_are_conserved:
  assumes laws: "pdata_laws L" and data: "m_data m = SumMetric temp monotonic dps"
    and ints: "list_all is_int dps"
  shows "\<exists>out. m_data (fst (processMetric L m p)) = SumMetric temp monotonic out \<and>
    sum_list (map int_of out) = sum_list (map int_of dps) \<and>
    mset (concat (map dp_exemplars out)) = mset (concat (map dp_exemplars dps))"
proof -
  let ?out = "fst (processNumberDataPoints L (m_name m) dps p)"
  have "list_all is_int ?out"
    using ints number_points_values(2) [of L "m_name m" dps p]
    by (metis list.pred_map list_all_iff o_def id_apply list.pred_cong)
  from merge_groups_total [OF laws this] merge_groups_exemplars [OF laws, of ?out]
  show ?thesis
    by (auto simp: processMetric_def process_data_def data Let_def split_beta
        number_points_values reaggregate_eq_merge_groups [OF laws])
qed

lemma effective_mode_other:
  fixes f :: "'v attrs \<Rightarrow> 'v attrs"
  shows "\<not> (enforcementMode p = EnforcementStripAndReaggregate \<and> reaggregatable d) \<Longrightarrow>
   kept_by L p (effective_mode p d) f \<Longrightarrow>
   map f (point_attributes (fst (process_data L name d p))) = map f (point_attributes d)"
  by (simp add: point_attributes_map process_data_kept)

text \<open>
  What merging needs of the identity hash: attribute lists with the same hash have the same
  entries.
\<close>

definition hash_separates :: "('v, 'x, 'sk) lib \<Rightarrow> 'v attrs set \<Rightarrow> bool" where
  "hash_separates L E \<longleftrightarrow>
     (\<forall>a \<in> E. \<forall>b \<in> E. hashAttributes L a = hashAttributes L b \<longrightarrow> set a = set b)"

text \<open>Merging then loses no set of entries, whichever entries one looks at.\<close>

lemma merged_entries:
  assumes sep: "hash_separates L (dp_attributes ` set dps)"
  shows "(\<lambda>a. set (filter P a)) ` dp_attributes ` set (merge_groups L ty d dps)
    = (\<lambda>a. set (filter P a)) ` dp_attributes ` set dps"
proof
  let ?f = "\<lambda>a. set (filter P a)"
  show "?f ` dp_attributes ` set (merge_groups L ty d dps) \<subseteq> ?f ` dp_attributes ` set dps"
    by (rule image_mono [OF merge_groups_attributes])
  show "?f ` dp_attributes ` set dps \<subseteq> ?f ` dp_attributes ` set (merge_groups L ty d dps)"
  proof
    fix e
    assume "e \<in> ?f ` dp_attributes ` set dps"
    then obtain dp where dp: "dp \<in> set dps" "e = ?f (dp_attributes dp)" by blast
    then have "identity L dp \<in> identity L ` set (merge_groups L ty d dps)"
      by (simp add: merge_groups_identities)
    then obtain l where l: "l \<in> set (merge_groups L ty d dps)" "identity L l = identity L dp" by fastforce
    from l(1) have "dp_attributes l \<in> dp_attributes ` set dps"
      using merge_groups_attributes [of L ty d dps] by blast
    with sep dp(1) l(2) have "set (dp_attributes l) = set (dp_attributes dp)"
      unfolding hash_separates_def identity_def by blast
    then have "e = ?f (dp_attributes l)" by (simp add: dp(2))
    with l(1) show "e \<in> ?f ` dp_attributes ` set (merge_groups L ty d dps)" by blast
  qed
qed

lemma merged_attributes:
  assumes laws: "pdata_laws L"
    and strip: "enforcementMode p = EnforcementStripAndReaggregate \<and> reaggregatable (m_data m)"
  obtains ty d where
    "set (point_attributes (m_data (fst (processMetric L m p)))) = dp_attributes ` set (merge_groups L ty d
       (fst (processNumberDataPoints L (m_name m) (number_points (m_data m)) p)))"
    "set (point_attributes (m_data m)) = dp_attributes ` set (number_points (m_data m))"
proof -
  note run = processMetric_def process_data_def split_beta Let_def reaggregate_eq_merge_groups [OF laws]
  show thesis
  proof (cases "m_data m")
    case (Gauge dps)
    show thesis
      by (rule that [of MetricTypeGauge False]) (use strip in \<open>simp_all add: Gauge run\<close>)
  next
    case (SumMetric temp monotonic dps)
    then have delta: "temp = TemporalityDelta" using strip by simp
    show thesis
      by (rule that [of MetricTypeSum True]) (use strip in \<open>simp_all add: SumMetric delta run\<close>)
  qed (use strip in simp_all)
qed

text \<open>
  C11. No protected attribute is altered, lost or invented on the way through, if the overflow
  tag is not itself protected: every point that leaves has the protected entries of a point
  that entered; unless points are merged (gauges and delta sums in strip mode) the protected
  entries of all points are the same, in order; and also when they are merged, every protected
  entry set that came in goes out, as long as the identity hash separates the attribute
  lists that enforcement leaves.
\<close>

theorem protected_labels_survive_the_pipeline:
  fixes L :: "('v, 'x, 'sk) lib" and prot :: "'v attrs \<Rightarrow> 'v attrs"
  assumes laws: "pdata_laws L" and tag: "overflowTag \<notin> protectedLabels p"
    and prot: "prot = filter (\<lambda>(k, v). isProtected p k)"
  shows "prot ` set (point_attributes (m_data (fst (processMetric L m p))))
       \<subseteq> prot ` set (point_attributes (m_data m)) \<and>
    (enforcementMode p = EnforcementStripAndReaggregate \<and> reaggregatable (m_data m) \<or>
     map prot (point_attributes (m_data (fst (processMetric L m p))))
       = map prot (point_attributes (m_data m))) \<and>
    (hash_separates L
       (dp_attributes ` set (fst (processNumberDataPoints L (m_name m) (number_points (m_data m)) p))) \<longrightarrow>
     (\<lambda>a. set (prot a)) ` set (point_attributes (m_data (fst (processMetric L m p))))
       = (\<lambda>a. set (prot a)) ` set (point_attributes (m_data m)))"
proof -
  have kept: "kept_by L p mode prot" for mode
    using kept_protected [OF laws tag] by (simp add: prot isProtected_def)
  let ?in = "set (point_attributes (m_data m))" and ?out = "set (point_attributes (m_data (fst (processMetric L m p))))"
  show ?thesis
  proof (cases "enforcementMode p = EnforcementStripAndReaggregate \<and> reaggregatable (m_data m)")
    case False
    from effective_mode_other [OF this kept]
    have same: "map prot (point_attributes (m_data (fst (processMetric L m p)))) = map prot (point_attributes (m_data m))"
      by (simp add: processMetric_def split_beta Let_def)
    from arg_cong [OF this, of set] have image: "prot ` ?out = prot ` ?in" by simp
    from arg_cong [OF this, of "image set"] have "(\<lambda>a. set (prot a)) ` ?out = (\<lambda>a. set (prot a)) ` ?in"
      by (simp add: image_image)
    with same image show ?thesis by simp
  next
    case True
    let ?mid = "fst (processNumberDataPoints L (m_name m) (number_points (m_data m)) p)"
    obtain ty d where out: "?out = dp_attributes ` set (merge_groups L ty d ?mid)"
      and points: "?in = dp_attributes ` set (number_points (m_data m))"
      by (rule merged_attributes [OF laws True])
    have mid: "prot ` dp_attributes ` set ?mid = prot ` ?in"
      using arg_cong [OF number_points_kept [OF kept, of "\<lambda>dp. prot (dp_attributes dp)" "m_name m" "number_points (m_data m)"], of set]
      by (simp add: points image_image)
    have "prot ` ?out \<subseteq> prot ` ?in"
      using image_mono [OF merge_groups_attributes, of prot L ty d ?mid] by (simp add: mid out)
    moreover have "set ` prot ` ?out = set ` prot ` ?in" if "hash_separates L (dp_attributes ` set ?mid)"
      using merged_entries [OF that, of "\<lambda>(k, v). isProtected p k" ty d]
      by (simp add: out image_image flip: mid prot del: set_filter)
    ultimately show ?thesis using True by (simp add: image_image)
  qed
qed

section \<open>Witnesses\<close>

text \<open>
  A strip-mode processor with a limit of one that protects \<open>region\<close>, and a delta sum whose
  label \<open>k\<close> has two values.
\<close>

definition strip_processor :: "u64 list processor" where
  "strip_processor = make_processor ref_lib
     (createDefaultConfig\<lparr>MaxCardinalityDeltaPerEpoch := 1,
        EnforcementMode := EnforcementStripAndReaggregate, NeverDropLabels := [''region'']\<rparr>) 7"

definition demo_labelled :: "string \<Rightarrow> u64 \<Rightarrow> i64 \<Rightarrow> nat list \<Rightarrow> (string, nat) number_dp" where
  "demo_labelled k ts n ex =
     (demo_point ''eu'' ts n ex)\<lparr>dp_attributes := [(''region'', ''eu''), (''k'', k)]\<rparr>"

definition demo_metric :: "(string, nat) metric_data \<Rightarrow> (string, nat) metric" where
  "demo_metric d = \<lparr>m_name = ''m'', m_description = ''d'', m_unit = ''1'', m_data = d\<rparr>"

definition demo_points :: "(string, nat) number_dp list" where
  "demo_points = [demo_labelled ''a'' 10 5 [1], demo_labelled ''b'' 11 7 [2], demo_labelled ''c'' 12 9 []]"

lemma strip_processor_facts:
  "enforcementMode strip_processor = EnforcementStripAndReaggregate"
  "overflowTag \<notin> protectedLabels strip_processor" "tracker_inv strip_processor"
  by (code_simp, code_simp, simp add: strip_processor_def)

text \<open>The first point keeps its label, the other two lose it and are merged.\<close>

lemma demo_delta_sum:
  "m_data (fst (processMetric ref_lib (demo_metric (SumMetric TemporalityDelta True demo_points)) strip_processor))
     = SumMetric TemporalityDelta True
         [demo_labelled ''a'' 10 5 [1],
          (demo_labelled ''b'' 12 16 [2])\<lparr>dp_startTimestamp := 10, dp_attributes := [(''region'', ''eu'')]\<rparr>]"
  by code_simp

theorem tagging_never_loses_data_witness:
  "map_attributes (other_entries overflowTag)
     (m_data (fst (processMetric ref_lib
        (demo_metric (SumMetric TemporalityCumulative True demo_points)) strip_processor)))
   = SumMetric TemporalityCumulative True demo_points"
proof -
  have mode: "enforcementMode strip_processor = EnforcementTagOnly \<or>
      enforcementMode strip_processor = EnforcementStripAndReaggregate \<and>
      \<not> reaggregatable (m_data (demo_metric (SumMetric TemporalityCumulative True demo_points)))"
    by (simp add: strip_processor_facts demo_metric_def)
  show ?thesis
    using tagging_never_loses_data [OF ref_lib_pdata_laws mode]
    by (simp add: demo_metric_def demo_points_def demo_labelled_def demo_point_def
        other_entries_def overflowTag_def)
qed

theorem strip_mode_restores_single_writer_witness:
  "distinct (map (identity ref_lib) (number_points (m_data (fst (processMetric ref_lib
     (demo_metric (SumMetric TemporalityDelta True demo_points)) strip_processor))))) \<and>
   length (number_points (m_data (fst (processMetric ref_lib
     (demo_metric (SumMetric TemporalityDelta True demo_points)) strip_processor)))) = 2"
proof -
  have r: "reaggregatable (m_data (demo_metric (SumMetric TemporalityDelta True demo_points)))"
    by (simp add: demo_metric_def)
  show ?thesis
    using strip_mode_restores_single_writer [OF ref_lib_pdata_laws strip_processor_facts(1) r]
    by (simp add: demo_delta_sum)
qed

theorem sum_totals_are_conserved_witness:
  "\<exists>out. m_data (fst (processMetric ref_lib
      (demo_metric (SumMetric TemporalityDelta True demo_points)) strip_processor))
       = SumMetric TemporalityDelta True out \<and> sum_list (map int_of out) = 21"
proof -
  have d: "m_data (demo_metric (SumMetric TemporalityDelta True demo_points))
      = SumMetric TemporalityDelta True demo_points" by (simp add: demo_metric_def)
  have ints: "list_all is_int demo_points" "sum_list (map int_of demo_points) = 21" by code_simp+
  show ?thesis
    using sum_totals_are_conserved [OF ref_lib_pdata_laws d ints(1), of strip_processor] ints(2)
    by auto
qed

lemma demo_separates:
  "hash_separates ref_lib (dp_attributes ` set (fst (processNumberDataPoints ref_lib ''m'' demo_points strip_processor)))"
proof -
  have "map dp_attributes (fst (processNumberDataPoints ref_lib ''m'' demo_points strip_processor))
      = [[(''region'', ''eu''), (''k'', ''a'')], [(''region'', ''eu'')], [(''region'', ''eu'')]]"
    by code_simp
  from arg_cong [OF this, of set]
  have "dp_attributes ` set (fst (processNumberDataPoints ref_lib ''m'' demo_points strip_processor))
      = {[(''region'', ''eu''), (''k'', ''a'')], [(''region'', ''eu'')]}"
    unfolding set_map by simp
  moreover have "hashAttributes ref_lib [(''region'', ''eu''), (''k'', ''a'')] \<noteq> hashAttributes ref_lib [(''region'', ''eu'')]"
    by code_simp
  ultimately show ?thesis by (auto simp: hash_separates_def)
qed

lemma demo_protected: "isProtected strip_processor ''region''" "\<not> isProtected strip_processor ''k''"
  by code_simp+

lemma demo_entries:
  "(\<lambda>dp. set (filter (\<lambda>(k, v). isProtected strip_processor k) (dp_attributes dp))) ` set demo_points
     = {{(''region'', ''eu'')}}"
  by (simp add: demo_points_def demo_labelled_def demo_protected del: set_filter)

theorem protected_labels_survive_the_pipeline_witness:
  "(\<lambda>a. set (filter (\<lambda>(k, v). isProtected strip_processor k) a)) ` set (point_attributes (m_data (fst (processMetric ref_lib
     (demo_metric (SumMetric TemporalityDelta True demo_points)) strip_processor))))
   = {{(''region'', ''eu'')}}"
  using protected_labels_survive_the_pipeline [OF ref_lib_pdata_laws strip_processor_facts(2) refl,
      of "demo_metric (SumMetric TemporalityDelta True demo_points)"] demo_separates demo_protected
  by (simp add: demo_metric_def image_image demo_entries del: set_filter)

end
