(* ===== verification/Offenders.thy ===== *)
theory Offenders
  imports Processor_State
begin

text \<open>
  The top-N offenders (\<open>processor.go\<close>): the bounded buffer of the highest growth deltas,
  filled by a linear scan for its minimum, and the in-place insertion sort that orders it
  before it is published.
\<close>

section \<open>The bounded buffer\<close>

text \<open>A tracker with its key, as \<open>rotate\<close> snapshots it.\<close>

type_synonym 'sk trackerEntry = "trackerKey \<times> 'sk tracker"

definition offender :: "trackerKey \<Rightarrow> u64 \<Rightarrow> offenderEntry" where
  "offender key delta =
     \<lparr>oe_metricName = key_metricName key, oe_labelKey = key_attrKey key, oe_delta = delta\<rparr>"

text \<open>The scan \<open>for i := 1; i < len; i++\<close> for the index of the first minimum.\<close>

fun min_scan :: "offenderEntry list \<Rightarrow> nat list \<Rightarrow> nat \<Rightarrow> nat" where
  "min_scan buf [] minIdx = minIdx"
| "min_scan buf (i # is) minIdx =
     min_scan buf is (if oe_delta (buf ! i) < oe_delta (buf ! minIdx) then i else minIdx)"

definition min_index :: "offenderEntry list \<Rightarrow> nat" where
  "min_index buf = min_scan buf [1..<length buf] 0"

definition collect_entry ::
  "i64 \<Rightarrow> 'sk trackerEntry \<Rightarrow> offenderEntry list \<Rightarrow> offenderEntry list" where
  "collect_entry topN e topBuf =
     (case e of (key, t) \<Rightarrow>
        let curr = cachedCurr t; prev = cachedPrev t
        in if curr \<le> prev then topBuf
           else
             let delta = curr - prev
             in if int (length topBuf) < sint topN then topBuf @ [offender key delta]
                else
                  let minIdx = min_index topBuf
                  in if oe_delta (topBuf ! minIdx) < delta
                     then topBuf[minIdx := offender key delta] else topBuf)"

definition collectShardDeltas ::
  "'sk trackerEntry list \<Rightarrow> offenderEntry list \<Rightarrow> i64 \<Rightarrow> offenderEntry list" where
  "collectShardDeltas entries topBuf topN =
     (if sint topN \<le> 0 then topBuf else fold (collect_entry topN) entries topBuf)"

section \<open>The insertion sort\<close>

text \<open>
  The inner loop shifts smaller elements right; \<open>sift key j1 s\<close> is the loop at \<open>j = j1 - 1\<close>,
  so \<open>j1 = 0\<close> is \<open>j = -1\<close>.
\<close>

fun sift :: "offenderEntry \<Rightarrow> nat \<Rightarrow> offenderEntry list \<Rightarrow> offenderEntry list" where
  "sift key 0 s = s[0 := key]"
| "sift key (Suc j) s =
     (if oe_delta (s ! j) < oe_delta key then sift key j (s[Suc j := s ! j])
      else s[Suc j := key])"

definition sortOffenders :: "offenderEntry list \<Rightarrow> offenderEntry list" where
  "sortOffenders s = fold (\<lambda>i s. sift (s ! i) i s) [1..<length s] s"

section \<open>Publishing\<close>

definition publishTopOffenders :: "offenderEntry list \<Rightarrow> 'sk processor \<Rightarrow> 'sk processor" where
  "publishTopOffenders topBuf p =
     (if length topBuf = 0 then p
      else
        let sorted_buf = sortOffenders topBuf;
            first = sorted_buf ! 0
        in emit (LogTopOffender (oe_metricName first) (oe_labelKey first) (oe_delta first))
             (p\<lparr>topOffenders := sorted_buf\<rparr>))"

section \<open>The minimum\<close>

lemma min_scan_spec:
  assumes "set is \<subseteq> {..<length buf}" and "m < length buf"
  shows "min_scan buf is m < length buf \<and>
    (\<forall>i \<in> insert m (set is). oe_delta (buf ! min_scan buf is m) \<le> oe_delta (buf ! i))"
  using assms
proof (induction "is" arbitrary: m)
  case Nil
  then show ?case by simp
next
  case (Cons i "is")
  let ?m = "if oe_delta (buf ! i) < oe_delta (buf ! m) then i else m"
  from Cons.prems have m: "?m < length buf" and rest: "set is \<subseteq> {..<length buf}" by auto
  have le: "oe_delta (buf ! ?m) \<le> oe_delta (buf ! i)" "oe_delta (buf ! ?m) \<le> oe_delta (buf ! m)"
    by auto
  from Cons.IH [OF rest m] have IH: "min_scan buf is ?m < length buf"
    "oe_delta (buf ! min_scan buf is ?m) \<le> oe_delta (buf ! ?m)"
    "\<And>i. i \<in> set is \<Longrightarrow> oe_delta (buf ! min_scan buf is ?m) \<le> oe_delta (buf ! i)" by blast+
  from IH(1,3) order_trans [OF IH(2) le(1)] order_trans [OF IH(2) le(2)] show ?case
    unfolding min_scan.simps(2) by simp
qed

lemma min_index_spec:
  assumes "buf \<noteq> []"
  shows "min_index buf < length buf"
    and "b \<in> set buf \<Longrightarrow> oe_delta (buf ! min_index buf) \<le> oe_delta b"
proof -
  have "set [1..<length buf] \<subseteq> {..<length buf}" "0 < length buf" using assms by auto
  note spec = min_scan_spec [OF this]
  then show "min_index buf < length buf" by (simp add: min_index_def)
  assume "b \<in> set buf"
  then obtain i where "i < length buf" "b = buf ! i" by (auto simp: in_set_conv_nth)
  moreover from this have "i \<in> insert 0 (set [1..<length buf])" by auto
  ultimately show "oe_delta (buf ! min_index buf) \<le> oe_delta b"
    using spec unfolding min_index_def by blast
qed

section \<open>The buffer holds the N largest deltas\<close>

text \<open>
  The candidates: one entry per tracker whose current estimate is above its baseline.
\<close>

definition candidates :: "'sk trackerEntry list \<Rightarrow> offenderEntry list" where
  "candidates entries =
     map (\<lambda>(key, t). offender key (cachedCurr t - cachedPrev t))
       (filter (\<lambda>(key, t). cachedPrev t < cachedCurr t) entries)"

text \<open>\<open>buf\<close> is a choice of the \<open>n\<close> candidates with the largest deltas out of \<open>cs\<close>.\<close>

definition top_of :: "nat \<Rightarrow> offenderEntry list \<Rightarrow> offenderEntry list \<Rightarrow> bool" where
  "top_of n cs buf \<longleftrightarrow> mset buf \<subseteq># mset cs \<and> length buf = min n (length cs) \<and>
     (\<forall>b \<in># mset buf. \<forall>c \<in># mset cs - mset buf. oe_delta c \<le> oe_delta b)"

lemma top_of_Nil: "top_of n [] []"
  by (simp add: top_of_def)

text \<open>The step on one candidate.\<close>

definition offer :: "nat \<Rightarrow> offenderEntry \<Rightarrow> offenderEntry list \<Rightarrow> offenderEntry list" where
  "offer n c buf =
     (if length buf < n then buf @ [c]
      else if oe_delta (buf ! min_index buf) < oe_delta c then buf[min_index buf := c] else buf)"

lemma collect_entry_offer:
  "collect_entry topN (key, t) buf =
     (if cachedPrev t < cachedCurr t
      then offer (nat (sint topN)) (offender key (cachedCurr t - cachedPrev t)) buf else buf)"
  by (auto simp: collect_entry_def offer_def Let_def offender_def not_le nat_less_iff zless_nat_eq_int_zless)

lemma collect_entries_offer:
  "fold (collect_entry topN) entries buf = fold (offer (nat (sint topN))) (candidates entries) buf"
  by (induction entries arbitrary: buf) (auto simp: candidates_def collect_entry_offer)

lemma top_of_offer:
  assumes top: "top_of n cs buf" and n: "0 < n"
  shows "top_of n (cs @ [c]) (offer n c buf)"
proof (cases "length buf < n")
  case True
  with top have len: "length buf = length cs" and sub: "mset buf \<subseteq># mset cs"
    by (auto simp: top_of_def)
  from sub have "mset buf = mset cs"
    by (metis len less_irrefl mset_subset_size size_mset subset_mset.le_less)
  with True len show ?thesis by (simp add: top_of_def offer_def)
next
  case False
  with top n have len: "length buf = n" "n \<le> length cs" and sub: "mset buf \<subseteq># mset cs"
    and best: "\<And>b c. b \<in># mset buf \<Longrightarrow> c \<in># mset cs - mset buf \<Longrightarrow> oe_delta c \<le> oe_delta b"
    by (auto simp: top_of_def)
  let ?m = "min_index buf"
  from len n have ne: "buf \<noteq> []" by auto
  note min = min_index_spec [OF ne]
  from min(1) have m_in: "buf ! ?m \<in># mset buf" by simp
  show ?thesis
  proof (cases "oe_delta (buf ! ?m) < oe_delta c")
    case True
    have buf': "mset (buf[?m := c]) = add_mset c (mset buf - {#buf ! ?m#})"
      using min(1) by (rule mset_update)
    have rest: "mset (cs @ [c]) - mset (buf[?m := c]) = add_mset (buf ! ?m) (mset cs - mset buf)"
      using sub m_in by (simp add: buf' multiset_eq_iff subseteq_mset_def)
        (metis Suc_pred count_greater_zero_iff diff_Suc_eq_diff_pred Suc_diff_le)
    have "oe_delta x \<le> oe_delta b"
      if "b \<in># mset (buf[?m := c])" "x \<in># mset (cs @ [c]) - mset (buf[?m := c])" for b x
    proof -
      from that(1) have b: "b = c \<or> b \<in># mset buf" by (auto simp: buf' dest: in_diffD)
      from that(2) have x: "x = buf ! ?m \<or> x \<in># mset cs - mset buf" unfolding rest by simp
      from x best m_in have "oe_delta x \<le> oe_delta (buf ! ?m)" by auto
      moreover from b min(2) True have "oe_delta (buf ! ?m) \<le> oe_delta b" by auto
      ultimately show ?thesis by (rule order_trans)
    qed
    moreover have "mset (buf[?m := c]) \<subseteq># mset (cs @ [c])"
      using sub by (auto simp: buf' intro: subset_mset.order_trans [OF diff_subset_eq_self])
    ultimately show ?thesis
      using False True len by (simp add: top_of_def offer_def del: mset_append)
  next
    case low: False
    have rest: "mset (cs @ [c]) - mset buf = add_mset c (mset cs - mset buf)"
      using subset_mset.diff_add_assoc2 [OF sub, of "{#c#}"] by simp
    have "oe_delta x \<le> oe_delta b" if "b \<in># mset buf" "x \<in># mset (cs @ [c]) - mset buf" for b x
    proof -
      from that(2) have "x = c \<or> x \<in># mset cs - mset buf" unfolding rest by simp
      moreover have "oe_delta c \<le> oe_delta b"
        using low min(2) [of b] that(1) by auto
      ultimately show ?thesis using best [OF that(1)] by auto
    qed
    moreover have "mset buf \<subseteq># mset (cs @ [c])"
      by (rule subset_mset.order_trans [OF sub]) simp
    ultimately show ?thesis
      using False low len by (simp add: top_of_def offer_def del: mset_append)
  qed
qed

lemma top_of_offers: "top_of n cs buf \<Longrightarrow> 0 < n \<Longrightarrow> top_of n (cs @ ds) (fold (offer n) ds buf)"
proof (induction ds arbitrary: cs buf)
  case Nil
  then show ?case by simp
next
  case (Cons d ds)
  from Cons.IH [OF top_of_offer [OF Cons.prems, of d] Cons.prems(2)] show ?case by simp
qed

section \<open>The sort is stable and descending\<close>

definition descending :: "offenderEntry list \<Rightarrow> bool" where
  "descending s = sorted_wrt (\<lambda>a b. oe_delta b \<le> oe_delta a) s"

text \<open>What one run of the inner loop does to the sorted prefix.\<close>

definition insert_right :: "offenderEntry \<Rightarrow> offenderEntry list \<Rightarrow> offenderEntry list" where
  "insert_right key pre =
     rev (dropWhile (\<lambda>e. oe_delta e < oe_delta key) (rev pre)) @ key #
     rev (takeWhile (\<lambda>e. oe_delta e < oe_delta key) (rev pre))"

lemma insert_right_snoc:
  "insert_right key (pre @ [y]) =
     (if oe_delta y < oe_delta key then insert_right key pre @ [y] else pre @ [y, key])"
  by (simp add: insert_right_def)

lemma sift_insert_right:
  "sift key (length pre) (pre @ x # post) = insert_right key pre @ post"
proof (induction pre arbitrary: x post rule: rev_induct)
  case Nil
  then show ?case by (simp add: insert_right_def)
next
  case (snoc y pre)
  have upd: "(pre @ y # x # post)[Suc (length pre) := e] = pre @ y # e # post" for e
    by (simp add: list_update_append)
  show ?case
    using snoc.IH [of y "y # post"] by (simp add: insert_right_snoc nth_append upd)
qed

lemma insert_right_perm: "mset (insert_right key pre) = add_mset key (mset pre)"
  by (induction pre rule: rev_induct) (auto simp: insert_right_snoc insert_right_def)

lemma insert_right_descending: "descending pre \<Longrightarrow> descending (insert_right key pre)"
proof (induction pre rule: rev_induct)
  case Nil
  then show ?case by (simp add: insert_right_def descending_def)
next
  case (snoc y pre)
  have mem: "set (insert_right key pre) = insert key (set pre)"
    by (metis insert_right_perm set_mset_add_mset_insert set_mset_mset)
  from snoc have "descending (insert_right key pre)" "\<forall>e \<in> set pre. oe_delta y \<le> oe_delta e"
    by (auto simp: descending_def sorted_wrt_append)
  then show ?case
    using snoc.prems mem
    by (auto simp: insert_right_snoc descending_def sorted_wrt_append intro: less_imp_le)
qed

lemma insert_right_stable:
  "filter (\<lambda>e. oe_delta e = d) (insert_right key pre) = filter (\<lambda>e. oe_delta e = d) (pre @ [key])"
proof (induction pre rule: rev_induct)
  case Nil
  then show ?case by (simp add: insert_right_def)
next
  case (snoc y pre)
  then show ?case by (auto simp: insert_right_snoc)
qed

lemma sort_loop:
  "i \<le> length s \<Longrightarrow> 0 < i \<Longrightarrow>
   \<exists>pre. fold (\<lambda>i s. sift (s ! i) i s) [1..<i] s = pre @ drop i s \<and> length pre = i \<and>
     mset pre = mset (take i s) \<and> descending pre \<and>
     (\<forall>d. filter (\<lambda>e. oe_delta e = d) pre = filter (\<lambda>e. oe_delta e = d) (take i s))"
proof (induction i)
  case 0
  then show ?case by simp
next
  case (Suc i)
  show ?case
  proof (cases "i = 0")
    case True
    with Suc.prems show ?thesis
      by (intro exI [of _ "take 1 s"]) (cases s; simp add: descending_def)
  next
    case False
    with Suc obtain pre where st: "fold (\<lambda>i s. sift (s ! i) i s) [1..<i] s = pre @ drop i s"
      and pre: "length pre = i" "mset pre = mset (take i s)" "descending pre"
      "\<And>d. filter (\<lambda>e. oe_delta e = d) pre = filter (\<lambda>e. oe_delta e = d) (take i s)"
      by auto
    from Suc.prems have i: "i < length s" by simp
    then have drop: "drop i s = s ! i # drop (Suc i) s" by (rule Cons_nth_drop_Suc [symmetric])
    let ?pre = "insert_right (s ! i) pre"
    have "(pre @ drop i s) ! i = s ! i" using pre(1) drop by (simp add: nth_append)
    then have "fold (\<lambda>i s. sift (s ! i) i s) [1..<Suc i] s = ?pre @ drop (Suc i) s"
      using False st sift_insert_right [of "s ! i" pre "s ! i" "drop (Suc i) s"] pre(1) drop by simp
    moreover have "mset ?pre = mset (take (Suc i) s)"
      using pre(2) i by (simp add: insert_right_perm take_Suc_conv_app_nth)
    moreover from this have "length ?pre = Suc i"
      using i by (metis length_take min.absorb2 size_mset Suc_leI)
    moreover have "filter (\<lambda>e. oe_delta e = d) ?pre = filter (\<lambda>e. oe_delta e = d) (take (Suc i) s)" for d
      using pre(4) i by (simp add: insert_right_stable take_Suc_conv_app_nth)
    ultimately show ?thesis using insert_right_descending [OF pre(3)] by blast
  qed
qed

lemma sortOffenders_spec:
  "mset (sortOffenders s) = mset s" "descending (sortOffenders s)"
  "filter (\<lambda>e. oe_delta e = d) (sortOffenders s) = filter (\<lambda>e. oe_delta e = d) s"
proof -
  have "mset (sortOffenders s) = mset s \<and> descending (sortOffenders s) \<and>
      filter (\<lambda>e. oe_delta e = d) (sortOffenders s) = filter (\<lambda>e. oe_delta e = d) s"
  proof (cases "s = []")
    case True
    then show ?thesis by (simp add: sortOffenders_def descending_def)
  next
    case False
    with sort_loop [of "length s" s] show ?thesis by (auto simp: sortOffenders_def)
  qed
  then show "mset (sortOffenders s) = mset s" "descending (sortOffenders s)"
    "filter (\<lambda>e. oe_delta e = d) (sortOffenders s) = filter (\<lambda>e. oe_delta e = d) s" by simp_all
qed

lemma sortOffenders_sort_key:
  "sortOffenders s = sort_key (\<lambda>e. - uint (oe_delta e)) s"
proof (rule properties_for_sort_key [symmetric])
  show "mset (sortOffenders s) = mset s" by (rule sortOffenders_spec)
  show "filter (\<lambda>x. - uint (oe_delta k) = - uint (oe_delta x)) (sortOffenders s)
      = filter (\<lambda>x. - uint (oe_delta k) = - uint (oe_delta x)) s" for k
  proof -
    have "(- uint (oe_delta k) = - uint d) = (d = oe_delta k)" for d
      by (auto intro: word_uint_eqI)
    then show ?thesis using sortOffenders_spec(3) [of "oe_delta k" s] by simp
  qed
  show "sorted (map (\<lambda>e. - uint (oe_delta e)) (sortOffenders s))"
    using sortOffenders_spec(2) [of s]
    by (simp add: descending_def sorted_map word_le_def)
qed

text \<open>
  The in-place insertion sort, run on any buffer, leaves a permutation of it in which no
  entry is preceded by one with a smaller delta, and in which the entries with equal deltas
  are in the order the buffer had them.
\<close>

lemma sortOffenders_is_stable_sort:
  "mset (sortOffenders s) = mset s \<and>
   sorted_wrt (\<lambda>a b. oe_delta b \<le> oe_delta a) (sortOffenders s) \<and>
   filter (\<lambda>e. oe_delta e = d) (sortOffenders s) = filter (\<lambda>e. oe_delta e = d) s"
  using sortOffenders_spec(1,2) [of s] sortOffenders_spec(3) [of d s] by (simp add: descending_def)

text \<open>
  The buffer holds the N largest: after the entries of all shards are scanned in any
  order, it is a choice of \<open>min N (number of growing trackers)\<close> candidates, no candidate
  left out has a larger delta than one kept, and memory never exceeds N entries.
\<close>

lemma collected_offenders_are_top:
  assumes "0 < sint topN"
  shows "top_of (nat (sint topN)) (candidates (concat ess))
           (fold (\<lambda>es buf. collectShardDeltas es buf topN) ess [])"
proof -
  have "fold (\<lambda>es buf. collectShardDeltas es buf topN) ess buf
      = fold (offer (nat (sint topN))) (candidates (concat ess)) buf" for buf
    using assms
    by (induction ess arbitrary: buf)
       (auto simp: collectShardDeltas_def collect_entries_offer candidates_def)
  then show ?thesis
    using top_of_offers [OF top_of_Nil, of "nat (sint topN)" "candidates (concat ess)"] assms by simp
qed

end
