(* ===== verification/Rotation.thy ===== *)
theory Rotation
  imports Decision Offenders
begin

text \<open>
  The epoch rotation (\<open>rotate\<close> of \<open>processor.go\<close>): snapshot each shard's trackers, collect
  the growth deltas, rotate every tracker, evict the stale ones, reset the epoch's flags and
  counters, and publish the top offenders. The order in which Go's \<open>range\<close> visits a map is
  a parameter that permutes the entries.
\<close>

section \<open>The code\<close>

type_synonym 'sk range_order = "'sk trackerEntry list \<Rightarrow> 'sk trackerEntry list"

definition range_ok :: "'sk range_order \<Rightarrow> bool" where
  "range_ok r \<longleftrightarrow> (\<forall>m. mset (r m) = mset m)"

text \<open>
  One iteration of the rotate loop in shard \<open>i\<close>. The tracker is reached through a pointer
  in the source, so its rotation shows in the shard's map.
\<close>

definition rotate_entry ::
  "('v, 'x, 'sk) lib \<Rightarrow> nat \<Rightarrow> 'sk trackerEntry \<Rightarrow> 'sk processor \<times> trackerKey list \<Rightarrow>
   'sk processor \<times> trackerKey list" where
  "rotate_entry L i e st =
     (case e of (key, t) \<Rightarrow> case st of (p, staleKeys) \<Rightarrow>
        let (idle, t1) = tracker_rotate (mustGetSketch L) t;
            p1 = update_shard i (AList.update key t1) p
        in (p1, if idle \<and> sint staleSweepEpochs \<le> sint (idleEpochs t1)
                then staleKeys @ [key] else staleKeys))"

definition evict_stale :: "nat \<Rightarrow> trackerKey list \<Rightarrow> 'sk processor \<Rightarrow> 'sk processor" where
  "evict_stale i staleKeys p =
     (if length staleKeys > 0 then
        emit (LogEvicted (length staleKeys))
          (fold (\<lambda>k q. let q1 = update_shard i (AList.delete k) q
                       in q1\<lparr>trackerCount := trackerCount q1 - 1\<rparr>) staleKeys p)
      else p)"

definition rotate_shard ::
  "('v, 'x, 'sk) lib \<Rightarrow> 'sk range_order \<Rightarrow> i64 \<Rightarrow> nat \<Rightarrow>
   'sk processor \<times> offenderEntry list \<Rightarrow> 'sk processor \<times> offenderEntry list" where
  "rotate_shard L rangeOrder topN i st =
     (case st of (p, topBuf) \<Rightarrow>
        let entries = rangeOrder (trackers (shards p ! i));
            topBuf1 = collectShardDeltas entries topBuf topN;
            (p1, staleKeys) = fold (rotate_entry L i) entries (p, [])
        in (evict_stale i staleKeys p1, topBuf1))"

definition processor_rotate ::
  "('v, 'x, 'sk) lib \<Rightarrow> 'sk range_order \<Rightarrow> 'sk processor \<Rightarrow> 'sk processor" where
  "processor_rotate L rangeOrder p =
     (let p0 = emit LogRotating p;
          topN = TopOffendersCount (cfg p0);
          (p1, topBuf) = fold (rotate_shard L rangeOrder topN) [0..<length (shards p0)] (p0, []);
          p2 = p1\<lparr>rejectionWarned := False\<rparr>;
          totalDrops = dropsThisEpoch p2;
          logged = dropLogCount p2;
          p3 = p2\<lparr>dropsThisEpoch := 0, dropLogCount := 0\<rparr>;
          suppressed = totalDrops - logged;
          p4 = (if 0 < sint suppressed then emit (LogSuppressed suppressed totalDrops) p3 else p3)
      in publishTopOffenders topBuf p4)"

section \<open>One shard\<close>

definition rotated :: "('v, 'x, 'sk) lib \<Rightarrow> 'sk tracker \<Rightarrow> 'sk tracker" where
  "rotated L t = snd (tracker_rotate (mustGetSketch L) t)"

definition goes_stale :: "'sk tracker \<Rightarrow> bool" where
  "goes_stale t \<longleftrightarrow> insertCount t = 0 \<and> sint staleSweepEpochs \<le> sint (idleEpochs t + 1)"

definition stale_keys :: "'sk trackerEntry list \<Rightarrow> trackerKey list" where
  "stale_keys es = map fst (filter (goes_stale \<circ> snd) es)"

definition rotated_shard ::
  "('v, 'x, 'sk) lib \<Rightarrow> 'sk range_order \<Rightarrow> 'sk trackerEntry list \<Rightarrow> 'sk trackerEntry list" where
  "rotated_shard L r m =
     shard_map.dels (stale_keys (r m))
       (shard_map.puts (map (\<lambda>(k, t). (k, rotated L t)) (r m)) m)"

text \<open>What becomes of one tracker in a rotation.\<close>

definition fate :: "('v, 'x, 'sk) lib \<Rightarrow> 'sk tracker \<Rightarrow> 'sk tracker option" where
  "fate L t = (if goes_stale t then None else Some (rotated L t))"

lemma update_shard_id [simp]: "update_shard i (\<lambda>m. m) p = p"
  by (simp add: update_shard_def)

lemma update_shard_comp:
  "i < length (shards p) \<Longrightarrow> update_shard i g (update_shard i f p) = update_shard i (\<lambda>m. g (f m)) p"
  by (simp add: update_shard_def)

lemma rotate_entry_eq:
  "rotate_entry L i (k, t) (p, ks) =
     (update_shard i (AList.update k (rotated L t)) p, ks @ (if goes_stale t then [k] else []))"
  by (simp add: rotate_entry_def rotated_def goes_stale_def tracker_rotate_def Let_def)

lemma rotate_entries_eq:
  "i < length (shards p) \<Longrightarrow> fold (rotate_entry L i) es (p, ks) =
     (update_shard i (shard_map.puts (map (\<lambda>(k, t). (k, rotated L t)) es)) p, ks @ stale_keys es)"
proof (induction es arbitrary: p ks)
  case Nil
  then show ?case by (simp add: shard_map.puts_def stale_keys_def)
next
  case (Cons e es)
  obtain k t where e: "e = (k, t)" by force
  show ?case
    using Cons by (simp add: e rotate_entry_eq update_shard_comp shard_map.puts_def stale_keys_def)
qed

lemma update_shard_count:
  "update_shard i f (p\<lparr>trackerCount := c\<rparr>) = (update_shard i f p)\<lparr>trackerCount := c\<rparr>"
  by (simp add: update_shard_def)

lemma evict_fold:
  "i < length (shards p) \<Longrightarrow>
   fold (\<lambda>k q. let q1 = update_shard i (AList.delete k) q
               in q1\<lparr>trackerCount := trackerCount q1 - 1\<rparr>) ks p
     = (update_shard i (shard_map.dels ks) p)\<lparr>trackerCount := trackerCount p - of_nat (length ks)\<rparr>"
proof (induction ks arbitrary: p)
  case Nil
  then show ?case by (simp add: shard_map.dels_def)
next
  case (Cons k ks)
  then show ?case
    by (simp add: Let_def update_shard_count update_shard_comp shard_map.dels_def)
qed

text \<open>The effect of a shard's rotation, field by field.\<close>

definition rotation_frame :: "'sk processor \<Rightarrow> 'sk processor \<Rightarrow> bool" where
  "rotation_frame p q \<longleftrightarrow> same_settings p q \<and> length (shards q) = length (shards p) \<and>
     labelsStripped q = labelsStripped p \<and> trackersRejected q = trackersRejected p \<and>
     rejectionWarned q = rejectionWarned p \<and> dropLogCount q = dropLogCount p \<and>
     dropsThisEpoch q = dropsThisEpoch p \<and>
     (\<exists>n. logs q = logs p @ n \<and> list_all (\<lambda>e. case e of LogEvicted _ \<Rightarrow> True | _ \<Rightarrow> False) n)"

lemma rotation_frame_refl: "rotation_frame p p"
  by (auto simp: rotation_frame_def intro: exI [of _ "[]"])

lemma rotation_frame_trans: "rotation_frame p q \<Longrightarrow> rotation_frame q r \<Longrightarrow> rotation_frame p r"
  by (force simp: rotation_frame_def intro: same_settings_trans)

lemma update_shard_same_settings [simp]: "same_settings p (update_shard i f p)"
  by (simp add: same_settings_def)

lemma rotation_frame_update:
  "rotation_frame p ((update_shard i f p)\<lparr>trackerCount := c\<rparr>)"
  by (auto simp: rotation_frame_def same_settings_def intro: exI [of _ "[]"])

lemma rotation_frame_emit: "rotation_frame p (emit (LogEvicted n) p)"
  by (auto simp: rotation_frame_def same_settings_def emit_def)

lemma rotation_frame_if:
  "rotation_frame p q \<Longrightarrow> rotation_frame p (if b then q else emit (LogEvicted n) q)"
  by (simp add: rotation_frame_trans [OF _ rotation_frame_emit])

definition shard_after ::
  "('v, 'x, 'sk) lib \<Rightarrow> 'sk range_order \<Rightarrow> nat \<Rightarrow> 'sk processor \<Rightarrow> 'sk processor" where
  "shard_after L r i p =
     (let es = r (trackers (shards p ! i)); ks = stale_keys es;
          q = (update_shard i (\<lambda>m. shard_map.dels ks
                 (shard_map.puts (map (\<lambda>(k, t). (k, rotated L t)) es) m)) p)
              \<lparr>trackerCount := trackerCount p - of_nat (length ks)\<rparr>
      in if ks = [] then q else emit (LogEvicted (length ks)) q)"

lemma rotate_shard_run:
  assumes i: "i < length (shards p)"
  shows "rotate_shard L r topN i (p, buf) =
    (shard_after L r i p, collectShardDeltas (r (trackers (shards p ! i))) buf topN)"
proof -
  let ?m = "trackers (shards p ! i)"
  let ?ks = "stale_keys (r ?m)"
  let ?put = "shard_map.puts (map (\<lambda>(k, t). (k, rotated L t)) (r ?m))"
  let ?q = "(update_shard i (\<lambda>m. shard_map.dels ?ks (?put m)) p)
              \<lparr>trackerCount := trackerCount p - of_nat (length ?ks)\<rparr>"
  have entries: "fold (rotate_entry L i) (r ?m) (p, []) = (update_shard i ?put p, ?ks)"
    using i by (simp add: rotate_entries_eq)
  have "evict_stale i ?ks (update_shard i ?put p) = (if ?ks = [] then ?q else emit (LogEvicted (length ?ks)) ?q)"
  proof (cases "?ks = []")
    case True
    then show ?thesis by (simp add: evict_stale_def shard_map.dels_def update_shard_def)
  next
    case False
    have "i < length (shards (update_shard i ?put p))" using i by simp
    from evict_fold [OF this, of ?ks] False i show ?thesis
      by (simp add: evict_stale_def update_shard_comp)
  qed
  then show ?thesis by (simp add: rotate_shard_def entries Let_def shard_after_def)
qed

lemma rotate_shard_eq:
  assumes i: "i < length (shards p)"
  shows "rotation_frame p (fst (rotate_shard L r topN i (p, buf)))"
    and "shards (fst (rotate_shard L r topN i (p, buf)))
       = (shards p)[i := (shards p ! i)\<lparr>trackers := rotated_shard L r (trackers (shards p ! i))\<rparr>]"
    and "trackerCount (fst (rotate_shard L r topN i (p, buf)))
       = trackerCount p - of_nat (length (stale_keys (r (trackers (shards p ! i)))))"
    and "snd (rotate_shard L r topN i (p, buf))
       = collectShardDeltas (r (trackers (shards p ! i))) buf topN"
  unfolding rotate_shard_run [OF i] fst_conv snd_conv
  by (simp_all add: shard_after_def Let_def rotation_frame_if rotation_frame_update)
     (simp_all add: emit_def update_shard_def rotated_shard_def)

text \<open>A shard's map afterwards: every tracker meets its fate, in whatever order.\<close>

lemma range_ok_perm: "range_ok r \<Longrightarrow> mset (r m) = mset m"
  by (simp add: range_ok_def)

lemma map_of_perm:
  assumes "mset a = mset b" and "keys_distinct b"
  shows "map_of a = map_of b" and "distinct (map fst a)"
proof -
  have keys: "mset (map fst a) = mset (map fst b)" using assms(1) by simp
  show "distinct (map fst a)"
    using mset_eq_imp_distinct_iff [OF keys] assms(2) by (simp only: keys_distinct_def)
  have "set a = set b" using assms(1) by (rule mset_eq_setD)
  with \<open>distinct (map fst a)\<close> show "map_of a = map_of b"
    using assms(2) by (simp add: keys_distinct_def map_of_inject_set)
qed

lemma map_of_rotated: "map_of (map (\<lambda>(k, t). (k, f t)) es) k = map_option f (map_of es k)"
  by (induction es) auto

lemma stale_keys_iff:
  assumes "distinct (map fst es)"
  shows "k \<in> set (stale_keys es) \<longleftrightarrow> (\<exists>t. map_of es k = Some t \<and> goes_stale t)"
  using assms by (auto simp: stale_keys_def dest: map_of_SomeD) force+

lemma distinct_stale_keys: "distinct (map fst es) \<Longrightarrow> distinct (stale_keys es)"
  unfolding stale_keys_def by (induction es) auto

lemma rotated_shard_spec:
  assumes ok: "keys_distinct m" and r: "range_ok r"
  shows "keys_distinct (rotated_shard L r m)"
    and "map_of (rotated_shard L r m) k = Option.bind (map_of m k) (fate L)"
    and "length (rotated_shard L r m) + length (stale_keys (r m)) = length m"
proof -
  let ?es = "map (\<lambda>(k, t). (k, rotated L t)) (r m)"
  note perm = map_of_perm [OF range_ok_perm [OF r] ok]
  have fst: "map fst ?es = map fst (r m)" by (simp add: case_prod_beta')
  have "distinct (map fst ?es)" unfolding fst by (rule perm(2))
  from shard_map.get_puts [OF ok this]
  have put: "map_of (shard_map.puts ?es m) k' = map_option (rotated L) (map_of m k')" for k'
    by (simp add: map_add_def map_of_rotated perm(1) split: option.split)
  have okp: "keys_distinct (shard_map.puts ?es m)" using ok by (rule shard_map.ok_puts)
  then show "keys_distinct (rotated_shard L r m)"
    unfolding rotated_shard_def by (rule shard_map.ok_dels)
  show "map_of (rotated_shard L r m) k = Option.bind (map_of m k) (fate L)"
    using perm put
    by (auto simp: rotated_shard_def shard_map.get_dels [OF okp] stale_keys_iff fate_def
        split: option.splits bind_splits)
  have "length (shard_map.puts ?es m) = length m"
    using perm(1) ok
    by (intro shard_map.entries_puts) (auto simp: weak_map_of_SomeI dest!: weak_map_of_SomeI)
  moreover have "length (rotated_shard L r m) + length (stale_keys (r m))
      = length (shard_map.puts ?es m)"
    unfolding rotated_shard_def
    using perm by (intro shard_map.entries_dels okp distinct_stale_keys) (auto simp: put stale_keys_iff)
  ultimately show "length (rotated_shard L r m) + length (stale_keys (r m)) = length m" by simp
qed

section \<open>All shards\<close>

lemma rotate_shards_prefix:
  fixes p :: "'sk processor" and L :: "('v, 'x, 'sk) lib"
  fixes r :: "'sk range_order" and topN :: i64 and buf :: "offenderEntry list"
  assumes n: "n \<le> length (shards p)"
  defines "run \<equiv> fold (rotate_shard L r topN) [0..<n] (p, buf)"
  shows "rotation_frame p (fst run) \<and>
    (\<forall>j < length (shards p). trackers (shards (fst run) ! j) =
       (if j < n then rotated_shard L r (trackers (shards p ! j)) else trackers (shards p ! j))) \<and>
    trackerCount (fst run) = trackerCount p -
       of_nat (\<Sum>s \<leftarrow> take n (shards p). length (stale_keys (r (trackers s)))) \<and>
    snd run = fold (\<lambda>es b. collectShardDeltas es b topN)
       (map (\<lambda>s. r (trackers s)) (take n (shards p))) buf"
  using n unfolding run_def
proof (induction n)
  case 0
  then show ?case by (simp add: rotation_frame_refl)
next
  case (Suc n)
  obtain q b where q: "fold (rotate_shard L r topN) [0..<n] (p, buf) = (q, b)" by force
  from Suc have IH: "rotation_frame p q"
    "\<And>j. j < length (shards p) \<Longrightarrow> trackers (shards q ! j) =
       (if j < n then rotated_shard L r (trackers (shards p ! j)) else trackers (shards p ! j))"
    "trackerCount q = trackerCount p -
       of_nat (\<Sum>s \<leftarrow> take n (shards p). length (stale_keys (r (trackers s))))"
    "b = fold (\<lambda>es b. collectShardDeltas es b topN)
       (map (\<lambda>s. r (trackers s)) (take n (shards p))) buf"
    by (simp_all add: q)
  from Suc.prems have n: "n < length (shards p)" by simp
  with IH(1) have nq: "n < length (shards q)" by (simp add: rotation_frame_def)
  have same: "trackers (shards q ! n) = trackers (shards p ! n)" using IH(2) [OF n] by simp
  note step = rotate_shard_eq [OF nq, where L = L and r = r and topN = topN and buf = b]
  have "rotation_frame p (fst (rotate_shard L r topN n (q, b)))"
    using IH(1) step(1) by (rule rotation_frame_trans)
  moreover have "trackers (shards (fst (rotate_shard L r topN n (q, b))) ! j) =
      (if j < Suc n then rotated_shard L r (trackers (shards p ! j)) else trackers (shards p ! j))"
    if "j < length (shards p)" for j
    using IH(2) [OF that] same nq by (simp add: step(2) nth_list_update less_Suc_eq)
  ultimately show ?case
    using step(3,4) same IH(3,4) n
    by (simp add: q take_Suc_conv_app_nth algebra_simps)
qed

text \<open>The rest of a rotation touches neither the shards nor the counter of trackers.\<close>

lemma publish_frame [simp, frame_simps]:
  "shards (publishTopOffenders buf p) = shards p"
  "seed (publishTopOffenders buf p) = seed p"
  "cfg (publishTopOffenders buf p) = cfg p"
  "trackerCount (publishTopOffenders buf p) = trackerCount p"
  "dropsThisEpoch (publishTopOffenders buf p) = dropsThisEpoch p"
  "dropLogCount (publishTopOffenders buf p) = dropLogCount p"
  "labelsStripped (publishTopOffenders buf p) = labelsStripped p"
  "rejectionWarned (publishTopOffenders buf p) = rejectionWarned p"
  "trackersRejected (publishTopOffenders buf p) = trackersRejected p"
  "topOffenders (publishTopOffenders buf p) =
     (if buf = [] then topOffenders p else sortOffenders buf)"
  by (simp_all add: publishTopOffenders_def emit_def Let_def)

lemma emit_frame [simp, frame_simps]:
  "shards (emit e p) = shards p" "seed (emit e p) = seed p" "cfg (emit e p) = cfg p"
  "trackerCount (emit e p) = trackerCount p" "dropsThisEpoch (emit e p) = dropsThisEpoch p"
  "dropLogCount (emit e p) = dropLogCount p" "labelsStripped (emit e p) = labelsStripped p"
  "rejectionWarned (emit e p) = rejectionWarned p" "topOffenders (emit e p) = topOffenders p"
  "trackersRejected (emit e p) = trackersRejected p"
  "same_settings p (emit e p)"
  by (simp_all add: emit_def same_settings_def)

definition epoch_entries :: "'sk range_order \<Rightarrow> 'sk processor \<Rightarrow> 'sk trackerEntry list" where
  "epoch_entries r p = concat (map (\<lambda>s. r (trackers s)) (shards p))"

text \<open>Field by field, what a rotation does to the processor.\<close>

lemma rotate_fields:
  "shards (processor_rotate L r p) =
     shards (fst (fold (rotate_shard L r (TopOffendersCount (cfg p))) [0..<length (shards p)] (emit LogRotating p, [])))"
  "trackerCount (processor_rotate L r p) =
     trackerCount (fst (fold (rotate_shard L r (TopOffendersCount (cfg p))) [0..<length (shards p)] (emit LogRotating p, [])))"
  "rejectionWarned (processor_rotate L r p) = False" "dropsThisEpoch (processor_rotate L r p) = 0"
  "dropLogCount (processor_rotate L r p) = 0"
  by (simp_all add: processor_rotate_def Let_def split_beta)

lemma rotate_settings:
  "cfg (processor_rotate L r p) = cfg p" "seed (processor_rotate L r p) = seed p"
  "protectedLabels (processor_rotate L r p) = protectedLabels p"
  "enforcementMode (processor_rotate L r p) = enforcementMode p"
  "labelsStripped (processor_rotate L r p) = labelsStripped p"
  "startOnce (processor_rotate L r p) = startOnce p" "rotationLoop (processor_rotate L r p) = rotationLoop p"
  "ctxCancelled (processor_rotate L r p) = ctxCancelled p" "telemetry (processor_rotate L r p) = telemetry p"
  "sdkCallbacks (processor_rotate L r p) = sdkCallbacks p"
  "trackersRejected (processor_rotate L r p) = trackersRejected p"
  "estimatedCostPerMetricMonth (processor_rotate L r p) = estimatedCostPerMetricMonth p"
proof -
  let ?q = "fst (fold (rotate_shard L r (TopOffendersCount (cfg p))) [0..<length (shards p)] (emit LogRotating p, []))"
  have "rotation_frame (emit LogRotating p) ?q"
    using rotate_shards_prefix [of "length (shards p)" "emit LogRotating p" L r "TopOffendersCount (cfg p)" "[]"]
    by simp
  then show
    "cfg (processor_rotate L r p) = cfg p" "seed (processor_rotate L r p) = seed p"
    "protectedLabels (processor_rotate L r p) = protectedLabels p"
    "enforcementMode (processor_rotate L r p) = enforcementMode p"
    "labelsStripped (processor_rotate L r p) = labelsStripped p"
    "startOnce (processor_rotate L r p) = startOnce p" "rotationLoop (processor_rotate L r p) = rotationLoop p"
    "ctxCancelled (processor_rotate L r p) = ctxCancelled p" "telemetry (processor_rotate L r p) = telemetry p"
    "sdkCallbacks (processor_rotate L r p) = sdkCallbacks p"
    "trackersRejected (processor_rotate L r p) = trackersRejected p"
    "estimatedCostPerMetricMonth (processor_rotate L r p) = estimatedCostPerMetricMonth p"
    by (simp_all add: processor_rotate_def Let_def split_beta rotation_frame_def same_settings_def
        publishTopOffenders_def emit_def)
qed

section \<open>What a rotation means\<close>

lemma rotate_shards:
  fixes p :: "'sk processor"
  shows "length (shards (processor_rotate L r p)) = length (shards p)"
    and "j < length (shards p) \<Longrightarrow>
       trackers (shards (processor_rotate L r p) ! j) = rotated_shard L r (trackers (shards p ! j))"
    and "trackerCount (processor_rotate L r p) = trackerCount p -
       of_nat (\<Sum>s \<leftarrow> shards p. length (stale_keys (r (trackers s))))"
  using rotate_shards_prefix [of "length (shards p)" "emit LogRotating p" L r "TopOffendersCount (cfg p)" "[]"]
  by (simp_all add: rotate_fields rotation_frame_def)

lemma rotate_getShard: "getShard L' (processor_rotate L r p) m = getShard L' p m"
  by (simp add: getShard_def rotate_settings)

lemma rotate_shards_ok:
  assumes "shards_ok p" and "range_ok r"
  shows "shards_ok (processor_rotate L r p)"
  using assms(1) rotated_shard_spec(1) [OF _ assms(2), of _ L]
  by (auto simp: shards_ok_def list_all_length rotate_shards)

lemma rotate_store:
  assumes "shards_ok p" and "range_ok r"
  shows "store_get L' (processor_rotate L r p) key = Option.bind (store_get L' p key) (fate L)"
  unfolding store_get_def rotate_getShard rotate_shards(2) [OF getShard_length [OF assms(1)]]
  by (rule rotated_shard_spec(2) [OF shards_ok_nth [OF assms(1) getShard_length [OF assms(1)]] assms(2)])

definition stale_count :: "'sk range_order \<Rightarrow> 'sk processor \<Rightarrow> nat" where
  "stale_count r p = (\<Sum>s \<leftarrow> shards p. length (stale_keys (r (trackers s))))"

lemma rotate_total:
  assumes "shards_ok p" and "range_ok r"
  shows "total_trackers (processor_rotate L r p) + stale_count r p = total_trackers p"
proof -
  let ?n = "length (shards p)"
  have "total_trackers (processor_rotate L r p) + stale_count r p
      = (\<Sum>j = 0..<?n. length (rotated_shard L r (trackers (shards p ! j))) +
           length (stale_keys (r (trackers (shards p ! j)))))"
    by (simp add: total_trackers_def stale_count_def sum_list_sum_nth rotate_shards sum.distrib)
  also have "\<dots> = (\<Sum>j = 0..<?n. length (trackers (shards p ! j)))"
    using rotated_shard_spec(3) [OF shards_ok_nth [OF assms(1)] assms(2)]
    by (intro sum.cong) auto
  finally show ?thesis by (simp add: total_trackers_def sum_list_sum_nth)
qed

lemma rotate_keeps_inv:
  assumes "tracker_inv p" and "range_ok r"
  shows "tracker_inv (processor_rotate L r p)"
proof -
  from assms(1) have ok: "shards_ok p" by simp
  note tot = rotate_total [OF ok assms(2), of L]
  have "trackerCount (processor_rotate L r p) = of_nat (total_trackers p) - of_nat (stale_count r p)"
    using assms(1) by (simp add: rotate_shards stale_count_def tracker_inv_def)
  also have "\<dots> = of_nat (total_trackers (processor_rotate L r p))"
    unfolding tot [symmetric] by simp
  finally show ?thesis
    using assms(1) rotate_shards_ok [OF ok assms(2)] tot
    by (auto simp: tracker_inv_def rotate_settings)
qed

text \<open>The list of growing trackers, and what the collection leaves in the buffer.\<close>

lemma rotate_buffer:
  "snd (fold (rotate_shard L r (TopOffendersCount (cfg p))) [0..<length (shards p)] (emit LogRotating p, []))
     = fold (\<lambda>es b. collectShardDeltas es b (TopOffendersCount (cfg p)))
         (map (\<lambda>s. r (trackers s)) (shards p)) []"
  using rotate_shards_prefix [of "length (shards p)" "emit LogRotating p" L r "TopOffendersCount (cfg p)" "[]"]
  by simp

lemma rotate_topOffenders:
  "topOffenders (processor_rotate L r p) =
     (let buf = fold (\<lambda>es b. collectShardDeltas es b (TopOffendersCount (cfg p)))
                  (map (\<lambda>s. r (trackers s)) (shards p)) []
      in if buf = [] then topOffenders p else sortOffenders buf)"
proof -
  have "topOffenders (fst (fold (rotate_shard L r (TopOffendersCount (cfg p)))
      [0..<length (shards p)] (emit LogRotating p, []))) = topOffenders p"
    using rotate_shards_prefix [of "length (shards p)" "emit LogRotating p" L r "TopOffendersCount (cfg p)" "[]"]
    by (simp add: rotation_frame_def same_settings_def)
  then show ?thesis
    by (simp add: processor_rotate_def Let_def split_beta rotate_buffer)
qed

lemma collect_none: "sint n \<le> 0 \<Longrightarrow> fold (\<lambda>es b. collectShardDeltas es b n) ess buf = buf"
  by (induction ess arbitrary: buf) (simp_all add: collectShardDeltas_def)

lemma collect_offers:
  "0 < sint n \<Longrightarrow> fold (\<lambda>es b. collectShardDeltas es b n) ess buf =
     fold (offer (nat (sint n))) (candidates (concat ess)) buf"
  by (induction ess arbitrary: buf) (auto simp: collectShardDeltas_def collect_entries_offer candidates_def)

text \<open>
  C20. Rotation is the same per-tracker step everywhere: whatever order Go visits the maps in,
  a tracker that was untouched for two epochs is gone afterwards, every other one has been
  rotated exactly once, and no tracker appears.
\<close>

theorem rotate_sends_trackers_to_their_fate:
  assumes "shards_ok p" and "range_ok r"
  shows "store_get L (processor_rotate L r p) key =
    (case store_get L p key of
       None \<Rightarrow> None
     | Some t \<Rightarrow>
         if insertCount t = 0 \<and> 2 \<le> sint (idleEpochs t + 1) then None
         else Some (snd (tracker_rotate (mustGetSketch L) t)))"
  unfolding rotate_store [OF assms]
  by (auto simp: fate_def goes_stale_def rotated_def staleSweepEpochs_def split: option.split)

text \<open>
  C22. What the gauge shows after a rotation: with growth anywhere, the N trackers with the
  largest growth this epoch, largest first; with none (or with the feature off) the previous
  list stays in place, however old it is.
\<close>

theorem rotate_publishes_top_offenders:
  "if 0 < sint (TopOffendersCount (cfg p)) \<and> candidates (epoch_entries r p) \<noteq> []
   then \<exists>buf. top_of (nat (sint (TopOffendersCount (cfg p)))) (candidates (epoch_entries r p)) buf \<and>
          topOffenders (processor_rotate L r p) = sort_key (\<lambda>e. - uint (oe_delta e)) buf
   else topOffenders (processor_rotate L r p) = topOffenders p"
proof (cases "0 < sint (TopOffendersCount (cfg p))")
  case True
  let ?n = "nat (sint (TopOffendersCount (cfg p)))"
  let ?buf = "fold (offer ?n) (candidates (epoch_entries r p)) []"
  have top: "top_of ?n (candidates (epoch_entries r p)) ?buf"
    using top_of_offers [OF top_of_Nil, of ?n "candidates (epoch_entries r p)"] True by simp
  have pub: "topOffenders (processor_rotate L r p) = (if ?buf = [] then topOffenders p else sortOffenders ?buf)"
    using True by (simp add: rotate_topOffenders Let_def collect_offers epoch_entries_def)
  show ?thesis
  proof (cases "candidates (epoch_entries r p) = []")
    case True
    with pub show ?thesis by simp
  next
    case False
    with True have "0 < min ?n (length (candidates (epoch_entries r p)))" by simp
    with top have "?buf \<noteq> []" by (auto simp only: top_of_def list.size(3))
    with pub top True False show ?thesis
      by (auto simp: sortOffenders_sort_key)
  qed
next
  case False
  then show ?thesis by (simp add: rotate_topOffenders Let_def collect_none)
qed

section \<open>Idle trackers\<close>

lemma rotate_fate:
  assumes "shards_ok p" and "range_ok r" and "store_get L p key = Some t"
  shows "store_get L (processor_rotate L r p) key = fate L t"
  using assms by (simp add: rotate_store)

lemma fate_used: "insertCount t \<noteq> 0 \<Longrightarrow> fate L t = Some (rotated L t)"
  by (simp add: fate_def goes_stale_def)

lemma fate_first_idle: "idleEpochs t = 0 \<Longrightarrow> fate L t = Some (rotated L t)"
  by (simp add: fate_def goes_stale_def staleSweepEpochs_def)

lemma fate_second_idle: "insertCount t = 0 \<Longrightarrow> idleEpochs t = 1 \<Longrightarrow> fate L t = None"
  by (simp add: fate_def goes_stale_def staleSweepEpochs_def)

lemma rotated_fields [simp]:
  "insertCount (rotated L t) = 0" "cachedPrev (rotated L t) = cachedCurr t"
  "cachedCurr (rotated L t) = 0" "previous (rotated L t) = current t"
  "current (rotated L t) = mustGetSketch L"
  "idleEpochs (rotated L t) = (if insertCount t = 0 then idleEpochs t + 1 else 0)"
  by (simp_all add: rotated_def tracker_rotate_def Let_def)

lemma requests_shards_ok: "shards_ok p \<Longrightarrow> shards_ok (snd (traverse (request_step L) rs p))"
proof (induction rs arbitrary: p)
  case (Cons q rs)
  then show ?case
    by (cases q) (simp add: request_step_def split_beta Let_def shards_ok_shouldDrop)
qed simp

text \<open>
  A tracker lives as long as its label is used: after an epoch in which it had no value
  it is still there; if the next epoch has none either, the rotation removes it (and a later
  value starts from scratch); if it has one, the tracker survives with its idle count back
  at zero. Requests for other pairs and the order of the map iteration do not matter.
\<close>

lemma idle_for_two_epochs_means_evicted:
  assumes ok: "shards_ok p" and r: "range_ok r" "range_ok r'"
    and t: "store_get L p key = Some t" "idleEpochs t = 0" "insertCount t = 0"
    and hs: "hs = hashes_of L key rs" "length hs < 2 ^ 64"
  defines "p1 \<equiv> snd (traverse (request_step L) rs (processor_rotate L r p))"
  shows "store_get L (processor_rotate L r p) key \<noteq> None \<and>
    (case store_get L (processor_rotate L r' p1) key of
       None \<Rightarrow> hs = []
     | Some t' \<Rightarrow> hs \<noteq> [] \<and> idleEpochs t' = 0 \<and> insertCount t' = 0)"
proof -
  have ok1: "shards_ok (processor_rotate L r p)" using ok r(1) by (rule rotate_shards_ok)
  have get1: "store_get L (processor_rotate L r p) key = Some (rotated L t)"
    by (simp add: rotate_fate [OF ok r(1) t(1)] fate_first_idle t)
  have ok2: "shards_ok p1" unfolding p1_def using ok1 by (rule requests_shards_ok)
  have get2: "store_get L p1 key = Some (insert_all L hs (rotated L t))"
    unfolding p1_def hs(1) using ok1 get1 by (rule tracker_own_values)
  note get3 = rotate_fate [OF ok2 r(2) get2]
  show ?thesis
  proof (cases "hs = []")
    case True
    with get1 get3 t show ?thesis by (simp add: insert_all_def fate_second_idle)
  next
    case False
    with hs(2) have "insertCount (insert_all L hs (rotated L t)) \<noteq> 0"
      using of_nat_u64_inj [of "length hs" 0] by (auto simp: insert_all_count)
    with False get1 get3 show ?thesis by (simp add: fate_used)
  qed
qed

section \<open>Witnesses\<close>

lemma range_ok_rev: "range_ok rev"
  by (simp add: range_ok_def)

theorem rotate_sends_trackers_to_their_fate_witness:
  "store_get ref_lib (processor_rotate ref_lib rev demo_tracked) (TrackerKey ''m'' ''k'') =
     Some (snd (tracker_rotate (mustGetSketch ref_lib) (newTracker ref_lib)))"
  unfolding rotate_sends_trackers_to_their_fate [OF demo_tracked_facts(1) range_ok_rev]
    demo_tracked_facts(3)
  by (simp add: newTracker_def)

section \<open>What a rotation logs\<close>

definition summary_line :: "'sk processor \<Rightarrow> log_event list" where
  "summary_line p =
     (if 0 < sint (dropsThisEpoch p - dropLogCount p)
      then [LogSuppressed (dropsThisEpoch p - dropLogCount p) (dropsThisEpoch p)] else [])"

definition eviction_line :: "log_event \<Rightarrow> bool" where
  "eviction_line e = (case e of LogEvicted n \<Rightarrow> True | _ \<Rightarrow> False)"

definition offender_line :: "log_event \<Rightarrow> bool" where
  "offender_line e = (case e of LogTopOffender m l d \<Rightarrow> True | _ \<Rightarrow> False)"

lemma publish_logs:
  "\<exists>t. logs (publishTopOffenders buf p) = logs p @ t \<and> list_all offender_line t"
  by (auto simp: publishTopOffenders_def emit_def Let_def offender_line_def intro: exI [of _ "[]"])

lemma rotate_logs:
  "\<exists>ev t. logs (processor_rotate L r p) = logs p @ [LogRotating] @ ev @ summary_line p @ t \<and>
     list_all eviction_line ev \<and> list_all offender_line t"
proof -
  let ?run = "fold (rotate_shard L r (TopOffendersCount (cfg p))) [0..<length (shards p)] (emit LogRotating p, [])"
  have frame: "rotation_frame (emit LogRotating p) (fst ?run)"
    using rotate_shards_prefix [of "length (shards p)" "emit LogRotating p" L r "TopOffendersCount (cfg p)" "[]"]
    by simp
  then obtain ev where ev: "logs (fst ?run) = logs p @ [LogRotating] @ ev" "list_all eviction_line ev"
    and counts: "dropsThisEpoch (fst ?run) = dropsThisEpoch p" "dropLogCount (fst ?run) = dropLogCount p"
    by (auto simp: rotation_frame_def emit_def eviction_line_def [abs_def])
  let ?q = "(fst ?run)\<lparr>rejectionWarned := False, dropsThisEpoch := 0, dropLogCount := 0\<rparr>"
  let ?s = "dropsThisEpoch p - dropLogCount p"
  let ?q' = "if 0 < sint ?s then emit (LogSuppressed ?s (dropsThisEpoch p)) ?q else ?q"
  have run: "processor_rotate L r p = publishTopOffenders (snd ?run) ?q'"
    by (simp add: processor_rotate_def Let_def split_beta counts)
  have "logs ?q' = logs (fst ?run) @ summary_line p"
    by (simp add: emit_def summary_line_def)
  then have "logs ?q' = logs p @ [LogRotating] @ ev @ summary_line p"
    unfolding ev(1) by simp
  moreover obtain t where "logs (processor_rotate L r p) = logs ?q' @ t" "list_all offender_line t"
    using publish_logs [of "snd ?run" ?q'] unfolding run by blast
  ultimately show ?thesis
    using ev(2) by (intro exI [of _ ev] exI [of _ t]) (simp only: append_assoc)
qed

end
