(* ===== verification/Epoch_Invariants.thy ===== *)
theory Epoch_Invariants
  imports Pipeline Rotation
begin

text \<open>
  What batches and rotations together keep about an epoch: which lines the hot path can log,
  the drop lines against the cap and the two counters behind the suppression summary, and
  the idle count of every tracker. Each is a contract of the attribute callback, from which
  the pipeline's contract locale gives it for whole batches.
\<close>

section \<open>Logs of the hot path\<close>

text \<open>The drop lines logged since the last rotation.\<close>

definition drop_line :: "log_event \<Rightarrow> bool" where
  "drop_line e = (case e of LogDropping m k \<Rightarrow> True | _ \<Rightarrow> False)"

definition drop_lines :: "log_event list \<Rightarrow> nat" where
  "drop_lines es = length (filter drop_line (takeWhile (\<lambda>e. e \<noteq> LogRotating) (rev es)))"

lemma drop_lines_snoc [simp]:
  "drop_lines (es @ [e]) =
     (if e = LogRotating then 0 else if drop_line e then Suc (drop_lines es) else drop_lines es)"
  by (simp add: drop_lines_def)

lemma drop_line_simps [simp]:
  "drop_line (LogDropping m k)" "\<not> drop_line (LogTrackerLimit n)" "\<not> drop_line LogRotating"
  "\<not> drop_line (LogStarting s)" "\<not> drop_line LogShuttingDown"
  by (simp_all add: drop_line_def)

lemma drop_lines_other:
  "list_all (\<lambda>e. \<not> drop_line e \<and> e \<noteq> LogRotating) n \<Longrightarrow> drop_lines (es @ n) = drop_lines es"
  by (induction n rule: rev_induct) (auto simp flip: append_assoc)

text \<open>What a batch can log.\<close>

definition hot_line :: "log_event \<Rightarrow> bool" where
  "hot_line e = (case e of LogDropping m k \<Rightarrow> True | LogTrackerLimit n \<Rightarrow> True | _ \<Rightarrow> False)"

definition hot_logs :: "'sk processor \<Rightarrow> 'sk processor \<Rightarrow> bool" where
  "hot_logs p q \<longleftrightarrow> (\<exists>n. logs q = logs p @ n \<and> list_all hot_line n)"

lemma shouldDrop_logs:
  "logs (snd (shouldDrop L m k v p)) = logs p \<or>
   logs (snd (shouldDrop L m k v p)) = logs p @ [LogTrackerLimit (MaxTrackerCount (cfg p))]"
  by (cases rule: obtainTracker_cases [of L p "TrackerKey m k"])
     (simp_all add: shouldDrop_simps decide_on_def reject_tracker_def emit_def Let_def)

lemma judge_logs:
  "logs (snd (judge L m kv p)) = logs p \<or>
   logs (snd (judge L m kv p)) = logs p @ [LogTrackerLimit (MaxTrackerCount (cfg p))]"
  using shouldDrop_logs [of L m "fst kv" "AsString L (snd kv)" p] by (auto simp: judge_def)

lemma hot_logs_refl: "hot_logs p p"
  by (auto simp: hot_logs_def intro: exI [of _ "[]"])

lemma hot_logs_trans: "hot_logs p q \<Longrightarrow> hot_logs q r \<Longrightarrow> hot_logs p r"
  by (force simp: hot_logs_def)

lemma hot_logs_judge: "hot_logs p (snd (judge L m kv p))"
  using judge_logs [of L m kv p]
  by (auto simp: hot_logs_def hot_line_def intro: exI [of _ "[]"])

lemma hot_logs_note: "hot_logs p (note_verdict m mode k d p)"
proof -
  have "logs (note_verdict m mode k d p) = logs p \<or>
      logs (note_verdict m mode k d p) = logs p @ [LogDropping m k]"
    by (simp add: note_verdict_def log_drop_def Let_def emit_def)
  then show ?thesis
    by (auto simp: hot_logs_def hot_line_def intro: exI [of _ "[]"])
qed

interpretation log_contract: processor_contract L hot_logs for L :: "('v, 'x, 'sk) lib"
proof unfold_locales
  fix p :: "'sk processor" and m mode and kv :: "string \<times> 'v" and tag ks
  show "hot_logs p (fst (snd (attr_callback L m mode kv (p, tag, ks))))"
    unfolding callback_processor by (rule hot_logs_trans [OF hot_logs_judge hot_logs_note])
qed (auto intro: hot_logs_refl hot_logs_trans)

section \<open>The log cap\<close>

text \<open>
  With \<open>d\<close> drops in strip mode since the last rotation: both counters hold \<open>d\<close> (the second
  only if a cap is set), and the lines logged since then are \<open>d\<close>, cut at the cap, as long as
  the counter has not reached the sign bit.
\<close>

definition drops_logged :: "nat \<Rightarrow> 'sk processor \<Rightarrow> bool" where
  "drops_logged d p \<longleftrightarrow>
     dropsThisEpoch p = of_nat d \<and>
     dropLogCount p = (if DropLogMaxPerEpoch (cfg p) = 0 then 0 else of_nat d) \<and>
     (d < 2 ^ 63 \<longrightarrow> drop_lines (logs p) =
        (if DropLogMaxPerEpoch (cfg p) = 0 then d
         else min (nat (sint (DropLogMaxPerEpoch (cfg p)))) d))"

lemma drops_logged_same:
  "cfg q = cfg p \<Longrightarrow> dropLogCount q = dropLogCount p \<Longrightarrow> dropsThisEpoch q = dropsThisEpoch p \<Longrightarrow>
   drop_lines (logs q) = drop_lines (logs p) \<Longrightarrow> drops_logged d q = drops_logged d p"
  by (simp only: drops_logged_def)

lemma drops_logged_judge: "drops_logged d (snd (judge L m kv p)) = drops_logged d p"
proof (rule drops_logged_same)
  show "cfg (snd (judge L m kv p)) = cfg p"
    using judge_same_settings [of p L m kv] by (simp add: same_settings_def)
  show "drop_lines (logs (snd (judge L m kv p))) = drop_lines (logs p)"
    using judge_logs [of L m kv p] by auto
qed (simp_all add: judge_def)

lemma drops_logged_log_drop:
  assumes "drops_logged d p"
  shows "drops_logged (Suc d) (log_drop m k (p\<lparr>labelsStripped := n, dropsThisEpoch := dropsThisEpoch p + 1\<rparr>))"
proof -
  let ?cap = "DropLogMaxPerEpoch (cfg p)"
  let ?q = "log_drop m k (p\<lparr>labelsStripped := n, dropsThisEpoch := dropsThisEpoch p + 1\<rparr>)"
  from assms have d: "dropsThisEpoch p = of_nat d"
    and lines: "d < 2 ^ 63 \<Longrightarrow> drop_lines (logs p) = (if ?cap = 0 then d else min (nat (sint ?cap)) d)"
    and count: "dropLogCount p = (if ?cap = 0 then 0 else of_nat d)"
    by (auto simp: drops_logged_def)
  have q: "cfg ?q = cfg p" "dropsThisEpoch ?q = of_nat (Suc d)"
    "dropLogCount ?q = (if ?cap = 0 then 0 else of_nat (Suc d))"
    by (simp_all add: log_drop_def Let_def emit_def count d)
  have "drop_lines (logs ?q) = (if ?cap = 0 then Suc d else min (nat (sint ?cap)) (Suc d))"
    if "Suc d < 2 ^ 63"
  proof (cases "?cap = 0")
    case True
    with lines that show ?thesis by (simp add: log_drop_def emit_def)
  next
    case False
    have "sint (dropLogCount p + 1) = int (Suc d)"
      using that sint_of_nat_i64 [of "Suc d"] False by (simp add: count add.commute)
    with False lines that show ?thesis
      by (auto simp: log_drop_def emit_def Let_def min_def nat_le_iff le_nat_iff)
  qed
  with q show ?thesis unfolding drops_logged_def by auto
qed

lemma drops_logged_note:
  "drops_logged d p \<Longrightarrow>
   drops_logged (d + of_bool (v \<and> mode = EnforcementStripAndReaggregate)) (note_verdict m mode k v p)"
  using drops_logged_log_drop [of d p m k "labelsStripped p + 1"]
    drops_logged_same [of "p\<lparr>labelsStripped := labelsStripped p + 1\<rparr>" p d]
  by (simp add: note_verdict_def Let_def)

lemma drops_logged_rotate: "drops_logged 0 (processor_rotate L r p)"
proof -
  obtain ev t where l: "logs (processor_rotate L r p) = logs p @ [LogRotating] @ ev @ summary_line p @ t"
    "list_all eviction_line ev" "list_all offender_line t"
    using rotate_logs by blast
  have "list_all (\<lambda>e. \<not> drop_line e \<and> e \<noteq> LogRotating) (ev @ summary_line p @ t)"
    using l(2,3) by (auto simp: list_all_iff eviction_line_def offender_line_def summary_line_def
        drop_line_def split: log_event.splits)
  from drop_lines_other [OF this, of "logs p @ [LogRotating]"]
  have "drop_lines (logs (processor_rotate L r p)) = 0" by (simp add: l(1))
  then show ?thesis
    by (simp add: drops_logged_def rotate_settings rotate_fields)
qed

lemma drops_logged_make: "drops_logged 0 (make_processor L c sd)"
  by (simp add: drops_logged_def drop_lines_def)

text \<open>Whatever the number of drops, the two counters agree when a cap is set.\<close>

definition log_inv :: "'sk processor \<Rightarrow> bool" where
  "log_inv p \<longleftrightarrow> dropLogCount p = (if DropLogMaxPerEpoch (cfg p) = 0 then 0 else dropsThisEpoch p)"

lemma log_inv_same:
  "cfg q = cfg p \<Longrightarrow> dropLogCount q = dropLogCount p \<Longrightarrow> dropsThisEpoch q = dropsThisEpoch p \<Longrightarrow>
   log_inv q = log_inv p"
  by (simp only: log_inv_def)

lemma log_inv_judge: "log_inv (snd (judge L m kv p)) = log_inv p"
  using judge_same_settings [of p L m kv]
  by (intro log_inv_same) (simp_all add: same_settings_def, simp_all add: judge_def)

lemma log_inv_note: "log_inv p \<Longrightarrow> log_inv (note_verdict m mode k d p)"
  by (simp add: note_verdict_def Let_def log_inv_def log_drop_def emit_def)

interpretation cap_contract: processor_contract L "\<lambda>p q. log_inv p \<longrightarrow> log_inv q"
  for L :: "('v, 'x, 'sk) lib"
proof unfold_locales
  fix p :: "'sk processor" and m mode and kv :: "string \<times> 'v" and tag ks
  show "log_inv p \<longrightarrow> log_inv (fst (snd (attr_callback L m mode kv (p, tag, ks))))"
    unfolding callback_processor by (simp add: log_inv_judge log_inv_note)
qed auto

lemma log_inv_rotate: "log_inv (processor_rotate L r p)"
  using drops_logged_rotate [of L r p] by (simp add: drops_logged_def log_inv_def)

section \<open>Idle epochs\<close>

definition idle_ok :: "('v, 'x, 'sk) lib \<Rightarrow> 'sk processor \<Rightarrow> bool" where
  "idle_ok L p \<longleftrightarrow> shards_ok p \<and>
     (\<forall>key t. store_get L p key = Some t \<longrightarrow> idleEpochs t = 0 \<or> idleEpochs t = 1)"

lemma idle_ok_core: "core p = core q \<Longrightarrow> idle_ok L p = idle_ok L q"
  using core_store_get [of p q L] by (simp add: idle_ok_def core_def shards_ok_def)

lemma idle_ok_decide_on:
  "idle_ok L p \<Longrightarrow> idleEpochs t = 0 \<or> idleEpochs t = 1 \<Longrightarrow> idle_ok L (snd (decide_on L k h t p))"
  by (simp add: idle_ok_def decide_on_def sharded.ok_put sharded.get_put frame_simps)

lemma idle_ok_shouldDrop:
  assumes ok: "idle_ok L p"
  shows "idle_ok L (snd (shouldDrop L m k v p))"
proof (cases rule: obtainTracker_cases [of L p "TrackerKey m k"])
  case (tracked t)
  with ok show ?thesis
    by (simp add: shouldDrop_simps) (rule idle_ok_decide_on; simp add: idle_ok_def)
next
  case rejected
  with ok show ?thesis by (simp add: shouldDrop_simps idle_ok_core [OF core_reject])
next
  case created
  with ok have "idle_ok L (create_tracker L (TrackerKey m k) p)"
    by (simp add: idle_ok_def create_tracker_ok create_tracker_get newTracker_def)
  with created show ?thesis
    by (simp add: shouldDrop_simps idle_ok_decide_on newTracker_def)
qed

interpretation idle_contract: processor_contract L "\<lambda>p q. idle_ok L p \<longrightarrow> idle_ok L q"
  for L :: "('v, 'x, 'sk) lib"
proof unfold_locales
  fix p :: "'sk processor" and m mode and kv :: "string \<times> 'v" and tag ks
  show "idle_ok L p \<longrightarrow> idle_ok L (fst (snd (attr_callback L m mode kv (p, tag, ks))))"
    unfolding callback_processor idle_ok_core [OF note_verdict_core]
    by (simp add: judge_def idle_ok_shouldDrop)
qed auto

lemma idle_ok_rotate:
  assumes ok: "idle_ok L p" and r: "range_ok r"
  shows "idle_ok L (processor_rotate L r p)"
proof -
  have shards: "shards_ok p" using ok by (simp add: idle_ok_def)
  have "idleEpochs t' = 0 \<or> idleEpochs t' = 1" if "store_get L (processor_rotate L r p) key = Some t'" for key t'
  proof -
    from that obtain t where t: "store_get L p key = Some t" "fate L t = Some t'"
      by (auto simp: rotate_store [OF shards r] bind_eq_Some_conv)
    from ok t(1) have "idleEpochs t = 0 \<or> idleEpochs t = 1" by (simp add: idle_ok_def)
    with t(2) show ?thesis
      by (auto simp: fate_def goes_stale_def staleSweepEpochs_def split: if_splits)
  qed
  then show ?thesis by (simp add: idle_ok_def rotate_shards_ok [OF shards r])
qed

end
