(* ===== verification/Lifecycle.thy ===== *)
theory Lifecycle
  imports Telemetry Epoch_Invariants
begin

text \<open>
  The life of a processor (\<open>processor.go\<close>): \<open>Start\<close> and the rotation goroutine, \<open>Shutdown\<close>, and a
  step relation over batches, ticks and lifecycle calls with its reachable states. The
  invariants of the other components meet here: they hold in every reachable state.
\<close>

section \<open>Start, the ticker goroutine, Shutdown\<close>

text \<open>\<open>time.Duration(seconds) * time.Second\<close>, an \<open>int64\<close> product of nanoseconds.\<close>

definition epoch_duration :: "config \<Rightarrow> i64" where
  "epoch_duration c = EpochDurationSeconds c * 1000000000"

definition Start :: "'sk processor \<Rightarrow> 'sk processor" where
  "Start p =
     (if startOnce p then p
      else (emit (LogStarting (EpochDurationSeconds (cfg p))) p)
             \<lparr>startOnce := True, rotationLoop := LoopLaunched\<rparr>)"

text \<open>The goroutine's first statement: \<open>NewTicker\<close> panics unless the period is positive.\<close>

definition open_ticker :: "'sk processor \<Rightarrow> 'sk processor" where
  "open_ticker p =
     p\<lparr>rotationLoop := (if 0 < sint (epoch_duration (cfg p)) then LoopTicking else LoopPanicked)\<rparr>"

definition Shutdown :: "'sk processor \<Rightarrow> 'sk processor" where
  "Shutdown p0 =
     (let p = emit LogShuttingDown p0;
          p1 = (case telemetry p of
                  Some regs \<Rightarrow> TelemetryBuilder_Shutdown regs p
                | None \<Rightarrow> p)
      in p1\<lparr>ctxCancelled := True\<rparr>)"

section \<open>The step relation\<close>

text \<open>
  Batches, lifecycle calls and the goroutine's steps, each run to its end (theory
  \<open>Concurrency\<close> takes them apart). After cancellation \<open>select\<close> may still pick the ticker, so
  a tick needs no live context. The processor's context is a child of the constructor's: when
  the host cancels that one, it is cancelled too. A panic in the goroutine ends the program:
  nothing follows.
\<close>

inductive lifecycle_step ::
  "('v, 'x, 'sk) lib \<Rightarrow> ('v, 'x, 'n) consumer \<Rightarrow> 'sk processor \<times> 'n \<Rightarrow> 'sk processor \<times> 'n \<Rightarrow> bool"
  for L nextConsumer where
  consume: "rotationLoop p \<noteq> LoopPanicked \<Longrightarrow>
     lifecycle_step L nextConsumer (p, n) (snd (ConsumeMetrics L nextConsumer md (p, n)))"
| start: "rotationLoop p \<noteq> LoopPanicked \<Longrightarrow> lifecycle_step L nextConsumer (p, n) (Start p, n)"
| launch: "rotationLoop p = LoopLaunched \<Longrightarrow>
     lifecycle_step L nextConsumer (p, n) (open_ticker p, n)"
| tick: "rotationLoop p = LoopTicking \<Longrightarrow> range_ok r \<Longrightarrow>
     lifecycle_step L nextConsumer (p, n) (processor_rotate L r p, n)"
| exit: "rotationLoop p = LoopTicking \<Longrightarrow> ctxCancelled p \<Longrightarrow>
     lifecycle_step L nextConsumer (p, n) (p\<lparr>rotationLoop := LoopExited\<rparr>, n)"
| parent_cancel: "rotationLoop p \<noteq> LoopPanicked \<Longrightarrow>
     lifecycle_step L nextConsumer (p, n) (p\<lparr>ctxCancelled := True\<rparr>, n)"
| shutdown: "rotationLoop p \<noteq> LoopPanicked \<Longrightarrow>
     lifecycle_step L nextConsumer (p, n) (Shutdown p, n)"

inductive reachable ::
  "('v, 'x, 'sk) lib \<Rightarrow> ('v, 'x, 'n) consumer \<Rightarrow> config \<Rightarrow> 'sk processor \<Rightarrow> 'n \<Rightarrow> bool"
  for L nextConsumer c where
  constructed: "newCardinalityProcessor L c mt sd = (None, p) \<Longrightarrow>
     reachable L nextConsumer c p n"
| step: "reachable L nextConsumer c p n \<Longrightarrow>
     lifecycle_step L nextConsumer (p, n) (q, n') \<Longrightarrow> reachable L nextConsumer c q n'"

inductive_cases lifecycle_stepE: "lifecycle_step L nextConsumer (p, n) (q, n')"

inductive_simps lifecycle_step_iff: "lifecycle_step L nextConsumer (p, n) (q, n')"

section \<open>The lifecycle invariant\<close>

definition starting_line :: "log_event \<Rightarrow> bool" where
  "starting_line e = (case e of LogStarting s \<Rightarrow> True | _ \<Rightarrow> False)"

definition suppressed_line :: "log_event \<Rightarrow> bool" where
  "suppressed_line e = (case e of LogSuppressed s t \<Rightarrow> True | _ \<Rightarrow> False)"

definition starts :: "'sk processor \<Rightarrow> nat" where
  "starts p = length (filter starting_line (logs p))"

definition summaries :: "'sk processor \<Rightarrow> nat" where
  "summaries p = length (filter suppressed_line (logs p))"

definition loop_inv :: "'sk processor \<Rightarrow> bool" where
  "loop_inv p \<longleftrightarrow>
     starts p = (if startOnce p then 1 else 0) \<and>
     (startOnce p \<longleftrightarrow> rotationLoop p \<noteq> LoopNotLaunched) \<and>
     (rotationLoop p = LoopTicking \<or> rotationLoop p = LoopExited \<longrightarrow> 0 < sint (epoch_duration (cfg p))) \<and>
     (rotationLoop p = LoopPanicked \<longrightarrow> sint (epoch_duration (cfg p)) \<le> 0)"

definition summary_inv :: "'sk processor \<Rightarrow> bool" where
  "summary_inv p \<longleftrightarrow> DropLogMaxPerEpoch (cfg p) = 0 \<or> summaries p = 0"

definition life_inv :: "('v, 'x, 'sk) lib \<Rightarrow> config \<Rightarrow> 'sk processor \<Rightarrow> bool" where
  "life_inv L c p \<longleftrightarrow> tracker_inv p \<and> cfg p = c \<and> log_inv p \<and> idle_ok L p \<and> loop_inv p \<and> summary_inv p"

lemma hot_line_not: "hot_line e \<Longrightarrow> \<not> starting_line e \<and> \<not> suppressed_line e"
  by (simp add: hot_line_def starting_line_def suppressed_line_def split: log_event.splits)

lemma hot_logs_counts:
  assumes "hot_logs p q"
  shows "starts q = starts p" and "summaries q = summaries p"
proof -
  obtain n where n: "logs q = logs p @ n" "list_all hot_line n"
    using assms by (auto simp: hot_logs_def)
  then have "filter starting_line n = []" "filter suppressed_line n = []"
    using hot_line_not by (auto simp: filter_empty_conv list_all_iff)
  with n(1) show "starts q = starts p" "summaries q = summaries p"
    by (simp_all add: starts_def summaries_def)
qed

lemma loop_inv_same:
  "starts q = starts p \<Longrightarrow> startOnce q = startOnce p \<Longrightarrow> rotationLoop q = rotationLoop p \<Longrightarrow>
   cfg q = cfg p \<Longrightarrow> loop_inv q = loop_inv p"
  by (simp only: loop_inv_def)

lemma life_inv_consume:
  assumes inv: "life_inv L c p"
  shows "life_inv L c (fst (snd (ConsumeMetrics L nxt md (p, n))))"
proof -
  let ?q = "fst (snd (ConsumeMetrics L nxt md (p, n)))"
  have s: "same_settings p ?q" by (rule settings_contract.consume_R)
  have h: "hot_logs p ?q" by (rule log_contract.consume_R)
  have "loop_inv ?q = loop_inv p"
    using s hot_logs_counts [OF h] by (intro loop_inv_same) (simp_all add: same_settings_def)
  moreover have "summary_inv ?q = summary_inv p"
    using s hot_logs_counts [OF h] by (simp add: summary_inv_def same_settings_def)
  moreover have "tracker_inv ?q" "log_inv ?q" "idle_ok L ?q"
    using inv tracker_contract.consume_R [of p L nxt md n] cap_contract.consume_R [of p L nxt md n]
      idle_contract.consume_R [of L p nxt md n] by (simp_all add: life_inv_def)
  ultimately show ?thesis using inv s by (simp add: life_inv_def same_settings_def)
qed

lemma rotate_counts:
  "starts (processor_rotate L r p) = starts p"
  "summaries (processor_rotate L r p) = summaries p + length (summary_line p)"
proof -
  obtain ev t where l: "logs (processor_rotate L r p) = logs p @ [LogRotating] @ ev @ summary_line p @ t"
    "list_all eviction_line ev" "list_all offender_line t"
    using rotate_logs by blast
  have "filter starting_line ev = []" "filter starting_line t = []"
    "filter suppressed_line ev = []" "filter suppressed_line t = []"
    using l(2,3) by (auto simp: filter_empty_conv list_all_iff eviction_line_def offender_line_def
        starting_line_def suppressed_line_def split: log_event.splits)
  then show "starts (processor_rotate L r p) = starts p"
    "summaries (processor_rotate L r p) = summaries p + length (summary_line p)"
    by (simp_all add: starts_def summaries_def l(1) summary_line_def starting_line_def suppressed_line_def)
qed

lemma no_summary_with_cap:
  "log_inv p \<Longrightarrow> DropLogMaxPerEpoch (cfg p) \<noteq> 0 \<Longrightarrow> summary_line p = []"
  by (simp add: log_inv_def summary_line_def)

lemma life_inv_rotate:
  assumes inv: "life_inv L c p" and r: "range_ok r"
  shows "life_inv L c (processor_rotate L r p)"
proof -
  have "loop_inv (processor_rotate L r p) = loop_inv p"
    by (intro loop_inv_same) (simp_all add: rotate_counts rotate_settings)
  moreover have "summary_inv (processor_rotate L r p)"
    using inv no_summary_with_cap [of p]
    by (auto simp: life_inv_def summary_inv_def rotate_counts rotate_settings)
  moreover have "idle_ok L (processor_rotate L r p)" "tracker_inv (processor_rotate L r p)"
    using inv r by (simp_all add: life_inv_def idle_ok_rotate rotate_keeps_inv)
  ultimately show ?thesis
    using inv log_inv_rotate [of L r p] by (simp add: life_inv_def rotate_settings)
qed

text \<open>The lifecycle calls change only lifecycle fields and the log.\<close>

lemma life_inv_frame:
  assumes inv: "life_inv L c p" and core: "core q = core p"
    and counters: "dropLogCount q = dropLogCount p" "dropsThisEpoch q = dropsThisEpoch p"
    and lines: "summaries q = summaries p"
    and loop: "loop_inv q"
  shows "life_inv L c q"
proof -
  have cfg: "cfg q = cfg p" using core by (simp add: core_def)
  have "log_inv q"
    using inv log_inv_same [OF cfg counters] by (simp add: life_inv_def)
  then show ?thesis
    using inv loop lines cfg tracker_inv_core [OF core] idle_ok_core [OF core, of L]
    by (auto simp: life_inv_def summary_inv_def)
qed

lemma Start_frame:
  "core (Start p) = core p" "dropLogCount (Start p) = dropLogCount p"
  "dropsThisEpoch (Start p) = dropsThisEpoch p"
  "summaries (Start p) = summaries p"
  by (simp_all add: Start_def core_def emit_def summaries_def suppressed_line_def)

lemma Shutdown_frame:
  "core (Shutdown p) = core p" "dropLogCount (Shutdown p) = dropLogCount p"
  "dropsThisEpoch (Shutdown p) = dropsThisEpoch p"
  "summaries (Shutdown p) = summaries p" "starts (Shutdown p) = starts p"
  "startOnce (Shutdown p) = startOnce p" "rotationLoop (Shutdown p) = rotationLoop p"
  "cfg (Shutdown p) = cfg p"
  by (auto simp: Shutdown_def TelemetryBuilder_Shutdown_def core_def emit_def summaries_def
      suppressed_line_def starts_def starting_line_def Let_def split: option.split)

lemma loop_inv_Start: "loop_inv p \<Longrightarrow> loop_inv (Start p)"
  by (auto simp: loop_inv_def Start_def starts_def starting_line_def emit_def)

lemma life_inv_Start:
  assumes "life_inv L c p"
  shows "life_inv L c (Start p)"
proof (rule life_inv_frame [OF assms])
  from assms have "loop_inv p" by (simp add: life_inv_def)
  then show "loop_inv (Start p)" by (rule loop_inv_Start)
qed (simp_all add: Start_frame)

lemma life_inv_Shutdown:
  assumes "life_inv L c p"
  shows "life_inv L c (Shutdown p)"
proof (rule life_inv_frame [OF assms])
  have "loop_inv (Shutdown p) = loop_inv p"
    by (rule loop_inv_same) (simp_all add: Shutdown_frame)
  with assms show "loop_inv (Shutdown p)" by (simp add: life_inv_def)
qed (simp_all add: Shutdown_frame)

lemma life_inv_rotationLoop:
  assumes "life_inv L c p" and "loop_inv (p\<lparr>rotationLoop := l\<rparr>)"
  shows "life_inv L c (p\<lparr>rotationLoop := l\<rparr>)"
  by (rule life_inv_frame [OF assms(1)]) (use assms(2) in \<open>simp_all add: core_def summaries_def\<close>)

lemma life_inv_open_ticker:
  "life_inv L c p \<Longrightarrow> rotationLoop p = LoopLaunched \<Longrightarrow> life_inv L c (open_ticker p)"
  unfolding open_ticker_def
  by (rule life_inv_rotationLoop) (auto simp: life_inv_def loop_inv_def starts_def)

lemma life_inv_exit:
  "life_inv L c p \<Longrightarrow> rotationLoop p = LoopTicking \<Longrightarrow> life_inv L c (p\<lparr>rotationLoop := LoopExited\<rparr>)"
  by (rule life_inv_rotationLoop) (auto simp: life_inv_def loop_inv_def starts_def)

lemma life_inv_cancel: "life_inv L c p \<Longrightarrow> life_inv L c (p\<lparr>ctxCancelled := True\<rparr>)"
  by (rule life_inv_frame) (auto simp: core_def summaries_def life_inv_def loop_inv_def starts_def)

lemma life_inv_constructed:
  assumes "newCardinalityProcessor L c mt sd = (None, p)"
  shows "life_inv L c p"
proof -
  let ?p0 = "make_processor L c sd"
  have shape: "\<exists>cb tel. p = ?p0\<lparr>sdkCallbacks := cb, telemetry := tel\<rparr>"
  proof -
    have "p = snd (newCardinalityProcessor L c mt sd)" using assms by simp
    moreover have "?p0 = ?p0\<lparr>sdkCallbacks := sdkCallbacks ?p0, telemetry := telemetry ?p0\<rparr>" by simp
    ultimately show ?thesis unfolding constructor_result by metis
  qed
  then have core: "core p = core ?p0" and fields: "dropLogCount p = 0" "dropsThisEpoch p = 0"
    "logs p = []" "startOnce p = False" "rotationLoop p = LoopNotLaunched"
    by (auto simp: core_def)
  have log0: "log_inv ?p0" by (simp add: log_inv_def)
  have "life_inv L c ?p0"
    using log0 by (simp add: life_inv_def idle_ok_def loop_inv_def summary_inv_def starts_def summaries_def)
  then show ?thesis
    by (rule life_inv_frame) (use core fields in \<open>simp_all add: loop_inv_def starts_def summaries_def\<close>)
qed

lemma life_inv_step:
  assumes step: "lifecycle_step L nxt (p, n) (q, n')" and inv: "life_inv L c p"
  shows "life_inv L c q"
  using step
proof cases
  case (consume md)
  then show ?thesis using life_inv_consume [OF inv, of nxt md n] by (metis fst_conv)
qed (use inv in \<open>auto intro: life_inv_Start life_inv_open_ticker life_inv_rotate life_inv_exit life_inv_cancel life_inv_Shutdown\<close>)

lemma reachable_life_inv: "reachable L nxt c p n \<Longrightarrow> life_inv L c p"
  by (induction rule: reachable.induct) (blast intro: life_inv_constructed life_inv_step)+

text \<open>
  The callbacks stay registered until a shutdown unregisters all of them (cancelling the
  parent context does not).
\<close>

definition telemetry_inv :: "'sk processor \<Rightarrow> bool" where
  "telemetry_inv p \<longleftrightarrow> telemetry p = Some callback_order \<and>
     (sdkCallbacks p = callback_order \<or> sdkCallbacks p = [] \<and> ctxCancelled p)"

lemma unregister_all: "fold remove1 callback_order callback_order = []"
  "fold remove1 callback_order [] = []"
  by (simp_all add: callback_order_def)

lemma telemetry_inv_Shutdown:
  "telemetry_inv p \<Longrightarrow> telemetry_inv (Shutdown p) \<and> sdkCallbacks (Shutdown p) = [] \<and> ctxCancelled (Shutdown p)"
  by (auto simp: telemetry_inv_def Shutdown_def TelemetryBuilder_Shutdown_def Let_def emit_def unregister_all
      split: if_splits)

lemma telemetry_inv_same:
  "telemetry q = telemetry p \<Longrightarrow> sdkCallbacks q = sdkCallbacks p \<Longrightarrow> ctxCancelled q = ctxCancelled p \<Longrightarrow>
   telemetry_inv q = telemetry_inv p"
  by (simp only: telemetry_inv_def)

lemma telemetry_inv_consume:
  "telemetry_inv (fst (snd (ConsumeMetrics L nxt md (p, n)))) = telemetry_inv p"
  using settings_contract.consume_R [of p L nxt md n]
  by (intro telemetry_inv_same) (simp_all add: same_settings_def)

lemma telemetry_inv_step:
  assumes step: "lifecycle_step L nxt (p, n) (q, n')" and inv: "telemetry_inv p"
  shows "telemetry_inv q"
  using step
proof cases
  case (consume md)
  then show ?thesis using telemetry_inv_consume [of L nxt md p n] inv by (metis fst_conv)
next
  case start
  with inv show ?thesis by (simp add: telemetry_inv_def Start_def emit_def)
next
  case (tick r)
  with inv show ?thesis by (simp add: telemetry_inv_def rotate_settings)
qed (use inv telemetry_inv_Shutdown in \<open>auto simp: telemetry_inv_def open_ticker_def\<close>)

lemma telemetry_inv_constructed:
  assumes "newCardinalityProcessor L c mt sd = (None, p)"
  shows "telemetry_inv p"
proof -
  have ok: "NewTelemetryBuilder mt = None"
    using assms by (auto simp: newCardinalityProcessor_def Let_def split: option.splits)
  then have "fst (register_all mt callback_order (make_processor L c sd\<lparr>telemetry := Some []\<rparr>)) = None"
    using assms by (simp add: newCardinalityProcessor_def Let_def)
  then have "registered mt = callback_order"
    by (simp add: register_all_result registered_def takeWhile_eq_all_conv list_all_iff)
  moreover have "p = snd (newCardinalityProcessor L c mt sd)" using assms by simp
  ultimately show ?thesis
    by (simp add: constructor_result ok telemetry_inv_def make_processor_def)
qed

lemma reachable_telemetry_inv: "reachable L nxt c p n \<Longrightarrow> telemetry_inv p"
  by (induction rule: reachable.induct) (blast intro: telemetry_inv_constructed telemetry_inv_step)+

lemma exited_step:
  "lifecycle_step L nxt (p, n) (q, n') \<Longrightarrow> rotationLoop p = LoopExited \<Longrightarrow> startOnce p \<Longrightarrow>
   rotationLoop q = LoopExited"
proof (cases rule: lifecycle_stepE [of L nxt p n q n'])
  case (2 md)
  assume loop: "rotationLoop p = LoopExited"
  have "same_settings p (fst (snd (ConsumeMetrics L nxt md (p, n))))" by (rule settings_contract.consume_R)
  with 2 loop show ?thesis by (metis fst_conv same_settings_def)
qed (auto simp: Start_def Shutdown_frame)

section \<open>Properties\<close>

text \<open>
  As long as calls do not overlap, the number of trackers is within the configured budget, and
  the active-trackers gauge, which counts the entries of the shards, reports what the atomic
  counter holds. (Theory \<open>Concurrency\<close> has what holds when they do.)
\<close>

lemma reachable_states_respect_the_budget:
  assumes "reachable L nextConsumer c p n"
  shows "(sint (MaxTrackerCount c) \<le> 0 \<or> int (total_trackers p) \<le> sint (MaxTrackerCount c)) \<and>
    observe_trackers_active p = trackerCount p \<and> trackerCount p = of_nat (total_trackers p)"
  using reachable_life_inv [OF assms]
  by (auto simp: life_inv_def tracker_inv_def observe_active_total)

text \<open>
  The rotation goroutine is launched at most once, however often \<open>Start\<close> is called; it is
  running, exited or crashed only if \<open>Start\<close> was called, and a second call changes nothing.
\<close>

lemma rotation_goroutine_launched_once:
  assumes "reachable L nextConsumer c p n"
  shows "starts p \<le> 1 \<and> (starts p = 1) = (rotationLoop p \<noteq> LoopNotLaunched) \<and>
    starts (Start p) = 1 \<and> Start (Start p) = Start p"
  using reachable_life_inv [OF assms]
  by (auto simp: life_inv_def loop_inv_def Start_def starts_def starting_line_def emit_def)

lemma epoch_duration_positive:
  assumes "10 \<le> sint (EpochDurationSeconds c)" and "sint (EpochDurationSeconds c) \<le> 9223372036"
  shows "0 < sint (epoch_duration c)"
proof -
  have "sint (epoch_duration c) = sint (EpochDurationSeconds c) * 1000000000"
    using assms by (simp add: epoch_duration_def sint_word_ariths signed_take_bit_int_eq_self)
  with assms show ?thesis by simp
qed

text \<open>
  With a validated configuration and an epoch of at most 9223372036 seconds (the largest
  whose nanoseconds fit an \<open>int64\<close>) the ticker is always created: no reachable state has
  the goroutine crashed.
\<close>

lemma validated_epochs_do_not_crash:
  assumes "reachable L nextConsumer c p n" and "Validate L c = None"
    and "sint (EpochDurationSeconds c) \<le> 9223372036"
  shows "rotationLoop p \<noteq> LoopPanicked"
  using reachable_life_inv [OF assms(1)]
    epoch_duration_positive [OF Validate_None_cases(2) [OF assms(2)] assms(3)]
  by (auto simp: life_inv_def loop_inv_def)

text \<open>
  C32. In every life in which calls do not overlap the suppression summary is wrong: with a cap,
  under which lines are suppressed, no log contains it, because the counter it subtracts
  counts the suppressed lines too; without a cap, when every drop was logged, a rotation
  after any drop reports all of them as suppressed. (What overlapping calls add to it is in
  theory \<open>Concurrent_Counters\<close>.)
\<close>

theorem suppression_summary_is_wrong:
  assumes "reachable L nextConsumer c p n"
  shows "if DropLogMaxPerEpoch c = 0
    then sint (dropsThisEpoch p) \<le> 0 \<or>
      LogSuppressed (dropsThisEpoch p) (dropsThisEpoch p) \<in> set (logs (processor_rotate L r p))
    else list_all (\<lambda>e. \<not> suppressed_line e) (logs p)"
proof -
  have inv: "log_inv p" "cfg p = c" "summary_inv p"
    using reachable_life_inv [OF assms] by (simp_all add: life_inv_def)
  show ?thesis
  proof (cases "DropLogMaxPerEpoch c = 0")
    case True
    obtain ev t where "logs (processor_rotate L r p) = logs p @ [LogRotating] @ ev @ summary_line p @ t"
      using rotate_logs by blast
    with True inv show ?thesis by (auto simp: log_inv_def summary_line_def)
  next
    case False
    with inv show ?thesis by (auto simp: summary_inv_def summaries_def filter_empty_conv list_all_iff)
  qed
qed

text \<open>
  C19. In every reachable state a rotation evicts a tracker exactly when the epoch that ends is
  its second in a row without a value: idle counts never pass one, and the survivors' counts
  follow.
\<close>

theorem eviction_exactly_after_second_idle_epoch:
  assumes "reachable L nextConsumer c p n" and r: "range_ok r"
    and "store_get L p key = Some t"
  shows "(idleEpochs t = 0 \<or> idleEpochs t = 1) \<and>
    (case store_get L (processor_rotate L r p) key of
       None \<Rightarrow> insertCount t = 0 \<and> idleEpochs t = 1
     | Some t' \<Rightarrow> (insertCount t \<noteq> 0 \<or> idleEpochs t = 0) \<and>
         idleEpochs t' = (if insertCount t = 0 then 1 else 0))"
proof -
  have ok: "idle_ok L p" using reachable_life_inv [OF assms(1)] by (simp add: life_inv_def)
  then have idle: "idleEpochs t = 0 \<or> idleEpochs t = 1" using assms(3) by (simp add: idle_ok_def)
  have "store_get L (processor_rotate L r p) key = fate L t"
    using ok r assms(3) by (intro rotate_fate) (simp_all add: idle_ok_def)
  with idle show ?thesis
    by (cases "insertCount t = 0") (auto simp: fate_used fate_first_idle fate_second_idle)
qed

text \<open>
  C33. Shutdown releases what construction acquired: in every reachable state (also after an
  earlier shutdown or a cancelled parent) it leaves no callback in the metric SDK, so that a
  collection observes nothing, and a cancelled context, with which a ticking goroutine can
  exit.
\<close>

theorem shutdown_releases_everything:
  assumes "reachable L nextConsumer c p n"
  shows "sdkCallbacks (Shutdown p) = [] \<and> collect L F (Shutdown p) = [] \<and> ctxCancelled (Shutdown p) \<and>
    (rotationLoop p \<noteq> LoopTicking \<or>
     lifecycle_step L nextConsumer (Shutdown p, n) ((Shutdown p)\<lparr>rotationLoop := LoopExited\<rparr>, n))"
  using telemetry_inv_Shutdown [OF reachable_telemetry_inv [OF assms]]
  by (auto simp: Shutdown_frame collect_def intro: lifecycle_step.exit)

text \<open>
  What a collection shows: as long as the context is live, every reachable state reports
  exactly its number of trackers, its two counters, the savings computed from the first of
  them and the offenders of the last rotation, each under its own instrument.
\<close>

lemma collection_reports_the_state:
  assumes "reachable L nextConsumer c p n" and "\<not> ctxCancelled p"
  shows "collect L F p =
    [ObserveInt64 TrackersActive (of_nat (total_trackers p)) [],
     ObserveInt64 LabelsStripped (labelsStripped p) [],
     ObserveFloat64 SavingsEstimated (observe_savings L F p),
     ObserveInt64 TrackersRejected (trackersRejected p) []] @
    map (\<lambda>e. ObserveInt64 TopOffenders (oe_delta e)
      [(''metric_name'', oe_metricName e), (''label_key'', oe_labelKey e)]) (topOffenders p)"
proof -
  have "sdkCallbacks p = callback_order"
    using reachable_telemetry_inv [OF assms(1)] assms(2) by (simp add: telemetry_inv_def)
  then show ?thesis
    by (simp add: collect_def callback_order_def observe_top_offenders_def observe_active_total
        observerInt64_Observe_def observerFloat64_Observe_def)
qed

text \<open>
  Rotation never resumes: once the goroutine has exited, which it also does when only the
  parent context was cancelled, no later call brings it back, although batches are still
  accepted; the epoch then never ends.
\<close>

lemma rotation_never_resumes:
  assumes "reachable L nextConsumer c p n" and "rotationLoop p = LoopExited"
    and "(lifecycle_step L nextConsumer)\<^sup>*\<^sup>* (p, n) (q, n')"
  shows "rotationLoop q = LoopExited \<and>
    (\<forall>md. (lifecycle_step L nextConsumer)\<^sup>*\<^sup>* (p, n) (snd (ConsumeMetrics L nextConsumer md (q, n'))))"
proof -
  have "reachable L nextConsumer c q n' \<and> rotationLoop q = LoopExited"
    using assms(3)
  proof (induction rule: rtranclp_induct2)
    case refl
    with assms show ?case by simp
  next
    case (step q n1 q' n2)
    then have "startOnce q"
      using reachable_life_inv [of L nextConsumer c q n1] by (simp add: life_inv_def loop_inv_def)
    then have "rotationLoop q' = LoopExited"
      using exited_step [OF step.hyps(2)] step.IH by simp
    then show ?case using step.IH reachable.step [OF _ step.hyps(2)] by blast
  qed
  moreover from this
  have "lifecycle_step L nextConsumer (q, n') (snd (ConsumeMetrics L nextConsumer md (q, n')))" for md
    by (intro lifecycle_step.consume) simp
  from rtranclp.rtrancl_into_rtrancl [OF assms(3) this]
  have "(lifecycle_step L nextConsumer)\<^sup>*\<^sup>* (p, n) (snd (ConsumeMetrics L nextConsumer md (q, n')))" for md .
  ultimately show ?thesis by blast
qed

text \<open>
  What the factory registers works: with an SDK that refuses nothing, its default
  configuration is valid, its constructor gives a processor in strip mode for it, and the
  goroutine of the started processor gets its ticker, of 300 seconds.
\<close>

lemma factory_default_runs:
  assumes "newInstrument mt = (\<lambda>_. None)" and "registerCallback mt = (\<lambda>_. None)"
  shows "Validate L (fa_createDefaultConfig (NewFactory L)) = None \<and>
    (\<exists>p. fa_createMetrics (NewFactory L) (Some (fa_createDefaultConfig (NewFactory L))) mt sd = (None, Some p) \<and>
      enforcementMode p = EnforcementStripAndReaggregate \<and>
      rotationLoop (open_ticker (Start p)) = LoopTicking \<and>
      epoch_duration (cfg p) = 300 * 1000000000)"
proof -
  define p where "p = snd (newCardinalityProcessor L createDefaultConfig mt sd)"
  have new: "newCardinalityProcessor L createDefaultConfig mt sd = (None, p)"
    unfolding p_def
    by (rule constructor_ok) (simp_all add: assms NewTelemetryBuilder_def List.map_filter_def)
  have fields: "cfg p = createDefaultConfig" "startOnce p = False"
      "enforcementMode p = EnforcementStripAndReaggregate"
    by (simp_all add: p_def constructor_result default_config_mode)
  have "0 < sint (epoch_duration createDefaultConfig)" by code_simp
  then have "rotationLoop (open_ticker (Start p)) = LoopTicking"
    by (simp add: open_ticker_def Start_def fields emit_def)
  moreover have "createMetricsProcessor L (Some createDefaultConfig) mt sd = (None, Some p)"
    by (simp add: createMetricsProcessor_def new)
  moreover have "epoch_duration (cfg p) = 300 * 1000000000"
    by (simp add: epoch_duration_def createDefaultConfig_def fields)
  ultimately show ?thesis
    using fields(3) default_config_valid [of L] unfolding NewFactory_def by auto
qed

section \<open>Witnesses\<close>

text \<open>A sink, and the processor the constructor builds on it.\<close>

definition sink :: "(string, nat, unit) consumer" where
  "sink md n = (None, n)"

definition built :: "config \<Rightarrow> u64 list processor" where
  "built c = snd (newCardinalityProcessor ref_lib c good_meter 7)"

lemma built_ok: "newCardinalityProcessor ref_lib c good_meter 7 = (None, built c)"
proof -
  have "fst (newCardinalityProcessor ref_lib c good_meter 7) = None"
    by (simp add: newCardinalityProcessor_def NewTelemetryBuilder_def good_meter_def Let_def
        List.map_filter_def register_all_result list_all_iff)
  then show ?thesis by (simp add: built_def prod_eq_iff)
qed

lemma built_reachable: "reachable ref_lib sink c (built c) ()"
  by (rule reachable.constructed [OF built_ok])

lemma built_fields:
  "rotationLoop (built c) = LoopNotLaunched" "cfg (built c) = c" "startOnce (built c) = False"
  using reachable_life_inv [OF built_reachable [of c]]
  by (simp_all add: built_def constructor_result life_inv_def)

text \<open>After \<open>Start\<close> and the creation of the ticker.\<close>

lemma started_reachable: "reachable ref_lib sink c (Start (built c)) ()"
  by (rule reachable.step [OF built_reachable], rule lifecycle_step.start) (simp add: built_fields)

lemma started_loop: "rotationLoop (Start (built c)) = LoopLaunched" "cfg (Start (built c)) = c"
  by (simp_all add: Start_def built_fields emit_def)

lemma ticking_reachable: "reachable ref_lib sink c (open_ticker (Start (built c))) ()"
  by (rule reachable.step [OF started_reachable], rule lifecycle_step.launch) (simp add: started_loop)

lemma ticking_loop:
  "rotationLoop (open_ticker (Start (built c))) =
     (if 0 < sint (epoch_duration c) then LoopTicking else LoopPanicked)"
  by (simp add: open_ticker_def started_loop)

text \<open>
  C38. The configuration check lets an epoch through that crashes the collector: an epoch of
  9223372037 seconds is validated, its nanoseconds wrap to a negative duration, and the
  state with the crashed goroutine is reachable.
\<close>

theorem validated_epoch_can_crash:
  "Validate ref_lib (createDefaultConfig\<lparr>EpochDurationSeconds := 9223372037\<rparr>) = None \<and>
   (\<exists>p. reachable ref_lib sink (createDefaultConfig\<lparr>EpochDurationSeconds := 9223372037\<rparr>) p () \<and>
        rotationLoop p = LoopPanicked)"
proof -
  let ?c = "createDefaultConfig\<lparr>EpochDurationSeconds := 9223372037\<rparr>"
  have "Validate ref_lib ?c = None" by code_simp
  moreover have "\<not> 0 < sint (epoch_duration ?c)" by code_simp
  ultimately show ?thesis using ticking_reachable [of ?c] ticking_loop [of ?c] by auto
qed

text \<open>A batch that makes a strip-mode processor with a log cap of one drop two attributes.\<close>

definition capped_config :: config where
  "capped_config = createDefaultConfig\<lparr>MaxCardinalityDeltaPerEpoch := 1, DropLogMaxPerEpoch := 1\<rparr>"

definition demo_batch :: "(string, nat) batch" where
  "demo_batch = [\<lparr>rm_resource = [], rm_scopes =
     [\<lparr>sm_scope = [], sm_metrics = [demo_metric (Gauge demo_points)]\<rparr>]\<rparr>]"

definition after_batch :: "config \<Rightarrow> u64 list processor" where
  "after_batch c = fst (snd (ConsumeMetrics ref_lib sink demo_batch (built c, ())))"

lemma after_batch_reachable: "reachable ref_lib sink c (after_batch c) ()"
proof (rule reachable.step [OF built_reachable])
  have "lifecycle_step ref_lib sink (built c, ()) (snd (ConsumeMetrics ref_lib sink demo_batch (built c, ())))"
    by (rule lifecycle_step.consume) (simp add: built_fields)
  then show "lifecycle_step ref_lib sink (built c, ()) (after_batch c, ())"
    by (simp add: after_batch_def ConsumeMetrics_def sink_def split_beta Let_def)
qed

theorem suppression_summary_is_wrong_witness:
  "list_all (\<lambda>e. \<not> suppressed_line e) (logs (after_batch capped_config)) \<and>
   LogSuppressed 2 2 \<in> set (logs (processor_rotate ref_lib rev (after_batch (capped_config\<lparr>DropLogMaxPerEpoch := 0\<rparr>))))"
proof -
  let ?c0 = "capped_config\<lparr>DropLogMaxPerEpoch := 0\<rparr>"
  have drops: "dropsThisEpoch (after_batch ?c0) = 2" by code_simp
  have "list_all (\<lambda>e. \<not> suppressed_line e) (logs (after_batch capped_config))"
    using suppression_summary_is_wrong [OF after_batch_reachable [of capped_config]]
    by (simp add: capped_config_def)
  moreover have "LogSuppressed 2 2 \<in> set (logs (processor_rotate ref_lib rev (after_batch ?c0)))"
    using suppression_summary_is_wrong [OF after_batch_reachable [of ?c0], of rev]
    by (simp add: drops)
  ultimately show ?thesis by blast
qed

theorem eviction_exactly_after_second_idle_epoch_witness:
  "\<exists>t'. store_get ref_lib (processor_rotate ref_lib rev (after_batch capped_config)) (TrackerKey ''m'' ''k'') = Some t' \<and>
     idleEpochs t' = 0"
proof -
  obtain t where t: "store_get ref_lib (after_batch capped_config) (TrackerKey ''m'' ''k'') = Some t"
    and used: "insertCount t = 3"
  proof -
    have "map_option insertCount (store_get ref_lib (after_batch capped_config) (TrackerKey ''m'' ''k'')) = Some 3"
      by code_simp
    with that show thesis by auto
  qed
  show ?thesis
    using eviction_exactly_after_second_idle_epoch [OF after_batch_reachable range_ok_rev t]
    by (simp add: used split: option.splits)
qed

theorem shutdown_releases_everything_witness:
  "sdkCallbacks (built demo_config) = callback_order \<and> sdkCallbacks (Shutdown (built demo_config)) = []"
  using shutdown_releases_everything [OF built_reachable [of demo_config]]
  by (simp add: built_def constructor_result NewTelemetryBuilder_def good_meter_def
      List.map_filter_def registered_def)

lemma built_live: "\<not> ctxCancelled (built c)"
  by (simp add: built_def constructor_result make_processor_def)

text \<open>A float unit, for which the observed savings do not matter.\<close>

definition demo_float_unit :: float_unit where
  "demo_float_unit = \<lparr>f64_mul = (\<lambda>x y. x * y), f64_div = (\<lambda>x y. x div y), math_Round = id\<rparr>"

text \<open>A parent context that is cancelled while the ticker runs.\<close>

definition abandoned :: "u64 list processor" where
  "abandoned = ((open_ticker (Start (built createDefaultConfig)))\<lparr>ctxCancelled := True\<rparr>)\<lparr>rotationLoop := LoopExited\<rparr>"

lemma abandoned_reachable: "reachable ref_lib sink createDefaultConfig abandoned ()"
proof -
  let ?t = "open_ticker (Start (built createDefaultConfig))"
  have "0 < sint (epoch_duration createDefaultConfig)" by code_simp
  then have loop: "rotationLoop ?t = LoopTicking" by (simp add: ticking_loop)
  then have "reachable ref_lib sink createDefaultConfig (?t\<lparr>ctxCancelled := True\<rparr>) ()"
    by (intro reachable.step [OF ticking_reachable] lifecycle_step.parent_cancel) simp
  then show ?thesis
    unfolding abandoned_def by (rule reachable.step) (rule lifecycle_step.exit, simp_all add: loop)
qed

end
