(* ===== verification/Offender_Identity.thy ===== *)
theory Offender_Identity
  imports Lifecycle
begin

text \<open>
  A (metric, label) pair is tracked in one shard only, the one of the metric's hash, so no pair
  is published twice among the top offenders. The metric SDK needs this: of two observations
  with the same attributes in one collection it keeps one.
\<close>

section \<open>Every tracker is in its shard\<close>

definition routed :: "('v, 'x, 'sk) lib \<Rightarrow> 'sk processor \<Rightarrow> bool" where
  "routed L p \<longleftrightarrow> shards_ok p \<and> (\<forall>i < length (shards p). \<forall>key \<in> fst ` set (trackers (shards p ! i)).
     getShard L p (key_metricName key) = i)"

lemma routed_core:
  assumes "core p = core q"
  shows "routed L p = routed L q"
proof -
  have "getShard L p = getShard L q" "shards p = shards q"
    using assms by (auto simp: core_def getShard_def fun_eq_iff)
  then show ?thesis by (simp add: routed_def shards_ok_def)
qed

lemma routed_put:
  assumes "routed L p"
  shows "routed L (store_put L k t p)"
proof -
  have ok: "shards_ok (store_put L k t p)" using assms by (simp add: routed_def sharded.ok_put)
  have "getShard L p (key_metricName key) = i"
    if i: "i < length (shards p)"
      and key: "key \<in> fst ` set (trackers (shards (store_put L k t p) ! i))" for i key
  proof (cases "key = k \<and> getShard L p (key_metricName k) = i")
    case True
    then show ?thesis by simp
  next
    case False
    then have "key \<in> fst ` set (trackers (shards p ! i))"
      using key unfolding store_put_def nth_update_shard [OF i]
      by (cases "getShard L p (key_metricName k) = i") (simp_all add: dom_update)
    with assms i show ?thesis by (simp only: routed_def)
  qed
  then have "\<forall>i < length (shards p). \<forall>key \<in> fst ` set (trackers (shards (store_put L k t p) ! i)).
     getShard L p (key_metricName key) = i" by blast
  moreover have "length (shards (store_put L k t p)) = length (shards p)"
    "getShard L (store_put L k t p) = getShard L p"
    by (simp_all add: store_put_def fun_eq_iff)
  ultimately show ?thesis using ok by (simp only: routed_def simp_thms)
qed

lemma routed_decide_on: "routed L p \<Longrightarrow> routed L (snd (decide_on L k h t p))"
  by (simp add: decide_on_def routed_put)

lemma routed_create: "routed L p \<Longrightarrow> routed L (create_tracker L k p)"
proof -
  assume "routed L p"
  then have "routed L (store_put L k (newTracker L) p)" by (rule routed_put)
  then show ?thesis by (simp add: create_tracker_def routed_def shards_ok_def getShard_def)
qed

lemma routed_shouldDrop:
  assumes "routed L p"
  shows "routed L (snd (shouldDrop L m k v p))"
  using assms
  by (cases rule: obtainTracker_cases [of L p "TrackerKey m k"])
     (simp_all add: shouldDrop_simps routed_decide_on routed_create routed_core [OF core_reject])

interpretation routed_contract: processor_contract L "\<lambda>p q. routed L p \<longrightarrow> routed L q"
  for L :: "('v, 'x, 'sk) lib"
proof unfold_locales
  fix p :: "'sk processor" and m mode and kv :: "string \<times> 'v" and tag ks
  show "routed L p \<longrightarrow> routed L (fst (snd (attr_callback L m mode kv (p, tag, ks))))"
    unfolding callback_processor routed_core [OF note_verdict_core]
    by (simp add: judge_def routed_shouldDrop)
qed auto

lemma routed_rotate:
  assumes ok: "routed L p" and r: "range_ok r"
  shows "routed L (processor_rotate L r p)"
proof -
  have shards: "shards_ok p" using ok by (simp add: routed_def)
  have "getShard L p (key_metricName key) = i"
    if i: "i < length (shards p)"
      and key: "key \<in> fst ` set (trackers (shards (processor_rotate L r p) ! i))" for i key
  proof -
    let ?m = "trackers (shards p ! i)"
    have "key \<in> dom (map_of (rotated_shard L r ?m))"
      using key i by (simp add: rotate_shards dom_map_of_conv_image_fst)
    then have "key \<in> dom (map_of ?m)"
      unfolding domIff rotated_shard_spec(2) [OF shards_ok_nth [OF shards i] r]
      by (cases "map_of ?m key") simp_all
    then have "key \<in> fst ` set ?m" by (simp only: dom_map_of_conv_image_fst)
    with ok i show ?thesis by (simp only: routed_def)
  qed
  then show ?thesis
    unfolding routed_def rotate_getShard rotate_shards(1) using rotate_shards_ok [OF shards r] by blast
qed

section \<open>No pair is published twice\<close>

definition pair_of :: "offenderEntry \<Rightarrow> string \<times> string" where
  "pair_of e = (oe_metricName e, oe_labelKey e)"

definition offenders_distinct :: "'sk processor \<Rightarrow> bool" where
  "offenders_distinct p \<longleftrightarrow> distinct (map pair_of (topOffenders p))"

lemma distinct_submset:
  assumes "mset ys \<subseteq># mset xs" and "distinct (map f xs)"
  shows "distinct (map f ys)"
proof -
  have "count (mset (map f ys)) a \<le> 1" for a
  proof -
    have "mset (map f ys) \<subseteq># mset (map f xs)" using assms(1) by (simp add: image_mset_subseteq_mono)
    then have "count (mset (map f ys)) a \<le> count (mset (map f xs)) a"
      by (simp only: subseteq_mset_def)
    also have "\<dots> \<le> 1" using assms(2) by (simp only: distinct_count_atmost_1) simp
    finally show ?thesis .
  qed
  then have "count (mset (map f ys)) a = (if a \<in> set (map f ys) then 1 else 0)" for a
    using count_greater_zero_iff [of "mset (map f ys)" a] not_in_iff [of a "mset (map f ys)"]
    by (metis One_nat_def Suc_leI le_antisym set_mset_mset)
  then show ?thesis by (simp only: distinct_count_atmost_1) blast
qed

lemma epoch_entries_distinct:
  assumes ok: "routed L p" and r: "range_ok r"
  shows "distinct (map fst (epoch_entries r p))"
proof -
  have shards: "shards_ok p" using ok by (simp add: routed_def)
  have set: "set (r m) = set m" for m
    using range_ok_perm [OF r, of m] by (metis set_mset_mset)
  have "distinct (map fst (concat (map (\<lambda>s. r (trackers s)) (take n (shards p)))))" for n
  proof (induction n)
    case 0
    show ?case by simp
  next
    case (Suc n)
    show ?case
    proof (cases "n < length (shards p)")
      case True
      let ?m = "trackers (shards p ! n)"
      have "distinct (map fst (r ?m))"
        using map_of_perm(2) [OF range_ok_perm [OF r] shards_ok_nth [OF shards True]] .
      moreover have "fst e \<noteq> fst e'" if "i < n" "e \<in> set (trackers (shards p ! i))" "e' \<in> set ?m" for i e e'
      proof -
        have "getShard L p (key_metricName (fst e)) = i" "getShard L p (key_metricName (fst e')) = n"
          using ok that True by (auto simp: routed_def)
        with that(1) show ?thesis by auto
      qed
      ultimately show ?thesis
        using Suc True by (fastforce simp: take_Suc_conv_app_nth set in_set_conv_nth)
    next
      case False
      with Suc show ?thesis by simp
    qed
  qed
  from this [of "length (shards p)"] show ?thesis by (simp add: epoch_entries_def)
qed

lemma candidates_distinct:
  assumes "distinct (map fst es)"
  shows "distinct (map pair_of (candidates es))"
proof -
  have "map pair_of (candidates es)
      = map (\<lambda>key. (key_metricName key, key_attrKey key)) (map fst (filter (\<lambda>(key, t). cachedPrev t < cachedCurr t) es))"
    by (auto simp: candidates_def pair_of_def offender_def)
  moreover have "inj (\<lambda>key. (key_metricName key, key_attrKey key))"
    by (auto intro!: injI trackerKey.expand)
  moreover have "distinct (map fst (filter (\<lambda>(key, t). cachedPrev t < cachedCurr t) es))"
    using assms by (simp add: distinct_map_filter)
  ultimately show ?thesis by (simp only: distinct_map) (blast intro: inj_on_subset)
qed

lemma offenders_distinct_rotate:
  assumes ok: "routed L p" and r: "range_ok r" and old: "offenders_distinct p"
  shows "offenders_distinct (processor_rotate L r p)"
proof (cases "0 < sint (TopOffendersCount (cfg p))")
  case True
  let ?buf = "fold (\<lambda>es b. collectShardDeltas es b (TopOffendersCount (cfg p)))
    (map (\<lambda>s. r (trackers s)) (shards p)) []"
  have "mset ?buf \<subseteq># mset (candidates (epoch_entries r p))"
    using collected_offenders_are_top [OF True, of "map (\<lambda>s. r (trackers s)) (shards p)"]
    by (simp only: top_of_def epoch_entries_def)
  then have buf: "distinct (map pair_of ?buf)"
    by (rule distinct_submset) (rule candidates_distinct [OF epoch_entries_distinct [OF ok r]])
  have "distinct (map pair_of (sortOffenders ?buf))"
    by (rule distinct_submset [OF _ buf]) (simp add: sortOffenders_sort_key)
  then show ?thesis
    using old by (simp add: offenders_distinct_def rotate_topOffenders Let_def)
next
  case False
  with old show ?thesis
    by (simp add: offenders_distinct_def rotate_topOffenders Let_def collect_none)
qed

section \<open>Reachable states\<close>

definition identity_inv :: "('v, 'x, 'sk) lib \<Rightarrow> 'sk processor \<Rightarrow> bool" where
  "identity_inv L p \<longleftrightarrow> routed L p \<and> offenders_distinct p"

lemma identity_inv_frame:
  "core q = core p \<Longrightarrow> topOffenders q = topOffenders p \<Longrightarrow> identity_inv L p \<Longrightarrow> identity_inv L q"
  using routed_core [of q p L] by (simp add: identity_inv_def offenders_distinct_def)

lemma identity_inv_step:
  assumes step: "lifecycle_step L nxt (p, n) (q, n')" and inv: "identity_inv L p"
  shows "identity_inv L q"
  using step
proof cases
  case (consume md)
  have "topOffenders (fst (snd (ConsumeMetrics L nxt md (p, n)))) = topOffenders p"
    using settings_contract.consume_R [of p L nxt md n] by (simp add: same_settings_def)
  then have "identity_inv L (fst (snd (ConsumeMetrics L nxt md (p, n))))"
    using inv routed_contract.consume_R [of L p nxt md n]
    by (simp add: identity_inv_def offenders_distinct_def)
  with consume show ?thesis by (metis fst_conv)
next
  case (tick r)
  with inv show ?thesis
    by (simp add: identity_inv_def routed_rotate offenders_distinct_rotate)
next
  case start
  with inv show ?thesis
    by (intro identity_inv_frame [OF _ _ inv]) (simp_all add: Start_frame, simp add: Start_def emit_def)
next
  case shutdown
  moreover have "topOffenders (Shutdown p) = topOffenders p"
    by (auto simp: Shutdown_def TelemetryBuilder_Shutdown_def emit_def Let_def split: option.split)
  ultimately show ?thesis
    by (intro identity_inv_frame [OF _ _ inv]) (simp_all add: Shutdown_frame)
qed (rule identity_inv_frame [OF _ _ inv]; simp add: open_ticker_def core_def)+

lemma identity_inv_constructed:
  assumes "newCardinalityProcessor L c mt sd = (None, p)"
  shows "identity_inv L p"
proof -
  let ?p0 = "make_processor L c sd"
  have ok: "identity_inv L ?p0"
    by (simp add: identity_inv_def routed_def offenders_distinct_def) (simp add: make_processor_def)
  have "p = snd (newCardinalityProcessor L c mt sd)" using assms by simp
  then have "core p = core ?p0" "topOffenders p = topOffenders ?p0"
    by (simp_all add: constructor_result core_def)
  from identity_inv_frame [OF this ok] show ?thesis .
qed

lemma reachable_identity_inv: "reachable L nxt c p n \<Longrightarrow> identity_inv L p"
proof (induction rule: reachable.induct)
  case (constructed mt sd p n)
  then show ?case by (rule identity_inv_constructed)
next
  case (step p n q n')
  from step(2,3) show ?case by (rule identity_inv_step)
qed

end
