(* ===== verification/Metadata.thy ===== *)
theory Metadata
  imports Offender_Identity
begin

text \<open>
  The rest of what \<open>mdatagen\<close> generated: the component's identity (\<open>generated_status.go\<close>, the
  scope name in \<open>generated_telemetry.go\<close>) and the test helpers of \<open>internal/metadatatest\<close>, which
  look a metric up by name in a test reader and compare it with what they expect. The reader
  and the comparison are parameters.
\<close>

section \<open>The component's identity\<close>

definition Type :: string where
  "Type = ''cardinality_guardian''"

definition ScopeName :: string where
  "ScopeName = ''github.com/YElayyat/otel-cardinality-processor/cardinalityprocessor''"

definition MetricsStability :: stability where
  "MetricsStability = StabilityLevelAlpha"

text \<open>The providers the host hands over give a meter and a tracer for a scope.\<close>

record 'tr telemetry_settings =
  MeterProvider_Meter :: "string \<Rightarrow> meter"
  TracerProvider_Tracer :: "string \<Rightarrow> 'tr"

definition Meter :: "'tr telemetry_settings \<Rightarrow> meter" where
  "Meter settings = MeterProvider_Meter settings
     ''github.com/YElayyat/otel-cardinality-processor/cardinalityprocessor''"

definition Tracer :: "'tr telemetry_settings \<Rightarrow> 'tr" where
  "Tracer settings = TracerProvider_Tracer settings
     ''github.com/YElayyat/otel-cardinality-processor/cardinalityprocessor''"

record 'tr processor_settings =
  set_ID :: string
  set_TelemetrySettings :: "'tr telemetry_settings"

section \<open>The test helpers\<close>

text \<open>A metric as the reader returns it; attributes are a set of key-value pairs.\<close>

record 'n data_point =
  dp_Attributes :: "(string \<times> string) set"
  dp_StartTime :: int
  dp_Time :: int
  dp_Value :: 'n

datatype temporality = CumulativeTemporality | DeltaTemporality

datatype aggregation =
    SumInt64 temporality bool "i64 data_point list"
  | SumFloat64 temporality bool "f64 data_point list"
  | GaugeInt64 "i64 data_point list"

record metrics =
  md_Name :: string
  md_Description :: string
  md_Unit :: string
  md_Data :: aggregation

text \<open>
  The telemetry of a test: its settings, the lookup of a metric in a collection, and
  \<open>metricdatatest.AssertEqual\<close> with its options.
\<close>

record ('o, 'tr) test_telemetry =
  NewTelemetrySettings :: "'tr telemetry_settings"
  GetMetric :: "string \<Rightarrow> string + metrics"
  AssertEqual :: "metrics \<Rightarrow> metrics \<Rightarrow> 'o list \<Rightarrow> bool"

datatype test_result = Passed | FailedNow string | Failed

text \<open>\<open>NewNopSettings\<close> of the collector's test package is the first argument.\<close>

definition NewSettings ::
  "'tr processor_settings \<Rightarrow> ('o, 'tr) test_telemetry \<Rightarrow> 'tr processor_settings" where
  "NewSettings nopSettings tt =
     nopSettings\<lparr>set_ID := ''cardinality_guardian'', set_TelemetrySettings := NewTelemetrySettings tt\<rparr>"

definition AssertEqualProcessorCardinalityLabelsStripped ::
  "('o, 'tr) test_telemetry \<Rightarrow> i64 data_point list \<Rightarrow> 'o list \<Rightarrow> test_result" where
  "AssertEqualProcessorCardinalityLabelsStripped tt dps opts =
     (let want = \<lparr>
            md_Name = ''otelcol_processor_cardinality_labels.stripped'',
            md_Description = ''Total number of high-cardinality labels stripped or tagged. [Alpha]'',
            md_Unit = ''{labels}'',
            md_Data = SumInt64 CumulativeTemporality True dps\<rparr>
      in case GetMetric tt ''otelcol_processor_cardinality_labels.stripped'' of
           Inl err \<Rightarrow> FailedNow err
         | Inr got \<Rightarrow> if AssertEqual tt want got opts then Passed else Failed)"

definition AssertEqualProcessorCardinalitySavingsEstimated ::
  "('o, 'tr) test_telemetry \<Rightarrow> f64 data_point list \<Rightarrow> 'o list \<Rightarrow> test_result" where
  "AssertEqualProcessorCardinalitySavingsEstimated tt dps opts =
     (let want = \<lparr>
            md_Name = ''otelcol_processor_cardinality_savings.estimated'',
            md_Description = ''Cumulative estimated dollar value of time-series churn prevented by the processor. [Alpha]'',
            md_Unit = ''{dollars}'',
            md_Data = SumFloat64 CumulativeTemporality True dps\<rparr>
      in case GetMetric tt ''otelcol_processor_cardinality_savings.estimated'' of
           Inl err \<Rightarrow> FailedNow err
         | Inr got \<Rightarrow> if AssertEqual tt want got opts then Passed else Failed)"

definition AssertEqualProcessorCardinalityTopOffenders ::
  "('o, 'tr) test_telemetry \<Rightarrow> i64 data_point list \<Rightarrow> 'o list \<Rightarrow> test_result" where
  "AssertEqualProcessorCardinalityTopOffenders tt dps opts =
     (let want = \<lparr>
            md_Name = ''otelcol_processor_cardinality_top.offenders'',
            md_Description = ''Cardinality delta of the top-N highest-growth (metric, label) pairs from the last epoch rotation. [Alpha]'',
            md_Unit = ''{pairs}'',
            md_Data = GaugeInt64 dps\<rparr>
      in case GetMetric tt ''otelcol_processor_cardinality_top.offenders'' of
           Inl err \<Rightarrow> FailedNow err
         | Inr got \<Rightarrow> if AssertEqual tt want got opts then Passed else Failed)"

definition AssertEqualProcessorCardinalityTrackersActive ::
  "('o, 'tr) test_telemetry \<Rightarrow> i64 data_point list \<Rightarrow> 'o list \<Rightarrow> test_result" where
  "AssertEqualProcessorCardinalityTrackersActive tt dps opts =
     (let want = \<lparr>
            md_Name = ''otelcol_processor_cardinality_trackers.active'',
            md_Description = ''Current number of active cardinality trackers across all shards. [Alpha]'',
            md_Unit = ''{trackers}'',
            md_Data = GaugeInt64 dps\<rparr>
      in case GetMetric tt ''otelcol_processor_cardinality_trackers.active'' of
           Inl err \<Rightarrow> FailedNow err
         | Inr got \<Rightarrow> if AssertEqual tt want got opts then Passed else Failed)"

definition AssertEqualProcessorCardinalityTrackersRejected ::
  "('o, 'tr) test_telemetry \<Rightarrow> i64 data_point list \<Rightarrow> 'o list \<Rightarrow> test_result" where
  "AssertEqualProcessorCardinalityTrackersRejected tt dps opts =
     (let want = \<lparr>
            md_Name = ''otelcol_processor_cardinality_trackers.rejected'',
            md_Description = ''Number of new (metric, label) pairs ignored because max_tracker_count was reached. [Alpha]'',
            md_Unit = ''{trackers}'',
            md_Data = SumInt64 CumulativeTemporality True dps\<rparr>
      in case GetMetric tt ''otelcol_processor_cardinality_trackers.rejected'' of
           Inl err \<Rightarrow> FailedNow err
         | Inr got \<Rightarrow> if AssertEqual tt want got opts then Passed else Failed)"

lemmas helper_defs = AssertEqualProcessorCardinalityLabelsStripped_def
  AssertEqualProcessorCardinalitySavingsEstimated_def AssertEqualProcessorCardinalityTopOffenders_def
  AssertEqualProcessorCardinalityTrackersActive_def AssertEqualProcessorCardinalityTrackersRejected_def

section \<open>What the reader and the comparison promise\<close>

text \<open>The points of an instrument in a collection: attributes and value.\<close>

definition int64_points :: "instrument \<Rightarrow> observation list \<Rightarrow> ((string \<times> string) set \<times> i64) list" where
  "int64_points i obs = List.map_filter (\<lambda>ob. case ob of
     ObserveInt64 j v opts \<Rightarrow> if j = i then Some (set opts, v) else None
   | ObserveFloat64 j v \<Rightarrow> None) obs"

definition float64_points :: "instrument \<Rightarrow> observation list \<Rightarrow> ((string \<times> string) set \<times> f64) list" where
  "float64_points i obs = List.map_filter (\<lambda>ob. case ob of
     ObserveFloat64 j v \<Rightarrow> if j = i then Some ({}, v) else None
   | ObserveInt64 j v opts \<Rightarrow> None) obs"

definition shown :: "'n data_point list \<Rightarrow> ((string \<times> string) set \<times> 'n) multiset" where
  "shown dps = mset (map (\<lambda>dp. (dp_Attributes dp, dp_Value dp)) dps)"

text \<open>
  An instrument that observed nothing is not exported. Points with different attributes all
  are, in any order; nothing is said of points whose attributes are equal.
\<close>

definition exported ::
  "('o, 'tr) test_telemetry \<Rightarrow> instrument_config \<Rightarrow> ('n data_point list \<Rightarrow> aggregation) \<Rightarrow>
   ((string \<times> string) set \<times> 'n) list \<Rightarrow> bool" where
  "exported tt ic data pts \<longleftrightarrow>
     (if pts = [] then \<exists>err. GetMetric tt (ic_name ic) = Inl err
      else distinct (map fst pts) \<longrightarrow>
        (\<exists>dps. shown dps = mset pts \<and> GetMetric tt (ic_name ic) = Inr \<lparr>md_Name = ic_name ic,
           md_Description = ic_description ic, md_Unit = ic_unit ic, md_Data = data dps\<rparr>))"

definition reader_exports :: "('o, 'tr) test_telemetry \<Rightarrow> observation list \<Rightarrow> bool" where
  "reader_exports tt obs \<longleftrightarrow> (\<forall>i. case ic_kind (instrument_of i) of
     Int64ObservableCounter \<Rightarrow>
       exported tt (instrument_of i) (SumInt64 CumulativeTemporality True) (int64_points i obs)
   | Float64ObservableCounter \<Rightarrow>
       exported tt (instrument_of i) (SumFloat64 CumulativeTemporality True) (float64_points i obs)
   | Int64ObservableGauge \<Rightarrow> exported tt (instrument_of i) GaugeInt64 (int64_points i obs))"

text \<open>The comparison with \<open>IgnoreTimestamp\<close> looks at everything but times and the order of points.\<close>

fun same_data :: "aggregation \<Rightarrow> aggregation \<Rightarrow> bool" where
  "same_data (SumInt64 tmp mon dps) (SumInt64 tmp' mon' dps') \<longleftrightarrow>
     tmp = tmp' \<and> mon = mon' \<and> shown dps = shown dps'"
| "same_data (SumFloat64 tmp mon dps) (SumFloat64 tmp' mon' dps') \<longleftrightarrow>
     tmp = tmp' \<and> mon = mon' \<and> shown dps = shown dps'"
| "same_data (GaugeInt64 dps) (GaugeInt64 dps') \<longleftrightarrow> shown dps = shown dps'"
| "same_data _ _ \<longleftrightarrow> False"

definition ignores_timestamps :: "('o, 'tr) test_telemetry \<Rightarrow> 'o list \<Rightarrow> bool" where
  "ignores_timestamps tt opts \<longleftrightarrow> (\<forall>want got. AssertEqual tt want got opts \<longleftrightarrow>
     md_Name want = md_Name got \<and> md_Description want = md_Description got \<and>
     md_Unit want = md_Unit got \<and> same_data (md_Data want) (md_Data got))"

lemma int64_points_simps [simp]:
  "int64_points i [] = []"
  "int64_points i (ObserveInt64 j v opts # obs) =
     (if j = i then (set opts, v) # int64_points i obs else int64_points i obs)"
  "int64_points i (ObserveFloat64 j f # obs) = int64_points i obs"
  "int64_points i (obs @ obs') = int64_points i obs @ int64_points i obs'"
  by (simp_all add: int64_points_def List.map_filter_def)

lemma float64_points_simps [simp]:
  "float64_points i [] = []"
  "float64_points i (ObserveInt64 j v opts # obs) = float64_points i obs"
  "float64_points i (ObserveFloat64 j f # obs) =
     (if j = i then ({}, f) # float64_points i obs else float64_points i obs)"
  "float64_points i (obs @ obs') = float64_points i obs @ float64_points i obs'"
  by (simp_all add: float64_points_def List.map_filter_def)

lemma int64_points_map:
  "int64_points i (map (\<lambda>e. ObserveInt64 j (f e) (g e)) es) =
     (if j = i then map (\<lambda>e. (set (g e), f e)) es else [])"
  by (cases "j = i"; induction es) simp_all

lemma float64_points_map: "float64_points i (map (\<lambda>e. ObserveInt64 j (f e) (g e)) es) = []"
  by (induction es) simp_all

text \<open>A helper passes on the observed points and nothing else.\<close>

definition assert_against ::
  "('o, 'tr) test_telemetry \<Rightarrow> instrument_config \<Rightarrow> aggregation \<Rightarrow> 'o list \<Rightarrow> test_result" where
  "assert_against tt ic data opts =
     (case GetMetric tt (ic_name ic) of
        Inl err \<Rightarrow> FailedNow err
      | Inr got \<Rightarrow> if AssertEqual tt \<lparr>md_Name = ic_name ic, md_Description = ic_description ic,
          md_Unit = ic_unit ic, md_Data = data\<rparr> got opts then Passed else Failed)"

lemma helpers_assert_against:
  "AssertEqualProcessorCardinalityLabelsStripped tt dps opts =
     assert_against tt (instrument_of LabelsStripped) (SumInt64 CumulativeTemporality True dps) opts"
  "AssertEqualProcessorCardinalitySavingsEstimated tt fdps opts =
     assert_against tt (instrument_of SavingsEstimated) (SumFloat64 CumulativeTemporality True fdps) opts"
  "AssertEqualProcessorCardinalityTopOffenders tt dps opts =
     assert_against tt (instrument_of TopOffenders) (GaugeInt64 dps) opts"
  "AssertEqualProcessorCardinalityTrackersActive tt dps opts =
     assert_against tt (instrument_of TrackersActive) (GaugeInt64 dps) opts"
  "AssertEqualProcessorCardinalityTrackersRejected tt dps opts =
     assert_against tt (instrument_of TrackersRejected) (SumInt64 CumulativeTemporality True dps) opts"
  by (simp_all only: helper_defs assert_against_def instrument_of.simps instrument_config.simps Let_def)

lemma assert_against_exported:
  assumes "exported tt ic data pts" and "distinct (map fst pts)" and "ignores_timestamps tt opts"
    and "\<And>dps'. same_data d (data dps') \<longleftrightarrow> shown dps = shown dps'"
  shows "assert_against tt ic d opts = Passed \<longleftrightarrow> pts \<noteq> [] \<and> shown dps = mset pts"
  using assms by (cases "pts = []") (auto simp: exported_def assert_against_def ignores_timestamps_def split: if_splits)

lemma assert_against_nothing:
  "exported tt ic data [] \<Longrightarrow> \<exists>err. assert_against tt ic d opts = FailedNow err"
  by (auto simp: exported_def assert_against_def)

lemma exports_kind:
  assumes "reader_exports tt obs"
  shows "exported tt (instrument_of LabelsStripped) (SumInt64 CumulativeTemporality True) (int64_points LabelsStripped obs)"
    "exported tt (instrument_of SavingsEstimated) (SumFloat64 CumulativeTemporality True) (float64_points SavingsEstimated obs)"
    "exported tt (instrument_of TopOffenders) GaugeInt64 (int64_points TopOffenders obs)"
    "exported tt (instrument_of TrackersActive) GaugeInt64 (int64_points TrackersActive obs)"
    "exported tt (instrument_of TrackersRejected) (SumInt64 CumulativeTemporality True) (int64_points TrackersRejected obs)"
  using assms [unfolded reader_exports_def, THEN spec [where x = LabelsStripped]]
    assms [unfolded reader_exports_def, THEN spec [where x = SavingsEstimated]]
    assms [unfolded reader_exports_def, THEN spec [where x = TopOffenders]]
    assms [unfolded reader_exports_def, THEN spec [where x = TrackersActive]]
    assms [unfolded reader_exports_def, THEN spec [where x = TrackersRejected]]
  by simp_all

definition offender_point :: "offenderEntry \<Rightarrow> (string \<times> string) set \<times> i64" where
  "offender_point e =
     ({(''metric_name'', oe_metricName e), (''label_key'', oe_labelKey e)}, oe_delta e)"

lemma two_keys: "a \<noteq> b \<Longrightarrow> {(a, m), (b, k)} = {(a, m'), (b, k')} \<longleftrightarrow> m = m' \<and> k = k'"
  by (auto simp: doubleton_eq_iff)

lemma offender_points_distinct:
  assumes "distinct (map pair_of es)"
  shows "distinct (map fst (map offender_point es))"
proof -
  let ?attrs = "\<lambda>(m, k). {(''metric_name'', m), (''label_key'', k)} :: (string \<times> string) set"
  have "''metric_name'' \<noteq> ''label_key''" by simp
  note attrs = two_keys [OF this]
  have "inj ?attrs"
    by (rule injI) (simp only: split_paired_all prod.case attrs prod.inject)
  then have "inj_on ?attrs (set (map pair_of es))" by (rule inj_on_subset) (rule subset_UNIV)
  then have "distinct (map ?attrs (map pair_of es))"
    unfolding distinct_map [of ?attrs] using assms by (rule conjI [rotated])
  moreover have "map ?attrs (map pair_of es) = map fst (map offender_point es)"
    by (simp add: pair_of_def offender_point_def)
  ultimately show ?thesis by (simp only:)
qed

lemma collected_points:
  assumes "reachable L nextConsumer c p n" and "\<not> ctxCancelled p"
  shows "int64_points LabelsStripped (collect L F p) = [({}, labelsStripped p)]"
    and "float64_points SavingsEstimated (collect L F p) = [({}, observe_savings L F p)]"
    and "int64_points TrackersActive (collect L F p) = [({}, of_nat (total_trackers p))]"
    and "int64_points TrackersRejected (collect L F p) = [({}, trackersRejected p)]"
    and "int64_points TopOffenders (collect L F p) = map offender_point (topOffenders p)"
  unfolding collection_reports_the_state [OF assms]
  by (simp_all add: int64_points_map float64_points_map offender_point_def [abs_def])

section \<open>Properties\<close>

text \<open>
  C34. Round trip of the telemetry: what a live processor of any reachable state reports to the
  SDK is found again by the generated test helpers. Each helper looks up the name its
  instrument was created with, expects its description, unit and shape, and passes on exactly
  the observed points: the four numbers, and all the offenders (none of them hides another),
  which exist only once a rotation has published some.
\<close>

theorem exported_metrics_read_back:
  assumes "reachable L nextConsumer c p n" and "\<not> ctxCancelled p"
    and "reader_exports tt (collect L F p)" and "ignores_timestamps tt opts"
  shows "(AssertEqualProcessorCardinalityLabelsStripped tt dps opts = Passed \<longleftrightarrow>
      shown dps = {#({}, labelsStripped p)#}) \<and>
    (AssertEqualProcessorCardinalitySavingsEstimated tt fdps opts = Passed \<longleftrightarrow>
      shown fdps = {#({}, observe_savings L F p)#}) \<and>
    (AssertEqualProcessorCardinalityTrackersActive tt dps opts = Passed \<longleftrightarrow>
      shown dps = {#({}, of_nat (total_trackers p))#}) \<and>
    (AssertEqualProcessorCardinalityTrackersRejected tt dps opts = Passed \<longleftrightarrow>
      shown dps = {#({}, trackersRejected p)#}) \<and>
    (AssertEqualProcessorCardinalityTopOffenders tt dps opts = Passed \<longleftrightarrow>
      topOffenders p \<noteq> [] \<and> shown dps = mset (map offender_point (topOffenders p)))"
proof -
  note ex = exports_kind [OF assms(3), unfolded collected_points [OF assms(1,2), of F]]
  note passes = assert_against_exported [OF _ _ assms(4)]
  have "distinct (map pair_of (topOffenders p))"
    using reachable_identity_inv [OF assms(1)] by (simp add: identity_inv_def offenders_distinct_def)
  note offenders = passes [OF ex(3) offender_points_distinct [OF this]]
  show ?thesis
    unfolding helpers_assert_against
    using passes [OF ex(1)] passes [OF ex(2)] passes [OF ex(4)] passes [OF ex(5)] offenders
    by simp
qed

text \<open>
  After a shutdown the instruments report nothing, so no metric of theirs is exported and each
  helper fails at the lookup, whatever it was told to expect.
\<close>

lemma no_metrics_after_shutdown:
  assumes "reachable L nextConsumer c p n" and "reader_exports tt (collect L F (Shutdown p))"
  shows "(\<exists>err. AssertEqualProcessorCardinalityLabelsStripped tt dps opts = FailedNow err) \<and>
    (\<exists>err. AssertEqualProcessorCardinalitySavingsEstimated tt fdps opts = FailedNow err) \<and>
    (\<exists>err. AssertEqualProcessorCardinalityTrackersActive tt dps opts = FailedNow err) \<and>
    (\<exists>err. AssertEqualProcessorCardinalityTrackersRejected tt dps opts = FailedNow err) \<and>
    (\<exists>err. AssertEqualProcessorCardinalityTopOffenders tt dps opts = FailedNow err)"
proof -
  have "collect L F (Shutdown p) = []"
    using telemetry_inv_Shutdown [OF reachable_telemetry_inv [OF assms(1)]] by (simp add: collect_def)
  note ex = exports_kind [OF assms(2), unfolded this int64_points_simps float64_points_simps]
  show ?thesis
    unfolding helpers_assert_against
    using assert_against_nothing [OF ex(1)] assert_against_nothing [OF ex(2)]
      assert_against_nothing [OF ex(3)] assert_against_nothing [OF ex(4)] assert_against_nothing [OF ex(5)]
    by blast
qed

section \<open>Witnesses\<close>

text \<open>A reader that exports a list of observations, and a comparison that ignores times.\<close>

definition point_of :: "(string \<times> string) set \<times> 'n \<Rightarrow> 'n data_point" where
  "point_of pt = \<lparr>dp_Attributes = fst pt, dp_StartTime = 0, dp_Time = 1, dp_Value = snd pt\<rparr>"

lemma shown_point_of [simp]: "shown (map point_of pts) = mset pts"
  by (simp add: shown_def point_of_def comp_def)

definition demo_data :: "observation list \<Rightarrow> instrument \<Rightarrow> aggregation" where
  "demo_data obs i =
     (case ic_kind (instrument_of i) of
        Int64ObservableCounter \<Rightarrow> SumInt64 CumulativeTemporality True (map point_of (int64_points i obs))
      | Float64ObservableCounter \<Rightarrow> SumFloat64 CumulativeTemporality True (map point_of (float64_points i obs))
      | Int64ObservableGauge \<Rightarrow> GaugeInt64 (map point_of (int64_points i obs)))"

definition demo_metrics :: "observation list \<Rightarrow> instrument \<Rightarrow> string + metrics" where
  "demo_metrics obs i =
     (if (if ic_kind (instrument_of i) = Float64ObservableCounter then float64_points i obs = []
          else int64_points i obs = []) then Inl ''not found''
      else Inr \<lparr>md_Name = ic_name (instrument_of i), md_Description = ic_description (instrument_of i),
        md_Unit = ic_unit (instrument_of i), md_Data = demo_data obs i\<rparr>)"

definition demo_telemetry :: "observation list \<Rightarrow> (unit, unit) test_telemetry" where
  "demo_telemetry obs = \<lparr>
     NewTelemetrySettings = \<lparr>MeterProvider_Meter = \<lambda>_. good_meter, TracerProvider_Tracer = \<lambda>_. ()\<rparr>,
     GetMetric = \<lambda>name. case find (\<lambda>i. ic_name (instrument_of i) = name) callback_order of
        Some i \<Rightarrow> demo_metrics obs i | None \<Rightarrow> Inl ''not found'',
     AssertEqual = \<lambda>want got opts. md_Name want = md_Name got \<and> md_Description want = md_Description got \<and>
        md_Unit want = md_Unit got \<and> same_data (md_Data want) (md_Data got)\<rparr>"

lemma demo_telemetry_compares: "ignores_timestamps (demo_telemetry obs) opts"
  by (simp add: ignores_timestamps_def demo_telemetry_def)

lemma demo_lookup: "GetMetric (demo_telemetry obs) (ic_name (instrument_of i)) = demo_metrics obs i"
  by (cases i) (simp_all add: demo_telemetry_def callback_order_def)

definition offending :: "u64 list processor" where
  "offending = processor_rotate ref_lib rev (open_ticker (Start (after_batch capped_config)))"

lemma offending_offenders:
  "map (\<lambda>e. (pair_of e, oe_delta e)) (topOffenders offending) = [((''m'', ''k''), 3)]"
  by code_simp

lemma demo_telemetry_exports: "reader_exports (demo_telemetry obs) obs"
  unfolding reader_exports_def
proof
  fix i
  show "case ic_kind (instrument_of i) of
     Int64ObservableCounter \<Rightarrow>
       exported (demo_telemetry obs) (instrument_of i) (SumInt64 CumulativeTemporality True) (int64_points i obs)
   | Float64ObservableCounter \<Rightarrow>
       exported (demo_telemetry obs) (instrument_of i) (SumFloat64 CumulativeTemporality True) (float64_points i obs)
   | Int64ObservableGauge \<Rightarrow> exported (demo_telemetry obs) (instrument_of i) GaugeInt64 (int64_points i obs)"
    by (cases "ic_kind (instrument_of i)")
       (auto simp: exported_def demo_lookup demo_metrics_def demo_data_def intro: shown_point_of)
qed

lemma offending_reachable: "reachable ref_lib sink capped_config offending ()"
proof -
  let ?p1 = "Start (after_batch capped_config)" and ?p2 = "open_ticker (Start (after_batch capped_config))"
  have loops: "rotationLoop (after_batch capped_config) = LoopNotLaunched" "rotationLoop ?p1 = LoopLaunched"
    "rotationLoop ?p2 = LoopTicking" by code_simp+
  have "reachable ref_lib sink capped_config ?p1 ()"
    by (rule reachable.step [OF after_batch_reachable lifecycle_step.start]) (simp add: loops)
  then have "reachable ref_lib sink capped_config ?p2 ()"
    by (rule reachable.step) (rule lifecycle_step.launch, rule loops)
  then show ?thesis
    unfolding offending_def by (rule reachable.step) (rule lifecycle_step.tick [OF loops(3) range_ok_rev])
qed

theorem exported_metrics_read_back_witness:
  "AssertEqualProcessorCardinalityLabelsStripped
     (demo_telemetry (collect ref_lib demo_float_unit offending)) [point_of ({}, 2)] [] = Passed \<and>
   AssertEqualProcessorCardinalityLabelsStripped
     (demo_telemetry (collect ref_lib demo_float_unit offending)) [point_of ({}, 3)] [] \<noteq> Passed \<and>
   AssertEqualProcessorCardinalityTopOffenders (demo_telemetry (collect ref_lib demo_float_unit offending))
     [point_of ({(''metric_name'', ''m''), (''label_key'', ''k'')}, 3)] [] = Passed"
proof -
  let ?tt = "demo_telemetry (collect ref_lib demo_float_unit offending)"
  have live: "\<not> ctxCancelled offending" and two: "labelsStripped offending = 2" by code_simp+
  have "map offender_point (topOffenders offending) =
      map (\<lambda>(mk, d). ({(''metric_name'', fst mk), (''label_key'', snd mk)}, d))
        (map (\<lambda>e. (pair_of e, oe_delta e)) (topOffenders offending))"
    by (simp add: offender_point_def pair_of_def)
  then have top: "map offender_point (topOffenders offending) =
      [({(''metric_name'', ''m''), (''label_key'', ''k'')}, 3)]"
    by (simp only: offending_offenders list.map prod.case fst_conv snd_conv)
  then have some: "topOffenders offending \<noteq> []" by auto
  note reads = exported_metrics_read_back [OF offending_reachable live demo_telemetry_exports demo_telemetry_compares,
    where F = demo_float_unit and opts = "[]" and fdps = "[]"]
  have "shown [point_of ({}, 2)] = {#({}, 2 :: i64)#}" "shown [point_of ({}, 3)] \<noteq> {#({}, 2 :: i64)#}"
    "shown [point_of ({(''metric_name'', ''m''), (''label_key'', ''k'')}, 3 :: i64)] =
       mset [({(''metric_name'', ''m''), (''label_key'', ''k'')}, 3)]"
    by (simp_all add: shown_def point_of_def)
  then show ?thesis
    using reads [where dps = "[point_of ({}, 2)]"] reads [where dps = "[point_of ({}, 3)]"]
      reads [where dps = "[point_of ({(''metric_name'', ''m''), (''label_key'', ''k'')}, 3)]"] some
    by (simp only: two top) simp
qed

text \<open>
  The identities agree, except for the stability: the factory registers Development where the
  metadata says Alpha.
\<close>

lemma component_identity:
  "fa_type (NewFactory L) = Type" "set_ID (NewSettings nopSettings tt) = Type"
  "Meter settings = MeterProvider_Meter settings ScopeName"
  "Tracer settings = TracerProvider_Tracer settings ScopeName"
  "fa_metricsStability (NewFactory L) \<noteq> MetricsStability"
  by (simp_all add: NewFactory_def typeStr_def Type_def NewSettings_def Meter_def Tracer_def
      ScopeName_def MetricsStability_def)

end
