(* ===== verification/Batch_Refinement.thy ===== *)
theory Batch_Refinement
  imports Pipeline
begin

text \<open>
  The pipeline against its specification: a batch is one sequence of decisions on the
  unprotected attributes of all its data points, in order, whatever the mode; and a batch
  none of whose attributes is over its limit reaches the next consumer as it came. The
  locale states this of one level of the batch and lifts it to a slice of them.
\<close>

section \<open>The decisions a batch asks for\<close>

definition attr_requests ::
  "('v, 'x, 'sk) lib \<Rightarrow> string set \<Rightarrow> string \<Rightarrow> 'v attrs \<Rightarrow> request list" where
  "attr_requests L prot m attrs =
     map (\<lambda>(k, v). (m, k, AsString L v)) (filter (\<lambda>(k, v). k \<notin> prot) attrs)"

definition metric_requests ::
  "('v, 'x, 'sk) lib \<Rightarrow> string set \<Rightarrow> ('v, 'x) metric \<Rightarrow> request list" where
  "metric_requests L prot m =
     concat (map (attr_requests L prot (m_name m)) (point_attributes (m_data m)))"

definition scope_requests ::
  "('v, 'x, 'sk) lib \<Rightarrow> string set \<Rightarrow> ('v, 'x) scope_metrics \<Rightarrow> request list" where
  "scope_requests L prot s = concat (map (metric_requests L prot) (sm_metrics s))"

definition resource_requests ::
  "('v, 'x, 'sk) lib \<Rightarrow> string set \<Rightarrow> ('v, 'x) resource_metrics \<Rightarrow> request list" where
  "resource_requests L prot r = concat (map (scope_requests L prot) (rm_scopes r))"

definition batch_requests ::
  "('v, 'x, 'sk) lib \<Rightarrow> string set \<Rightarrow> ('v, 'x) batch \<Rightarrow> request list" where
  "batch_requests L prot md = concat (map (resource_requests L prot) md)"

text \<open>
  Reaggregation also merges points that came in with the same identity; a metric is regular
  when it has no such points.
\<close>

definition regular_metric :: "('v, 'x, 'sk) lib \<Rightarrow> ('v, 'x) metric \<Rightarrow> bool" where
  "regular_metric L m \<longleftrightarrow>
     reaggregatable (m_data m) \<longrightarrow> distinct (map (identity L) (number_points (m_data m)))"

definition regular_batch :: "('v, 'x, 'sk) lib \<Rightarrow> ('v, 'x) batch \<Rightarrow> bool" where
  "regular_batch L md \<longleftrightarrow>
     list_all (\<lambda>r. list_all (\<lambda>s. list_all (regular_metric L) (sm_metrics s)) (rm_scopes r)) md"

section \<open>One level of the batch\<close>

text \<open>
  \<open>body\<close> decides the requests \<open>reqs x\<close> of an element, starting from any processor that agrees
  with the reference on what decisions read; when none is over its limit and the element
  is regular, it returns the element unchanged.
\<close>

locale decision_pass =
  fixes L :: "('v, 'x, 'sk) lib" and P :: "string set" and M :: enforcement_mode
    and reqs :: "'a \<Rightarrow> request list" and regular :: "'a \<Rightarrow> bool"
    and body :: "'a \<Rightarrow> 'sk processor \<Rightarrow> 'a \<times> 'sk processor"
  assumes pass_core: "core p = core q \<Longrightarrow> protectedLabels p = P \<Longrightarrow> enforcementMode p = M \<Longrightarrow>
      core (snd (body x p)) = core (snd (traverse (request_step L) (reqs x) q))"
    and pass_count: "core p = core q \<Longrightarrow> protectedLabels p = P \<Longrightarrow> enforcementMode p = M \<Longrightarrow>
      labelsStripped (snd (body x p)) =
        labelsStripped p + of_nat (count_list (fst (traverse (request_step L) (reqs x) q)) True)"
    and pass_mode: "enforcementMode (snd (body x p)) = enforcementMode p"
    and pass_labels: "protectedLabels (snd (body x p)) = protectedLabels p"
    and pass_quiet: "core p = core q \<Longrightarrow> protectedLabels p = P \<Longrightarrow> enforcementMode p = M \<Longrightarrow>
      regular x \<Longrightarrow> True \<notin> set (fst (traverse (request_step L) (reqs x) q)) \<Longrightarrow>
      fst (body x p) = x"
begin

lemma slice_pass:
  "decision_pass L P M (\<lambda>xs. concat (map reqs xs)) (list_all regular) (traverse body)"
proof
  fix p q :: "'sk processor" and xs
  show "enforcementMode (snd (traverse body xs p)) = enforcementMode p"
    by (induction xs arbitrary: p) (simp_all add: split_beta Let_def pass_mode)
  show "protectedLabels (snd (traverse body xs p)) = protectedLabels p"
    by (induction xs arbitrary: p) (simp_all add: split_beta Let_def pass_labels)
  assume pq: "core p = core q" and P: "protectedLabels p = P" and M: "enforcementMode p = M"
  show "core (snd (traverse body xs p)) =
      core (snd (traverse (request_step L) (concat (map reqs xs)) q))"
    using pq P M by (induction xs arbitrary: p q)
      (simp_all add: split_beta Let_def traverse_append pass_core pass_mode pass_labels)
  show "labelsStripped (snd (traverse body xs p)) = labelsStripped p +
      of_nat (count_list (fst (traverse (request_step L) (concat (map reqs xs)) q)) True)"
    using pq P M
  proof (induction xs arbitrary: p q)
    case (Cons x xs)
    with Cons.IH [of "snd (body x p)" "snd (traverse (request_step L) (reqs x) q)"]
      pass_core [of p q x] pass_count [of p q x]
    show ?case by (simp add: split_beta Let_def traverse_append pass_mode pass_labels)
  qed simp
  assume "list_all regular xs" "True \<notin> set (fst (traverse (request_step L) (concat (map reqs xs)) q))"
  then show "fst (traverse body xs p) = xs"
    using pq P M
  proof (induction xs arbitrary: p q)
    case (Cons x xs)
    let ?q = "snd (traverse (request_step L) (reqs x) q)"
    have x: "regular x" "list_all regular xs" and no: "True \<notin> set (fst (traverse (request_step L) (reqs x) q))"
      "True \<notin> set (fst (traverse (request_step L) (concat (map reqs xs)) ?q))"
      using Cons.prems(1,2) by (simp_all add: traverse_append)
    have "fst (traverse body xs (snd (body x p))) = xs"
      by (rule Cons.IH [OF x(2) no(2)])
        (simp_all add: pass_core [OF Cons.prems(3-5)] pass_mode pass_labels Cons.prems(4,5))
    with pass_quiet [OF Cons.prems(3-5) x(1) no(1)] show ?case
      by (simp add: split_beta Let_def)
  qed simp
qed

text \<open>A loop body that applies the pass to one field of a record.\<close>

lemma field_pass:
  assumes "\<And>x. put (get x) x = x"
  shows "decision_pass L P M (\<lambda>x. reqs (get x)) (\<lambda>x. regular (get x))
    (\<lambda>x p. let (a, p1) = body (get x) p in (put a x, p1))"
  by unfold_locales
     (simp_all add: split_beta Let_def pass_core pass_count pass_mode pass_labels pass_quiet assms)

end

section \<open>The levels\<close>

text \<open>One data point: the reference skips protected attributes and threads the decisions.\<close>

lemma judge_requests:
  assumes "protectedLabels q = P"
  shows "snd (traverse (judge L m) attrs q) = snd (traverse (request_step L) (attr_requests L P m attrs) q) \<and>
    count_list (fst (traverse (judge L m) attrs q)) True =
      count_list (fst (traverse (request_step L) (attr_requests L P m attrs) q)) True"
  using assms
proof (induction attrs arbitrary: q)
  case Nil
  then show ?case by (simp add: attr_requests_def)
next
  case (Cons kv attrs)
  have "protectedLabels (snd (judge L m kv q)) = P"
    using Cons.prems by (simp add: judge_protectedLabels)
  from Cons.IH [OF this] Cons.prems show ?case
    by (cases kv) (auto simp: attr_requests_def judge_def isProtected_def request_step_def split_beta Let_def)
qed

lemma judges_core:
  "core p = core q \<Longrightarrow> fst (traverse (judge L m) attrs p) = fst (traverse (judge L m) attrs q)"
proof (induction attrs arbitrary: p q)
  case (Cons kv attrs)
  from Cons.IH [OF core_judge(2) [OF Cons.prems, of L m kv]] core_judge(1) [OF Cons.prems, of L m kv]
  show ?case by (simp add: split_beta Let_def)
qed simp

lemma count_True_iff: "count_list ds True = 0 \<longleftrightarrow> True \<notin> set ds"
  by (simp add: count_list_0_iff)

lemma verdicts_count: "list_ex (\<lambda>d. d) ds \<longleftrightarrow> count_list ds True \<noteq> 0"
  by (auto simp: list_ex_iff count_list_0_iff)

lemma flagged_none: "\<not> list_ex (\<lambda>d. d) ds \<Longrightarrow> flagged_keys ds attrs = []"
  by (auto simp: flagged_keys_def list_ex_iff filter_empty_conv dest!: set_zip_rightD)

lemma enforce_quiet: "\<not> list_ex (\<lambda>d. d) ds \<Longrightarrow> length ds = length attrs \<Longrightarrow> enforce L mode ds attrs = attrs"
  by (simp add: enforce_def flagged_none remove_flagged_none)

lemma handle_labels: "protectedLabels (snd (handleAttributesWithMode L m mode attrs p)) = protectedLabels p"
  "enforcementMode (snd (handleAttributesWithMode L m mode attrs p)) = enforcementMode p"
  using settings_contract.attributes_with_mode_R [of p L m mode attrs] by (simp_all add: same_settings_def)

interpretation attrs_pass: decision_pass L P M "attr_requests L P m" "\<lambda>_. pdata_laws L"
    "handleAttributesWithMode L m mode"
  for L :: "('v, 'x, 'sk) lib" and P M m mode
proof
  fix p q :: "'sk processor" and attrs :: "'v attrs"
  show "enforcementMode (snd (handleAttributesWithMode L m mode attrs p)) = enforcementMode p"
    "protectedLabels (snd (handleAttributesWithMode L m mode attrs p)) = protectedLabels p"
    by (simp_all add: handle_labels)
  assume pq: "core p = core q" and P: "protectedLabels p = P"
  have q: "protectedLabels q = P" using pq P by (simp add: core_def)
  note loop = callback_loop [OF pq, of L m mode attrs False "[]"]
  show "core (snd (handleAttributesWithMode L m mode attrs p)) =
      core (snd (traverse (request_step L) (attr_requests L P m attrs) q))"
    using loop judge_requests [OF q, of L m attrs] by (simp add: handle_processor)
  show "labelsStripped (snd (handleAttributesWithMode L m mode attrs p)) = labelsStripped p +
      of_nat (count_list (fst (traverse (request_step L) (attr_requests L P m attrs) q)) True)"
    using loop judge_requests [OF q, of L m attrs] by (simp add: handle_processor)
  assume laws: "pdata_laws L"
    and quiet: "True \<notin> set (fst (traverse (request_step L) (attr_requests L P m attrs) q))"
  have "fst (traverse (judge L m) attrs p) = fst (traverse (judge L m) attrs q)"
    by (rule judges_core [OF pq])
  with quiet judge_requests [OF q, of L m attrs] have "\<not> list_ex (\<lambda>d. d) (verdicts L m attrs p)"
    by (simp add: verdicts_count verdicts_def flip: count_True_iff)
  then show "fst (handleAttributesWithMode L m mode attrs p) = attrs"
    by (simp add: handle_enforces [OF laws] enforce_quiet)
qed

interpretation default_pass: decision_pass L P M "attr_requests L P m" "\<lambda>_. pdata_laws L"
    "handleAttributes L m"
  for L :: "('v, 'x, 'sk) lib" and P M m
  by unfold_locales
     (simp_all add: handleAttributes_def attrs_pass.pass_core attrs_pass.pass_count
       attrs_pass.pass_mode attrs_pass.pass_labels attrs_pass.pass_quiet)

text \<open>The points of one kind, with the processor's mode and with an overridden one.\<close>

abbreviation number_requests ::
  "('v, 'x, 'sk) lib \<Rightarrow> string set \<Rightarrow> string \<Rightarrow> ('v, 'x) number_dp list \<Rightarrow> request list" where
  "number_requests L P m dps \<equiv> concat (map (\<lambda>dp. attr_requests L P m (dp_attributes dp)) dps)"

abbreviation other_requests ::
  "('v, 'x, 'sk) lib \<Rightarrow> string set \<Rightarrow> string \<Rightarrow> ('v, 'x) other_dp list \<Rightarrow> request list" where
  "other_requests L P m ods \<equiv> concat (map (\<lambda>dp. attr_requests L P m (od_attributes dp)) ods)"

lemmas dp_field = decision_pass.slice_pass [OF decision_pass.field_pass
    [where get = dp_attributes and put = "\<lambda>a dp. dp\<lparr>dp_attributes := a\<rparr>"]]

lemmas od_field = decision_pass.slice_pass [OF decision_pass.field_pass
    [where get = od_attributes and put = "\<lambda>a dp. dp\<lparr>od_attributes := a\<rparr>"]]

lemma number_pass:
  "decision_pass L P M (number_requests L P m) (list_all (\<lambda>_. pdata_laws L)) (processNumberDataPoints L m)"
  "decision_pass L P M (number_requests L P m) (list_all (\<lambda>_. pdata_laws L))
     (processNumberDataPointsWithMode L m mode)"
  unfolding processNumberDataPoints_def processNumberDataPointsWithMode_def
  by (rule dp_field [OF default_pass.decision_pass_axioms], simp)
     (rule dp_field [OF attrs_pass.decision_pass_axioms], simp)

lemma other_pass:
  "decision_pass L P M (other_requests L P m) (list_all (\<lambda>_. pdata_laws L)) (processHistogramDataPoints L m)"
  "decision_pass L P M (other_requests L P m) (list_all (\<lambda>_. pdata_laws L))
     (processHistogramDataPointsWithMode L m mode)"
  "decision_pass L P M (other_requests L P m) (list_all (\<lambda>_. pdata_laws L))
     (processExponentialHistogramDataPoints L m)"
  "decision_pass L P M (other_requests L P m) (list_all (\<lambda>_. pdata_laws L))
     (processExponentialHistogramDataPointsWithMode L m mode)"
  "decision_pass L P M (other_requests L P m) (list_all (\<lambda>_. pdata_laws L)) (processSummaryDataPoints L m)"
  "decision_pass L P M (other_requests L P m) (list_all (\<lambda>_. pdata_laws L))
     (processSummaryDataPointsWithMode L m mode)"
  unfolding processHistogramDataPoints_def processHistogramDataPointsWithMode_def
    processExponentialHistogramDataPoints_def processExponentialHistogramDataPointsWithMode_def
    processSummaryDataPoints_def processSummaryDataPointsWithMode_def
  by (rule od_field [OF default_pass.decision_pass_axioms], simp,
      rule od_field [OF attrs_pass.decision_pass_axioms], simp)+

text \<open>A metric: the requests of its points in order, whatever its type and the mode.\<close>

lemma metric_requests_cases:
  "metric_requests L P m = (case m_data m of
     EmptyMetric \<Rightarrow> []
   | Gauge dps \<Rightarrow> number_requests L P (m_name m) dps
   | SumMetric temp monotonic dps \<Rightarrow> number_requests L P (m_name m) dps
   | Histogram temp ods \<Rightarrow> other_requests L P (m_name m) ods
   | ExponentialHistogram temp ods \<Rightarrow> other_requests L P (m_name m) ods
   | Summary ods \<Rightarrow> other_requests L P (m_name m) ods)"
  by (cases "m_data m") (simp_all add: metric_requests_def comp_def)

lemmas pass_cores = number_pass [THEN decision_pass.pass_core] other_pass [THEN decision_pass.pass_core]
lemmas pass_counts = number_pass [THEN decision_pass.pass_count] other_pass [THEN decision_pass.pass_count]
lemmas pass_quiets = number_pass [THEN decision_pass.pass_quiet] other_pass [THEN decision_pass.pass_quiet]

lemma laws_everywhere: "pdata_laws L \<Longrightarrow> list_all (\<lambda>_. pdata_laws L) xs"
  by (simp add: list_all_iff)

lemma reaggregate_regular:
  "pdata_laws L \<Longrightarrow> distinct (map (identity L) dps) \<Longrightarrow> reaggregateNumberDataPoints L dps ty d = dps"
  by (simp add: reaggregate_eq_merge_groups merge_groups_id)

interpretation metric_pass: decision_pass L P M "metric_requests L P"
    "\<lambda>m. pdata_laws L \<and> (M = EnforcementStripAndReaggregate \<longrightarrow> regular_metric L m)" "processMetric L"
  for L :: "('v, 'x, 'sk) lib" and P M
proof
  fix p q :: "'sk processor" and m :: "('v, 'x) metric"
  show "enforcementMode (snd (processMetric L m p)) = enforcementMode p"
    "protectedLabels (snd (processMetric L m p)) = protectedLabels p"
    using settings_contract.metric_R [of p L m] by (simp_all add: same_settings_def)
  assume pq: "core p = core q" and P: "protectedLabels p = P" and M: "enforcementMode p = M"
  show "core (snd (processMetric L m p)) = core (snd (traverse (request_step L) (metric_requests L P m) q))"
    unfolding metric_requests_cases using pq
    by (cases "m_data m")
       (simp_all add: processMetric_def process_data_def Let_def split_beta pass_cores [OF pq P M])
  show "labelsStripped (snd (processMetric L m p)) = labelsStripped p +
      of_nat (count_list (fst (traverse (request_step L) (metric_requests L P m) q)) True)"
    unfolding metric_requests_cases
    by (cases "m_data m")
       (simp_all add: processMetric_def process_data_def Let_def split_beta pass_counts [OF pq P M])
  assume reg: "pdata_laws L \<and> (M = EnforcementStripAndReaggregate \<longrightarrow> regular_metric L m)"
    and quiet: "True \<notin> set (fst (traverse (request_step L) (metric_requests L P m) q))"
  then have laws: "pdata_laws L" by simp
  have "fst (process_data L (m_name m) (m_data m) p) = m_data m"
    using reg quiet unfolding metric_requests_cases
    by (cases "m_data m")
       (simp_all add: process_data_def Let_def split_beta pass_quiets [OF pq P M laws_everywhere [OF laws]]
         reaggregate_regular [OF laws] regular_metric_def M)
  then show "fst (processMetric L m p) = m" by (simp add: processMetric_def split_beta Let_def)
qed

lemma scope_pass:
  "decision_pass L P M (scope_requests L P)
     (\<lambda>s. list_all (\<lambda>m. pdata_laws L \<and> (M = EnforcementStripAndReaggregate \<longrightarrow> regular_metric L m)) (sm_metrics s))
     (process_scope L)"
  unfolding scope_requests_def process_scope_def
  by (rule decision_pass.field_pass [where get = sm_metrics and put = "\<lambda>ms s. s\<lparr>sm_metrics := ms\<rparr>",
        OF metric_pass.slice_pass]) simp

lemma resource_pass:
  "decision_pass L P M (resource_requests L P)
     (\<lambda>r. list_all (\<lambda>s. list_all (\<lambda>m. pdata_laws L \<and>
        (M = EnforcementStripAndReaggregate \<longrightarrow> regular_metric L m)) (sm_metrics s)) (rm_scopes r))
     (process_resource L)"
  unfolding resource_requests_def process_resource_def
  by (rule decision_pass.field_pass [where get = rm_scopes and put = "\<lambda>ss r. r\<lparr>rm_scopes := ss\<rparr>",
        OF decision_pass.slice_pass [OF scope_pass]]) simp

interpretation batch_pass: decision_pass L P M "batch_requests L P"
    "list_all (\<lambda>r. list_all (\<lambda>s. list_all (\<lambda>m. pdata_laws L \<and>
        (M = EnforcementStripAndReaggregate \<longrightarrow> regular_metric L m)) (sm_metrics s)) (rm_scopes r))"
    "traverse (process_resource L)"
  for L :: "('v, 'x, 'sk) lib" and P M
  unfolding batch_requests_def by (rule decision_pass.slice_pass [OF resource_pass])

lemma regular_batch_all:
  "pdata_laws L \<Longrightarrow> (M = EnforcementStripAndReaggregate \<Longrightarrow> regular_batch L md) \<Longrightarrow>
   list_all (\<lambda>r. list_all (\<lambda>s. list_all (\<lambda>m. pdata_laws L \<and>
     (M = EnforcementStripAndReaggregate \<longrightarrow> regular_metric L m)) (sm_metrics s)) (rm_scopes r)) md"
  by (auto simp: regular_batch_def list_all_iff)

section \<open>Properties\<close>

text \<open>
  C3. A batch is one sequence of decisions: whatever the enforcement mode, the trackers, the
  tracker count and the settings after a batch are those after deciding, in order, on every
  unprotected attribute of every data point, and the stripped-labels counter grows by the
  number of attributes over their limit (modulo \<open>2^64\<close>).
\<close>

theorem batch_is_a_sequence_of_decisions:
  "core (fst (snd (ConsumeMetrics L nextConsumer md (p\<lparr>enforcementMode := mode\<rparr>, n))))
     = core (snd (traverse (request_step L) (batch_requests L (protectedLabels p) md) p)) \<and>
   labelsStripped (fst (snd (ConsumeMetrics L nextConsumer md (p\<lparr>enforcementMode := mode\<rparr>, n))))
     = labelsStripped p + of_nat (count_list
         (fst (traverse (request_step L) (batch_requests L (protectedLabels p) md) p)) True)"
proof -
  let ?p = "p\<lparr>enforcementMode := mode\<rparr>"
  have c: "core ?p = core p" "protectedLabels ?p = protectedLabels p" "enforcementMode ?p = mode"
    "labelsStripped ?p = labelsStripped p"
    by (simp_all add: core_def)
  show ?thesis
    using batch_pass.pass_core [OF c(1-3), of L md] batch_pass.pass_count [OF c(1-3), of L md]
    unfolding c(4) by (simp add: ConsumeMetrics_def split_beta Let_def)
qed

text \<open>
  A batch within its limits passes untouched: when no decision on its attributes is
  "drop", the next consumer gets exactly the batch that came in. (In strip mode provided
  that no gauge or delta sum came in with two points of one identity: those are merged.)
\<close>

lemma quiet_batch_passes_untouched:
  assumes laws: "pdata_laws L"
    and quiet: "True \<notin> set (fst (traverse (request_step L) (batch_requests L (protectedLabels p) md) p))"
    and regular: "enforcementMode p = EnforcementStripAndReaggregate \<Longrightarrow> regular_batch L md"
  shows "fst (ConsumeMetrics L nextConsumer md (p, n)) = fst (nextConsumer md n) \<and>
    snd (snd (ConsumeMetrics L nextConsumer md (p, n))) = snd (nextConsumer md n)"
  using batch_pass.pass_quiet [OF refl refl refl regular_batch_all [OF laws regular] quiet]
  by (simp add: ConsumeMetrics_def split_beta Let_def)

section \<open>Witnesses\<close>

text \<open>A gauge with one point, which is within the limit of one value.\<close>

definition calm_batch :: "(string, nat) batch" where
  "calm_batch = [\<lparr>rm_resource = [], rm_scopes =
     [\<lparr>sm_scope = [], sm_metrics = [demo_metric (Gauge [demo_labelled ''a'' 10 5 [1]])]\<rparr>]\<rparr>]"

lemma calm_batch_regular: "regular_batch ref_lib calm_batch"
  by (simp add: regular_batch_def regular_metric_def calm_batch_def demo_metric_def)

lemma calm_batch_requests:
  "batch_requests ref_lib (protectedLabels strip_processor) calm_batch = [(''m'', ''k'', ''a'')]"
  by code_simp

end
