(* ===== verification/Quiet_Epoch.thy ===== *)
theory Quiet_Epoch
  imports Batch_Refinement Rotation
begin

text \<open>
  The whole processor on traffic that behaves: from the start of an epoch, as long as every
  (metric, label) pair stays within its limit, the processor is the identity on the batches
  it forwards. This composes the accuracy of a tracker (theory \<open>Tracker\<close>), the decision
  (theory \<open>Decision\<close>) and the refinement of the pipeline (theory \<open>Batch_Refinement\<close>).
\<close>

section \<open>Trackers during an epoch\<close>

text \<open>Every tracker has seen, since its epoch began, only hashes of its own pair in \<open>rs\<close>.\<close>

definition epoch_history ::
  "('v, 'x, 'sk) lib \<Rightarrow> ('sk \<Rightarrow> u64 set \<Rightarrow> bool) \<Rightarrow> request list \<Rightarrow> nat \<Rightarrow> 'sk processor \<Rightarrow> bool" where
  "epoch_history L repr rs n p \<longleftrightarrow> shards_ok p \<and>
     (\<forall>key t. store_get L p key = Some t \<longrightarrow>
        (\<exists>t0 hs. epoch_start repr t0 \<and> t = insert_all L hs t0 \<and>
           set hs \<subseteq> set (hashes_of L key rs) \<and> length hs \<le> n))"

text \<open>The traffic \<open>rs\<close> of an epoch keeps every pair within its limit, up to the sketch's error.\<close>

definition within_limits ::
  "('v, 'x, 'sk) lib \<Rightarrow> ('sk \<Rightarrow> u64 set \<Rightarrow> bool) \<Rightarrow> nat \<Rightarrow> config \<Rightarrow> request list \<Rightarrow> bool" where
  "within_limits L repr eps c rs \<longleftrightarrow> length rs < 2 ^ 64 \<and>
     (\<forall>(m, k, v) \<in> set rs.
        card (set (hashes_of L (TrackerKey m k) rs)) + eps \<le> unat (getLimit c m) \<and>
        (\<forall>A \<subseteq> set (hashes_of L (TrackerKey m k) rs). accurate L repr eps A))"

lemma hashes_of_mem: "(m, k, v) \<in> set rs \<Longrightarrow> Sum64String L v \<in> set (hashes_of L (TrackerKey m k) rs)"
  by (force simp: hashes_of_def)

lemma quiet_decision:
  assumes laws: "sketch_laws L repr" and start: "epoch_start repr t0"
    and lim: "within_limits L repr eps (cfg p) rs" and r: "(m, k, v) \<in> set rs"
    and hs: "set hs \<subseteq> set (hashes_of L (TrackerKey m k) rs)" "length hs < length rs"
    and ok: "shards_ok p"
  shows "\<not> fst (decide_on L (TrackerKey m k) (Sum64String L v) (insert_all L hs t0) p)"
proof -
  let ?hs = "hs @ [Sum64String L v]"
  have sub: "set ?hs \<subseteq> set (hashes_of L (TrackerKey m k) rs)"
    using hs(1) hashes_of_mem [OF r] by simp
  then have "set (take n ?hs) \<subseteq> set (hashes_of L (TrackerKey m k) rs)" for n
    by (auto dest: in_set_takeD)
  then have acc: "accurate L repr eps (set (take (refreshed (length ?hs)) ?hs))"
    and lim': "card (set (hashes_of L (TrackerKey m k) rs)) + eps \<le> unat (getLimit (cfg p) m)"
    using lim r by (auto simp: within_limits_def)
  have "length ?hs < 2 ^ 64" using hs(2) lim by (simp add: within_limits_def)
  then have "unat (cachedCurr (insert_all L ?hs t0)) \<le> card (set ?hs) + eps"
    using estimate_upper [OF laws start _ _ acc] by simp
  also have "card (set ?hs) \<le> card (set (hashes_of L (TrackerKey m k) rs))"
    using sub by (intro card_mono) simp_all
  finally show ?thesis
    using lim' ok by (simp add: decide_on_flat insert_all_snoc)
qed

lemma history_put:
  assumes "epoch_history L repr rs n p" and "epoch_start repr t0"
    and "set hs \<subseteq> set (hashes_of L key rs)" and "length hs \<le> n"
  shows "epoch_history L repr rs n (store_put L key (insert_all L hs t0) p)"
  using assms by (auto simp: epoch_history_def sharded.ok_put sharded.get_put)

lemma history_mono: "epoch_history L repr rs n p \<Longrightarrow> n \<le> n' \<Longrightarrow> epoch_history L repr rs n' p"
  unfolding epoch_history_def by (meson le_trans)

lemma history_same_store:
  "store_get L q = store_get L p \<Longrightarrow> shards_ok q = shards_ok p \<Longrightarrow>
   epoch_history L repr rs n q = epoch_history L repr rs n p"
  by (simp add: epoch_history_def)

lemma quiet_step:
  assumes laws: "sketch_laws L repr" and hist: "epoch_history L repr rs n p"
    and lim: "within_limits L repr eps (cfg p) rs" and r: "(m, k, v) \<in> set rs" and n: "n < length rs"
  shows "\<not> fst (shouldDrop L m k v p)" and "epoch_history L repr rs (Suc n) (snd (shouldDrop L m k v p))"
proof -
  let ?key = "TrackerKey m k" and ?h = "Sum64String L v"
  have ok: "shards_ok p" using hist by (simp add: epoch_history_def)
  have hist': "epoch_history L repr rs (Suc n) p" by (rule history_mono [OF hist]) simp
  have "\<not> fst (shouldDrop L m k v p) \<and> epoch_history L repr rs (Suc n) (snd (shouldDrop L m k v p))"
  proof (cases rule: obtainTracker_cases [of L p ?key])
    case (tracked t)
    with hist obtain t0 hs where t: "t = insert_all L hs t0" "epoch_start repr t0"
        "set hs \<subseteq> set (hashes_of L ?key rs)" "length hs \<le> n"
      unfolding epoch_history_def by metis
    have "\<not> fst (decide_on L ?key ?h (insert_all L hs t0) p)"
      by (rule quiet_decision [OF laws t(2) lim r t(3) _ ok]) (use t(4) n in simp)
    moreover have "epoch_history L repr rs (Suc n) (store_put L ?key (insert_all L (hs @ [?h]) t0) p)"
      using t(3,4) hashes_of_mem [OF r] by (intro history_put [OF hist' t(2)]) auto
    ultimately show ?thesis
      using tracked t(1) by (simp add: shouldDrop_simps decide_on_def insert_all_snoc)
  next
    case rejected
    have "store_get L (reject_tracker p) = store_get L p" by (rule store_only_shards) simp_all
    then have "epoch_history L repr rs (Suc n) (reject_tracker p)"
      using hist' history_same_store [of L "reject_tracker p" p] by simp
    with rejected show ?thesis by (simp add: shouldDrop_simps)
  next
    case created
    let ?p = "create_tracker L ?key p"
    have new: "insert_all L [] (newTracker L) = newTracker L" by (simp add: insert_all_def)
    have start: "epoch_start repr (newTracker L)" by (rule epoch_start_new [OF laws])
    have hist1: "epoch_history L repr rs (Suc n) ?p"
      using history_put [OF hist' start, of "[]" ?key] ok
      by (simp add: new) (simp add: epoch_history_def create_tracker_ok create_tracker_get sharded.get_put)
    have "\<not> fst (decide_on L ?key ?h (insert_all L [] (newTracker L)) ?p)"
      by (rule quiet_decision [OF laws start _ r]) (use lim n ok create_tracker_ok in auto)
    moreover have "epoch_history L repr rs (Suc n) (store_put L ?key (insert_all L [?h] (newTracker L)) ?p)"
      using hashes_of_mem [OF r] by (intro history_put [OF hist1 start]) auto
    ultimately show ?thesis
      using created insert_all_snoc [of L "[]" ?h "newTracker L"]
      by (simp add: shouldDrop_simps decide_on_def new)
  qed
  then show "\<not> fst (shouldDrop L m k v p)" "epoch_history L repr rs (Suc n) (snd (shouldDrop L m k v p))"
    by simp_all
qed

lemma quiet_run:
  assumes laws: "sketch_laws L repr" and lim: "within_limits L repr eps (cfg p) rs"
    and hist: "epoch_history L repr rs n p" and sub: "set rs1 \<subseteq> set rs" "n + length rs1 \<le> length rs"
  shows "True \<notin> set (fst (traverse (request_step L) rs1 p)) \<and>
    epoch_history L repr rs (n + length rs1) (snd (traverse (request_step L) rs1 p))"
  using lim hist sub
proof (induction rs1 arbitrary: n p)
  case Nil
  then show ?case by simp
next
  case (Cons r rs1)
  obtain m k v where r: "r = (m, k, v)" by (cases r) auto
  let ?p = "snd (shouldDrop L m k v p)"
  note step = quiet_step [OF laws Cons.prems(2,1), of m k v]
  have "cfg ?p = cfg p" using shouldDrop_same_settings [of p L m k v] by (simp add: same_settings_def)
  then have "True \<notin> set (fst (traverse (request_step L) rs1 ?p)) \<and>
      epoch_history L repr rs (Suc n + length rs1) (snd (traverse (request_step L) rs1 ?p))"
    using Cons.prems step r by (intro Cons.IH) auto
  moreover have "request_step L r p = shouldDrop L m k v p" by (simp add: r request_step_def)
  moreover have "\<not> fst (shouldDrop L m k v p)" using step(1) Cons.prems(3,4) r by simp
  ultimately show ?case by (simp add: split_beta Let_def)
qed

lemma history_core: "core p = core q \<Longrightarrow> epoch_history L repr rs n p = epoch_history L repr rs n q"
  using core_store_get [of p q L] by (intro history_same_store) (simp_all add: core_def shards_ok_def)

section \<open>Batches during an epoch\<close>

definition epoch_begins :: "('v, 'x, 'sk) lib \<Rightarrow> ('sk \<Rightarrow> u64 set \<Rightarrow> bool) \<Rightarrow> 'sk processor \<Rightarrow> bool" where
  "epoch_begins L repr p \<longleftrightarrow> shards_ok p \<and>
     (\<forall>key t. store_get L p key = Some t \<longrightarrow> epoch_start repr t)"

lemma history_begins: "epoch_begins L repr p \<Longrightarrow> epoch_history L repr rs 0 p"
  unfolding epoch_history_def epoch_begins_def
  by (auto simp: insert_all_def)

text \<open>A processor just built, and one just rotated, are at the beginning of an epoch.\<close>

lemma make_processor_begins: "epoch_begins L repr (make_processor L c sd)"
  by (simp add: epoch_begins_def)

lemma rotate_begins:
  assumes laws: "sketch_laws L repr" and r: "range_ok r" and ok: "shards_ok p"
  shows "epoch_begins L repr (processor_rotate L r p)"
proof -
  have "repr (mustGetSketch L) {}" using laws by (simp add: sketch_laws_def mustGetSketch_def)
  then have fresh: "epoch_start repr t'" if "fate L t = Some t'" for t t'
    using that by (auto simp: fate_def rotated_def epoch_start_rotate split: if_splits)
  show ?thesis
    unfolding epoch_begins_def rotate_store [OF ok r]
    using fresh rotate_shards_ok [OF ok r] by (auto simp: bind_eq_Some_conv)
qed

text \<open>A consumer that records what it gets, and a sequence of batches.\<close>

definition recorder :: "('v, 'x, ('v, 'x) batch list) consumer" where
  "recorder md seen = (None, seen @ [md])"

definition consume_all ::
  "('v, 'x, 'sk) lib \<Rightarrow> ('v, 'x, 'n) consumer \<Rightarrow> ('v, 'x) batch list \<Rightarrow> 'sk processor \<times> 'n \<Rightarrow>
   'sk processor \<times> 'n" where
  "consume_all L nextConsumer mds st =
     fold (\<lambda>md s. snd (ConsumeMetrics L nextConsumer md s)) mds st"

lemma quiet_batch:
  assumes laws: "sketch_laws L repr" "pdata_laws L"
    and lim: "within_limits L repr eps (cfg p) rs" and hist: "epoch_history L repr rs n p"
    and sub: "set (batch_requests L (protectedLabels p) md) \<subseteq> set rs"
      "n + length (batch_requests L (protectedLabels p) md) \<le> length rs"
    and regular: "enforcementMode p = EnforcementStripAndReaggregate \<Longrightarrow> regular_batch L md"
  shows "fst (traverse (process_resource L) md p) = md \<and>
    epoch_history L repr rs (n + length (batch_requests L (protectedLabels p) md))
      (snd (traverse (process_resource L) md p))"
proof -
  note run = quiet_run [OF laws(1) lim hist sub]
  then show ?thesis
    using batch_pass.pass_quiet [OF refl [of "core p"] refl refl regular_batch_all [OF laws(2) regular]]
      history_core [OF batch_pass.pass_core [OF refl [of "core p"] refl refl]] by blast
qed

lemma quiet_batches:
  assumes laws: "sketch_laws L repr" "pdata_laws L"
    and lim: "within_limits L repr eps (cfg p) rs" and hist: "epoch_history L repr rs n p"
    and sub: "set (concat (map (batch_requests L (protectedLabels p)) mds)) \<subseteq> set rs"
      "n + length (concat (map (batch_requests L (protectedLabels p)) mds)) \<le> length rs"
    and regular: "enforcementMode p = EnforcementStripAndReaggregate \<Longrightarrow> list_all (regular_batch L) mds"
  shows "snd (consume_all L recorder mds (p, seen)) = seen @ mds"
  using lim hist sub regular
proof (induction mds arbitrary: p n seen)
  case Nil
  then show ?case by (simp add: consume_all_def)
next
  case (Cons md mds)
  let ?p = "snd (traverse (process_resource L) md p)"
  have same: "same_settings p ?p" by (rule settings_contract.batch_R)
  have md: "fst (traverse (process_resource L) md p) = md"
    "epoch_history L repr rs (n + length (batch_requests L (protectedLabels p) md)) ?p"
    using quiet_batch [OF laws Cons.prems(1,2), of md] Cons.prems(3-5) by auto
  have "snd (consume_all L recorder mds (?p, seen @ [md])) = (seen @ [md]) @ mds"
    using Cons.prems same by (intro Cons.IH [OF _ md(2)]) (auto simp: same_settings_def)
  then show ?case
    by (simp add: consume_all_def ConsumeMetrics_def recorder_def md(1) split_beta Let_def)
qed

section \<open>Properties\<close>

lemma quiet_epoch:
  assumes laws: "sketch_laws L repr" "pdata_laws L" and start: "epoch_begins L repr p"
    and lim: "within_limits L repr eps (cfg p) (concat (map (batch_requests L (protectedLabels p)) mds))"
    and regular: "enforcementMode p = EnforcementStripAndReaggregate \<Longrightarrow> list_all (regular_batch L) mds"
  shows "snd (consume_all L recorder mds (p, [])) = mds"
  using quiet_batches [OF laws lim history_begins [OF start] order.refl _ regular, of "[]"] by simp

text \<open>
  C4. On traffic that behaves the processor is the identity: from the beginning of an epoch (the
  processor was just built, or just rotated), if every (metric, label) pair shows in the
  coming batches at most as many distinct values as its limit, less the sketch's error,
  then the next consumer receives exactly these batches, in every mode. (In strip mode
  points that come in with equal identities are merged, so there must be none.)
\<close>

theorem quiet_epoch_is_identity:
  assumes laws: "sketch_laws L repr" "pdata_laws L"
    and start: "p = make_processor L c sd \<or> p = processor_rotate L r q \<and> tracker_inv q \<and> range_ok r"
    and lim: "within_limits L repr eps (cfg p) (concat (map (batch_requests L (protectedLabels p)) mds))"
    and regular: "enforcementMode p = EnforcementStripAndReaggregate \<Longrightarrow> list_all (regular_batch L) mds"
  shows "snd (consume_all L recorder mds (p, [])) = mds"
proof -
  have "epoch_begins L repr p"
    using start make_processor_begins rotate_begins [OF laws(1)] tracker_inv_shards_ok by metis
  from quiet_epoch [OF laws this lim regular] show ?thesis .
qed

section \<open>Witness\<close>

lemma calm_within_limits:
  "within_limits ref_lib ref_repr 0 (cfg strip_processor)
     (concat (map (batch_requests ref_lib (protectedLabels strip_processor)) [calm_batch, calm_batch]))"
proof -
  let ?H = "set (hashes_of ref_lib (TrackerKey ''m'' ''k'') [(''m'', ''k'', ''a''), (''m'', ''k'', ''a'')])"
  have H: "?H = {ref_hash ''a''}" by (simp add: hashes_of_def ref_lib_def)
  have "accurate ref_lib ref_repr 0 A" if "A \<subseteq> ?H" for A
  proof (rule ref_lib_accurate)
    have "A \<subseteq> {ref_hash ''a''}" using that H by blast
    then show "finite A" "card A < 2 ^ 64"
      using card_mono [of "{ref_hash ''a''}" A] by (auto intro: finite_subset)
  qed
  moreover have "unat (getLimit (cfg strip_processor) ''m'') = 1" by code_simp
  ultimately show ?thesis
    using H by (simp add: calm_batch_requests within_limits_def)
qed

theorem quiet_epoch_is_identity_witness:
  "snd (consume_all ref_lib recorder [calm_batch, calm_batch] (strip_processor, [])) = [calm_batch, calm_batch]"
proof (rule quiet_epoch_is_identity [OF ref_lib_sketch_laws ref_lib_pdata_laws _ calm_within_limits])
  show "strip_processor = make_processor ref_lib (createDefaultConfig\<lparr>MaxCardinalityDeltaPerEpoch := 1,
        EnforcementMode := EnforcementStripAndReaggregate, NeverDropLabels := [''region'']\<rparr>) 7 \<or>
      strip_processor = processor_rotate ref_lib rev strip_processor \<and>
      tracker_inv strip_processor \<and> range_ok rev"
    by (simp add: strip_processor_def)
  show "list_all (regular_batch ref_lib) [calm_batch, calm_batch]"
    by (simp add: calm_batch_regular)
qed

end
