(* ===== verification/Stress.thy ===== *)
theory Stress
  imports Quiet_Epoch "HOL-Library.Sublist"
begin

text \<open>
  The load generator \<open>internal/cmd/stress/main.go\<close>: the batch it builds, and what the processor
  with its default configuration forwards of such a load. The random draw and the UUID are
  arguments; \<open>main\<close>, which sends the batches, is in \<open>Firehose\<close>.
\<close>

section \<open>The generator\<close>

definition generateMockMetrics :: "('v, 'x, 'sk) lib \<Rightarrow> bool \<Rightarrow> string \<Rightarrow> ('v, 'x) batch" where
  "generateMockMetrics L chaos newUUID =
     (let attrs0 = PutStr L ''region'' ''us-east'' [];
          attrs1 = PutStr L ''status_code'' ''200'' attrs0;
          attrs2 = (if chaos then PutStr L ''session_id'' newUUID attrs1 else attrs1);
          dp = \<lparr>dp_attributes = attrs2, dp_startTimestamp = 0, dp_timestamp = 0,
                dp_value = NumberEmpty, dp_exemplars = [], dp_flags = 0\<rparr>;
          m = \<lparr>m_name = ''api.request.duration'', m_description = [], m_unit = [], m_data = Gauge [dp]\<rparr>
      in [\<lparr>rm_resource = [], rm_scopes = [\<lparr>sm_scope = [], sm_metrics = [m]\<rparr>]\<rparr>])"

text \<open>\<open>PutStr\<close> inserts a key that is not there at the end of the map.\<close>

definition put_appends :: "('v, 'x, 'sk) lib \<Rightarrow> bool" where
  "put_appends L \<longleftrightarrow> (\<forall>k s. \<exists>v. \<forall>m. k \<notin> fst ` set m \<longrightarrow> PutStr L k s m = m @ [(k, v)])"

section \<open>A fresh processor without a budget\<close>

text \<open>The tracker of a pair has seen exactly the pair's values, from its creation on.\<close>

lemma fresh_store:
  assumes "MaxTrackerCount c = 0"
  shows "store_get L (snd (traverse (request_step L) rs (make_processor L c sd))) key =
    (if hashes_of L key rs = [] then None else Some (insert_all L (hashes_of L key rs) (newTracker L)))"
proof (induction rs rule: rev_induct)
  case Nil
  show ?case by (simp add: hashes_of_def)
next
  case (snoc r rs)
  obtain m k v where r: "r = (m, k, v)" by (cases r) auto
  let ?p = "snd (traverse (request_step L) rs (make_processor L c sd))"
  have ok: "shards_ok ?p"
    by (rule tracker_inv_shards_ok, rule request_loop.loop_I) simp
  have room: "\<not> budget_exhausted ?p" using assms by (simp add: budget_exhausted_def request_cfg)
  have step: "snd (traverse (request_step L) (rs @ [r]) (make_processor L c sd)) = snd (shouldDrop L m k v ?p)"
    by (simp add: traverse_append request_step_def r split_beta Let_def)
  show ?case
  proof (cases "TrackerKey m k = key")
    case False
    then show ?thesis
      using snoc shouldDrop_other_tracker [OF ok, of key m k L v]
      unfolding step by (auto simp: hashes_of_def r)
  next
    case True
    have h: "hashes_of L key (rs @ [r]) = hashes_of L key rs @ [Sum64String L v]"
      using True by (simp add: hashes_of_def r)
    show ?thesis
    proof (cases "hashes_of L key rs = []")
      case True': True
      then have "store_get L ?p (TrackerKey m k) = None" using snoc True by simp
      with True True' ok room show ?thesis
        unfolding step h
        by (simp add: shouldDrop_simps decide_on_flat create_tracker_ok insert_all_def)
    next
      case False
      then have "store_get L ?p (TrackerKey m k) = Some (insert_all L (hashes_of L key rs) (newTracker L))"
        using snoc True by simp
      from shouldDrop_own_tracker [OF ok this, of v] show ?thesis
        unfolding step h by (simp add: insert_all_snoc True)
    qed
  qed
qed

lemma fresh_verdict:
  assumes "MaxTrackerCount c = 0"
  shows "fst (shouldDrop L m k v (snd (traverse (request_step L) rs (make_processor L c sd)))) \<longleftrightarrow>
    unat (getLimit c m) <
      unat (cachedCurr (insert_all L (hashes_of L (TrackerKey m k) (rs @ [(m, k, v)])) (newTracker L)))"
proof -
  let ?p = "snd (traverse (request_step L) rs (make_processor L c sd))" and ?key = "TrackerKey m k"
  have ok: "shards_ok ?p"
    by (rule tracker_inv_shards_ok, rule request_loop.loop_I) simp
  have room: "\<not> budget_exhausted ?p" using assms by (simp add: budget_exhausted_def request_cfg)
  have h: "hashes_of L ?key (rs @ [(m, k, v)]) = hashes_of L ?key rs @ [Sum64String L v]"
    by (simp add: hashes_of_def)
  have prev: "cachedPrev (snd (tracker_insert L h (insert_all L hs (newTracker L)))) = 0" for h hs
    by (simp add: frame_simps newTracker_def)
  show ?thesis
  proof (cases "hashes_of L ?key rs = []")
    case True
    then have "store_get L ?p ?key = None" by (simp add: fresh_store [OF assms])
    with room ok show ?thesis
      using prev [of "Sum64String L v" "[]"]
      by (simp add: shouldDrop_simps decide_on_flat create_tracker_ok request_cfg h insert_all_snoc)
         (simp add: insert_all_def True)
  next
    case False
    then have "store_get L ?p ?key = Some (insert_all L (hashes_of L ?key rs) (newTracker L))"
      by (simp add: fresh_store [OF assms])
    with ok show ?thesis
      by (simp add: shouldDrop_simps decide_on_flat request_cfg h insert_all_snoc prev)
  qed
qed

section \<open>One generated batch\<close>

abbreviation mock_name :: string where
  "mock_name \<equiv> ''api.request.duration''"

definition mock_requests :: "bool \<times> string \<Rightarrow> request list" where
  "mock_requests d = (mock_name, ''status_code'', ''200'') #
     (if fst d then [(mock_name, ''session_id'', snd d)] else [])"

definition mock_attrs :: "('v, 'x, 'sk) lib \<Rightarrow> bool \<Rightarrow> string \<Rightarrow> 'v attrs" where
  "mock_attrs L chaos u =
     (let attrs1 = PutStr L ''status_code'' ''200'' (PutStr L ''region'' ''us-east'' [])
      in if chaos then PutStr L ''session_id'' u attrs1 else attrs1)"

definition mock_point :: "'v attrs \<Rightarrow> ('v, 'x) number_dp" where
  "mock_point a = \<lparr>dp_attributes = a, dp_startTimestamp = 0, dp_timestamp = 0,
     dp_value = NumberEmpty, dp_exemplars = [], dp_flags = 0\<rparr>"

definition mock_batch :: "('v, 'x) number_dp list \<Rightarrow> ('v, 'x) batch" where
  "mock_batch dps = [\<lparr>rm_resource = [], rm_scopes = [\<lparr>sm_scope = [], sm_metrics =
     [\<lparr>m_name = mock_name, m_description = [], m_unit = [], m_data = Gauge dps\<rparr>]\<rparr>]\<rparr>]"

lemma generate_mock: "generateMockMetrics L chaos u = mock_batch [mock_point (mock_attrs L chaos u)]"
  by (simp add: generateMockMetrics_def mock_batch_def mock_point_def mock_attrs_def Let_def)

lemma mock_attrs_entries:
  assumes laws: "pdata_laws L" and app: "put_appends L"
  obtains a b w where "mock_attrs L False u = [(''region'', a), (''status_code'', b)]"
    "mock_attrs L True u = [(''region'', a), (''status_code'', b), (''session_id'', w)]"
    "AsString L b = ''200''" "AsString L w = u"
proof -
  obtain a where a: "PutStr L ''region'' ''us-east'' [] = [(''region'', a)]"
    using app unfolding put_appends_def by (metis append_Nil empty_iff image_empty list.set(1))
  obtain b where b: "\<And>m. ''status_code'' \<notin> fst ` set m \<Longrightarrow> PutStr L ''status_code'' ''200'' m = m @ [(''status_code'', b)]"
    using app unfolding put_appends_def by metis
  obtain w where w: "\<And>m. ''session_id'' \<notin> fst ` set m \<Longrightarrow> PutStr L ''session_id'' u m = m @ [(''session_id'', w)]"
    using app unfolding put_appends_def by metis
  have "AsString L b = ''200''" "AsString L w = u"
    using pdata_PutStr(2) [OF laws, of "''status_code''" "''200''" "[]"]
      pdata_PutStr(2) [OF laws, of "''session_id''" u "[]"] b [of "[]"] w [of "[]"] by simp_all
  with a b w show thesis
    by (intro that [of a b w]) (simp_all add: mock_attrs_def Let_def)
qed

lemma mock_batch_requests:
  assumes "pdata_laws L" and "put_appends L" and "P = {''http.status_code'', ''region''}"
  shows "batch_requests L P (generateMockMetrics L c u) = mock_requests (c, u)"
proof -
  obtain a b w where "mock_attrs L False u = [(''region'', a), (''status_code'', b)]"
    "mock_attrs L True u = [(''region'', a), (''status_code'', b), (''session_id'', w)]"
    "AsString L b = ''200''" "AsString L w = u"
    using mock_attrs_entries [OF assms(1,2)] by blast
  then show ?thesis
    by (cases c) (simp_all add: generate_mock mock_batch_def batch_requests_def resource_requests_def scope_requests_def
        metric_requests_def attr_requests_def mock_point_def mock_requests_def assms(3))
qed

text \<open>What strip mode makes of it, given that the status code is within its limit.\<close>

lemma mock_enforced:
  assumes laws: "pdata_laws L" and app: "put_appends L"
    and mode: "enforcementMode p = EnforcementStripAndReaggregate"
    and prot: "protectedLabels p = {''http.status_code'', ''region''}"
    and status: "\<not> fst (shouldDrop L mock_name ''status_code'' ''200'' p)"
  shows "fst (traverse (process_resource L) (generateMockMetrics L c u) p) =
    generateMockMetrics L
      (c \<and> \<not> fst (shouldDrop L mock_name ''session_id'' u (snd (shouldDrop L mock_name ''status_code'' ''200'' p)))) u"
proof -
  obtain a b w where attrs: "mock_attrs L False u = [(''region'', a), (''status_code'', b)]"
    "mock_attrs L True u = [(''region'', a), (''status_code'', b), (''session_id'', w)]"
    and vals: "AsString L b = ''200''" "AsString L w = u"
    using mock_attrs_entries [OF laws app] by blast
  let ?d = "fst (shouldDrop L mock_name ''session_id'' u (snd (shouldDrop L mock_name ''status_code'' ''200'' p)))"
  have prot': "protectedLabels (snd (shouldDrop L mock_name ''status_code'' ''200'' p)) = {''http.status_code'', ''region''}"
    using prot shouldDrop_same_settings [of p L mock_name "''status_code''" "''200''"]
    by (simp add: same_settings_def)
  have "verdicts L mock_name (mock_attrs L c u) p = (if c then [False, False, ?d] else [False, False])"
    using status by (cases c) (simp_all add: verdicts_def attrs judge_def isProtected_def prot prot' vals split_beta Let_def)
  then have enf: "fst (handleAttributesWithMode L mock_name EnforcementStripAndReaggregate (mock_attrs L c u) p)
      = mock_attrs L (c \<and> \<not> ?d) u"
    by (cases c) (simp_all add: handle_enforces [OF laws] enforce_def attrs)
  show ?thesis
    by (simp add: generate_mock mock_batch_def process_resource_def process_scope_def processMetric_def
        process_data_def processNumberDataPoints_def handleAttributes_def split_beta Let_def mode
        mock_point_def enf reaggregate_regular [OF laws])
qed

section \<open>The load\<close>

text \<open>
  A load is a list of draws: whether the generator injected a session id, and which. Its
  session hashes are distinct, and every estimate that a refresh may read (of the sessions so
  far, and of the one status code) is within a fifth of the truth, plus one. The error
  that \<open>processor.go\<close> documents for its sketches is about 0.81 percent.
\<close>

type_synonym draw = "bool \<times> string"

definition sessions :: "draw list \<Rightarrow> string list" where
  "sessions ds = map snd (filter fst ds)"

definition fifth_accurate :: "('v, 'x, 'sk) lib \<Rightarrow> ('sk \<Rightarrow> u64 set \<Rightarrow> bool) \<Rightarrow> u64 set \<Rightarrow> bool" where
  "fifth_accurate L repr A \<longleftrightarrow> accurate L repr (card A div 5 + 1) A"

definition counted_load :: "('v, 'x, 'sk) lib \<Rightarrow> ('sk \<Rightarrow> u64 set \<Rightarrow> bool) \<Rightarrow> draw list \<Rightarrow> bool" where
  "counted_load L repr ds \<longleftrightarrow> distinct (map (Sum64String L) (sessions ds)) \<and> length ds < 2 ^ 64 \<and>
     fifth_accurate L repr {Sum64String L ''200''} \<and>
     (\<forall>n \<le> length (sessions ds). fifth_accurate L repr (set (take n (map (Sum64String L) (sessions ds)))))"

text \<open>What is left of it after \<open>n\<close> sessions: only the first 127 keep their id.\<close>

fun cut_load :: "nat \<Rightarrow> draw list \<Rightarrow> draw list" where
  "cut_load n [] = []"
| "cut_load n ((c, u) # ds) = (c \<and> n < 127, u) # cut_load (if c then Suc n else n) ds"

abbreviation generate :: "('v, 'x, 'sk) lib \<Rightarrow> draw \<Rightarrow> ('v, 'x) batch" where
  "generate L d \<equiv> generateMockMetrics L (fst d) (snd d)"

abbreviation load_requests :: "draw list \<Rightarrow> request list" where
  "load_requests ds \<equiv> concat (map mock_requests ds)"

lemma sessions_simps [simp]:
  "sessions [] = []" "sessions ((c, u) # ds) = (if c then u # sessions ds else sessions ds)"
  "sessions (ds @ es) = sessions ds @ sessions es"
  by (simp_all add: sessions_def)

lemma sessions_length: "length (sessions ds) \<le> length ds"
  by (simp add: sessions_def)

lemma load_hashes:
  "hashes_of L (TrackerKey mock_name ''status_code'') (load_requests ds) = replicate (length ds) (Sum64String L ''200'')"
  "hashes_of L (TrackerKey mock_name ''session_id'') (load_requests ds) = map (Sum64String L) (sessions ds)"
  by (induction ds) (auto simp: hashes_of_def mock_requests_def)

lemma hashes_append: "hashes_of L key (rs @ rs') = hashes_of L key rs @ hashes_of L key rs'"
  by (simp add: hashes_of_def)

lemma default_limits:
  "MaxTrackerCount createDefaultConfig = 0" "unat (getLimit createDefaultConfig m) = 100"
  by (simp_all add: createDefaultConfig_def getLimit_def)

lemma accurate_mono: "accurate L repr eps A \<Longrightarrow> eps \<le> eps' \<Longrightarrow> accurate L repr eps' A"
  unfolding accurate_def by (meson add_left_mono order.trans)

text \<open>Such a counter separates 64 values from 128.\<close>

lemma counted_estimate:
  assumes "sketch_laws L repr" "epoch_start repr t" "hs \<noteq> []" "length hs < 2 ^ 64"
    and "fifth_accurate L repr (set (take (refreshed (length hs)) hs))"
    and "n = card (set (take (refreshed (length hs)) hs))"
  shows "n \<le> 64 \<Longrightarrow> unat (cachedCurr (insert_all L hs t)) \<le> 100"
    and "128 \<le> n \<Longrightarrow> 100 < unat (cachedCurr (insert_all L hs t))"
proof -
  obtain s where s: "repr s (set (take (refreshed (length hs)) hs))"
    and c: "cachedCurr (insert_all L hs t) = fst (Estimate L s)"
    using insert_all_represents [OF assms(1,2,4)] assms(3) by auto
  have near: "unat (cachedCurr (insert_all L hs t)) \<le> n + (n div 5 + 1)"
    "n \<le> unat (cachedCurr (insert_all L hs t)) + (n div 5 + 1)"
    using assms(5) s unfolding fifth_accurate_def accurate_def c assms(6) by blast+
  show "unat (cachedCurr (insert_all L hs t)) \<le> 100" if "n \<le> 64"
    using near(1) div_le_mono [OF that, of 5] that by simp
  show "100 < unat (cachedCurr (insert_all L hs t))" if "128 \<le> n"
    using near(2) that by presburger
qed

lemma status_verdict:
  assumes laws: "sketch_laws L repr" and load: "counted_load L repr us" and n: "length vs < length us"
  shows "\<not> fst (shouldDrop L mock_name ''status_code'' ''200''
    (snd (traverse (request_step L) (load_requests vs) (make_processor L createDefaultConfig sd))))"
proof -
  let ?h = "Sum64String L ''200''" and ?hs = "replicate (Suc (length vs)) (Sum64String L ''200'')"
  have hs: "hashes_of L (TrackerKey mock_name ''status_code'')
      (load_requests vs @ [(mock_name, ''status_code'', ''200'')]) = ?hs"
    unfolding hashes_append load_hashes by (simp add: hashes_of_def replicate_append_same)
  have "0 < refreshed (length ?hs)" by (auto simp: refreshed_def)
  then have seen: "set (take (refreshed (length ?hs)) ?hs) = {?h}"
    using refreshed_le [of "length ?hs"] by (simp only: take_replicate set_replicate_conv_if) auto
  have "length ?hs < 2 ^ 64" using n load by (simp add: counted_load_def)
  then have "unat (cachedCurr (insert_all L ?hs (newTracker L))) \<le> 100"
    by (intro counted_estimate(1) [OF laws epoch_start_new [OF laws] _ _ _ refl])
       (use load in \<open>simp_all only: seen counted_load_def, simp_all\<close>)
  then show ?thesis
    unfolding fresh_verdict [OF default_limits(1)] hs default_limits(2) by linarith
qed

lemma refreshed_split: "n < 128 \<Longrightarrow> refreshed n \<le> 64" "refreshed 128 = 128"
  using less_mult_imp_div_less [of n 2 64] by (auto simp: refreshed_def)

lemma session_verdict:
  assumes laws: "sketch_laws L repr" and load: "counted_load L repr (vs @ (True, v) # ws)"
  shows "fst (shouldDrop L mock_name ''session_id'' v
      (snd (traverse (request_step L) (load_requests vs @ [(mock_name, ''status_code'', ''200'')])
         (make_processor L createDefaultConfig sd)))) \<longleftrightarrow> 127 \<le> length (sessions vs)"
proof -
  let ?hs = "map (Sum64String L) (sessions vs @ [v])" and ?n = "refreshed (Suc (length (sessions vs)))"
  have hs: "hashes_of L (TrackerKey mock_name ''session_id'')
      ((load_requests vs @ [(mock_name, ''status_code'', ''200'')]) @ [(mock_name, ''session_id'', v)]) = ?hs"
    unfolding hashes_append load_hashes by (simp add: hashes_of_def)
  have len: "length ?hs = Suc (length (sessions vs))" by simp
  have "take ?n ?hs = take ?n (map (Sum64String L) (sessions (vs @ (True, v) # ws)))"
    using refreshed_le [of "length ?hs"] by (auto simp: take_Cons')
  then have acc: "fifth_accurate L repr (set (take (refreshed (length ?hs)) ?hs))"
    using load refreshed_le [of "length ?hs"] unfolding counted_load_def len by simp
  have distinct: "distinct ?hs" using load by (simp add: counted_load_def)
  have card: "?n = card (set (take (refreshed (length ?hs)) ?hs))"
    using distinct_card [OF distinct_take [OF distinct]] refreshed_le [of "length ?hs"] by simp
  have "length ?hs < 2 ^ 64"
    using load sessions_length [of vs] by (simp add: counted_load_def)
  note estimate = counted_estimate [OF laws epoch_start_new [OF laws] _ this acc card]
  have "?n \<le> 64 \<and> length (sessions vs) < 127 \<or> 128 \<le> ?n \<and> 127 \<le> length (sessions vs)"
    using refreshed_mono [of 128 "Suc (length (sessions vs))"] refreshed_split
    by (cases "length (sessions vs) < 127") simp_all
  then show ?thesis
    unfolding fresh_verdict [OF default_limits(1)] hs default_limits(2) using estimate by auto
qed

lemma load_run:
  assumes laws: "sketch_laws L repr" "pdata_laws L" "put_appends L"
    and load: "counted_load L repr (vs @ ws)"
    and core: "core p = core (snd (traverse (request_step L) (load_requests vs)
      (make_processor L createDefaultConfig sd)))"
    and mode: "enforcementMode p = EnforcementStripAndReaggregate"
  shows "snd (consume_all L recorder (map (generate L) ws) (p, seen)) =
    seen @ map (generate L) (cut_load (length (sessions vs)) ws)"
  using load core mode
proof (induction ws arbitrary: vs p seen)
  case Nil
  then show ?case by (simp add: consume_all_def)
next
  case (Cons d ws)
  obtain c v where d: "d = (c, v)" by (cases d)
  let ?p0 = "make_processor L createDefaultConfig sd" and ?md = "generateMockMetrics L c v"
  let ?n = "length (sessions vs)" and ?out = "generateMockMetrics L (c \<and> length (sessions vs) < 127) v"
  let ?q = "snd (traverse (request_step L) (load_requests vs) ?p0)"
  let ?p1 = "snd (traverse (process_resource L) ?md p)"
  have "same_settings ?p0 ?q" by (rule request_settings.loop_R)
  then have prot: "protectedLabels p = {''http.status_code'', ''region''}"
    using Cons.prems(2) by (simp add: core_def same_settings_def createDefaultConfig_def)
  have status: "\<not> fst (shouldDrop L mock_name ''status_code'' ''200'' p)"
    unfolding core_shouldDrop(1) [OF Cons.prems(2)]
    by (rule status_verdict [OF laws(1) Cons.prems(1)]) simp
  have q1: "snd (shouldDrop L mock_name ''status_code'' ''200'' ?q) =
      snd (traverse (request_step L) (load_requests vs @ [(mock_name, ''status_code'', ''200'')]) ?p0)"
    by (simp add: traverse_append request_step_def split_beta Let_def)
  have "fst (shouldDrop L mock_name ''session_id'' v (snd (shouldDrop L mock_name ''status_code'' ''200'' p)))
      \<longleftrightarrow> 127 \<le> ?n" if c
    unfolding core_shouldDrop(1) [OF core_shouldDrop(2) [OF Cons.prems(2)]] q1
    by (rule session_verdict [OF laws(1)]) (use Cons.prems(1) that d in simp)
  then have out: "fst (traverse (process_resource L) ?md p) = ?out"
    using mock_enforced [OF laws(2,3) Cons.prems(3) prot status, of c v] by (cases c) (simp_all add: not_le)
  have reqs: "batch_requests L (protectedLabels p) ?md = mock_requests (c, v)"
    by (rule mock_batch_requests [OF laws(2,3) prot])
  have "core ?p1 = core (snd (traverse (request_step L) (load_requests (vs @ [d])) ?p0))"
    using batch_pass.pass_core [OF Cons.prems(2) refl refl, of L ?md]
    by (simp add: reqs traverse_append d)
  moreover have "enforcementMode ?p1 = EnforcementStripAndReaggregate"
    using settings_contract.batch_R [of p L ?md] Cons.prems(3) by (simp add: same_settings_def)
  moreover have "counted_load L repr ((vs @ [d]) @ ws)" using Cons.prems(1) by simp
  ultimately have "snd (consume_all L recorder (map (generate L) ws) (?p1, seen @ [?out])) =
    (seen @ [?out]) @ map (generate L) (cut_load (length (sessions (vs @ [d]))) ws)"
    by (intro Cons.IH)
  moreover have "snd (ConsumeMetrics L recorder ?md (p, seen)) = (?p1, seen @ [?out])"
    by (simp add: ConsumeMetrics_def recorder_def out split_beta Let_def)
  ultimately show ?case
    by (cases c) (simp_all add: consume_all_def d)
qed

text \<open>
  The stress load against the default configuration: within one epoch the first 127 batches with
  a session id are forwarded as they came and every later one without it, as if the
  generator had not injected it; the region and the status code are never touched.
\<close>

lemma stress_load_is_cut:
  assumes "sketch_laws L repr" "pdata_laws L" "put_appends L" and "counted_load L repr ds"
  shows "snd (consume_all L recorder (map (generate L) ds) (make_processor L createDefaultConfig sd, [])) =
    map (generate L) (cut_load 0 ds)"
  using load_run [OF assms(1-3), of "[]" ds "make_processor L createDefaultConfig sd" sd "[]"] assms(4)
  by (simp add: default_config_mode)

section \<open>A concrete load\<close>

lemma ref_lib_appends: "put_appends ref_lib"
proof -
  have "AList.update k v m = m @ [(k, v)]" if "k \<notin> fst ` set m" for k v and m :: "string attrs"
    using that by (induction m) auto
  then show ?thesis
    by (simp add: put_appends_def ref_lib_def ref_put_def)
qed

text \<open>A load of 128 sessions.\<close>

definition demo_sessions :: "string list" where
  "demo_sessions = map (\<lambda>n. [char_of n]) [0..<128]"

definition demo_draws :: "draw list" where
  "demo_draws = map (Pair True) demo_sessions"

lemma sessions_all: "sessions (map (Pair True) us) = us"
  by (induction us) simp_all

lemma session_hash: "n < 256 \<Longrightarrow> Sum64String ref_lib [char_of n] = of_nat n + 1"
  by (simp add: ref_lib_def ref_hash_def)

lemma demo_sessions_distinct: "distinct (map (Sum64String ref_lib) demo_sessions)"
proof -
  have "map (Sum64String ref_lib) demo_sessions = map (\<lambda>n. of_nat n + 1) [0..<128]"
    unfolding demo_sessions_def map_map
    by (rule map_cong [OF refl]) (simp add: session_hash del: upt_rec_numeral)
  moreover have "inj_on (\<lambda>n. of_nat n + 1 :: u64) {0..<128}"
  proof (rule inj_onI)
    fix i j :: nat
    assume "i \<in> {0..<128}" "j \<in> {0..<128}" "of_nat i + 1 = (of_nat j + 1 :: u64)"
    then have small: "i < 2 ^ 64" "j < 2 ^ 64" and "unat (of_nat i :: u64) = unat (of_nat j :: u64)"
      by simp_all
    then show "i = j" by (simp add: unat_of_nat)
  qed
  ultimately show ?thesis by (simp add: distinct_map del: upt_rec_numeral)
qed

lemma demo_load: "counted_load ref_lib ref_repr demo_draws"
proof -
  have acc: "fifth_accurate ref_lib ref_repr A" if "finite A" "card A < 2 ^ 64" for A
    unfolding fifth_accurate_def by (rule accurate_mono [OF ref_lib_accurate [OF that]]) simp
  have "card (set (take n (map (Sum64String ref_lib) demo_sessions))) < 2 ^ 64" for n
    using card_length [of "take n (map (Sum64String ref_lib) demo_sessions)"]
    by (simp add: demo_sessions_def)
  then have "fifth_accurate ref_lib ref_repr (set (take n (map (Sum64String ref_lib) demo_sessions)))" for n
    by (intro acc) simp_all
  moreover have "fifth_accurate ref_lib ref_repr {Sum64String ref_lib ''200''}" by (rule acc) simp_all
  ultimately show ?thesis
    using demo_sessions_distinct by (simp add: counted_load_def demo_draws_def sessions_all) (simp add: demo_sessions_def)
qed

end
