(* ===== verification/Firehose.thy ===== *)
theory Firehose
  imports Stress
begin

text \<open>
  \<open>main\<close> of the stress tool: the profiler's server, the one-hour timer and the ticker loop that
  builds a batch, marshals it, posts it and closes the response. The marshaller, the HTTP
  client and the servers are arguments.
\<close>

section \<open>The loop\<close>

record ('v, 'x, 'req) otlp =
  MarshalMetrics :: "('v, 'x) batch \<Rightarrow> string + 8 word list"
  NewRequest :: "string \<Rightarrow> string \<Rightarrow> 8 word list \<Rightarrow> string + 'req"
  Header_Set :: "string \<Rightarrow> string \<Rightarrow> 'req \<Rightarrow> 'req"

datatype stress_log =
    LogPprofStarting
  | LogServerEnded string
  | LogFirehoseStarting
  | LogTestComplete
  | LogMarshalError string
  | LogNewRequestError string
  | LogExportError string

text \<open>What a run has written to the log, sent, and closed.\<close>

record ('req, 'resp) firehose =
  fh_log :: "stress_log list"
  fh_sent :: "'req list"
  fh_closed :: "'resp list"

definition log_Printf :: "stress_log \<Rightarrow> ('req, 'resp) firehose \<Rightarrow> ('req, 'resp) firehose" where
  "log_Printf e st = st\<lparr>fh_log := fh_log st @ [e]\<rparr>"

abbreviation metrics_url :: string where
  "metrics_url \<equiv> ''http://localhost:4318/v1/metrics''"

text \<open>One tick: the draw of the generator, and what \<open>client.Do\<close> returns for a request.\<close>

type_synonym ('req, 'resp) tick = "draw \<times> ('req \<Rightarrow> string + 'resp)"

definition firehose_step ::
  "('v, 'x, 'sk) lib \<Rightarrow> ('v, 'x, 'req) otlp \<Rightarrow> ('req, 'resp) tick \<Rightarrow> ('req, 'resp) firehose \<Rightarrow>
   ('req, 'resp) firehose" where
  "firehose_step L H tick st =
     (let md = generateMockMetrics L (fst (fst tick)) (snd (fst tick)) in
      case MarshalMetrics H md of
        Inl err \<Rightarrow> log_Printf (LogMarshalError err) st
      | Inr buf \<Rightarrow>
          (case NewRequest H ''POST'' metrics_url buf of
             Inl err \<Rightarrow> log_Printf (LogNewRequestError err) st
           | Inr req \<Rightarrow>
               (let req' = Header_Set H ''Content-Type'' ''application/x-protobuf'' req;
                    sent = st\<lparr>fh_sent := fh_sent st @ [req']\<rparr>
                in case snd tick req' of
                     Inl err \<Rightarrow> log_Printf (LogExportError err) sent
                   | Inr resp \<Rightarrow> sent\<lparr>fh_closed := fh_closed sent @ [resp]\<rparr>)))"

section \<open>The three goroutines of the program\<close>

datatype main_pc = Booting | Firing | Exited

datatype pprof_pc = PprofPending | PprofServing | PprofEnded

record ('req, 'resp) stress_main =
  sm_pc :: main_pc
  sm_pprof :: pprof_pc
  sm_timedOut :: bool
  sm_fire :: "('req, 'resp) firehose"

definition initial_main :: "('req, 'resp) stress_main" where
  "initial_main = \<lparr>sm_pc = Booting, sm_pprof = PprofPending, sm_timedOut = False,
     sm_fire = \<lparr>fh_log = [], fh_sent = [], fh_closed = []\<rparr>\<rparr>"

definition print_line :: "stress_log \<Rightarrow> ('req, 'resp) stress_main \<Rightarrow> ('req, 'resp) stress_main" where
  "print_line e s = s\<lparr>sm_fire := log_Printf e (sm_fire s)\<rparr>"

text \<open>
  The program up to a moment, with the ticks that have fired. The timer starts when the loop is
  about to; after \<open>os.Exit\<close> nothing runs, and until then the loop may still fire.
\<close>

inductive main_run ::
  "('v, 'x, 'sk) lib \<Rightarrow> ('v, 'x, 'req) otlp \<Rightarrow> ('req, 'resp) tick list \<Rightarrow> ('req, 'resp) stress_main \<Rightarrow> bool"
  for L H where
  go: "main_run L H [] initial_main"
| pprof: "main_run L H ticks s \<Longrightarrow> sm_pc s \<noteq> Exited \<Longrightarrow> sm_pprof s = PprofPending \<Longrightarrow>
     main_run L H ticks (print_line LogPprofStarting (s\<lparr>sm_pprof := PprofServing\<rparr>))"
| pprof_end: "main_run L H ticks s \<Longrightarrow> sm_pc s \<noteq> Exited \<Longrightarrow> sm_pprof s = PprofServing \<Longrightarrow>
     main_run L H ticks (print_line (LogServerEnded err) (s\<lparr>sm_pprof := PprofEnded\<rparr>))"
| announce: "main_run L H ticks s \<Longrightarrow> sm_pc s = Booting \<Longrightarrow>
     main_run L H ticks (print_line LogFirehoseStarting (s\<lparr>sm_pc := Firing\<rparr>))"
| fire: "main_run L H ticks s \<Longrightarrow> sm_pc s = Firing \<Longrightarrow>
     main_run L H (ticks @ [tick]) (s\<lparr>sm_fire := firehose_step L H tick (sm_fire s)\<rparr>)"
| time_out: "main_run L H ticks s \<Longrightarrow> sm_pc s = Firing \<Longrightarrow> \<not> sm_timedOut s \<Longrightarrow>
     main_run L H ticks (print_line LogTestComplete (s\<lparr>sm_timedOut := True\<rparr>))"
| exit: "main_run L H ticks s \<Longrightarrow> sm_pc s = Firing \<Longrightarrow> sm_timedOut s \<Longrightarrow>
     main_run L H ticks (s\<lparr>sm_pc := Exited\<rparr>)"

section \<open>What a run sends\<close>

fun request_of :: "('v, 'x, 'sk) lib \<Rightarrow> ('v, 'x, 'req) otlp \<Rightarrow> draw \<Rightarrow> 'req option" where
  "request_of L H (c, u) =
     (case MarshalMetrics H (generateMockMetrics L c u) of
        Inl _ \<Rightarrow> None
      | Inr buf \<Rightarrow> (case NewRequest H ''POST'' metrics_url buf of
                     Inl _ \<Rightarrow> None
                   | Inr req \<Rightarrow> Some (Header_Set H ''Content-Type'' ''application/x-protobuf'' req)))"

fun response_of :: "('v, 'x, 'sk) lib \<Rightarrow> ('v, 'x, 'req) otlp \<Rightarrow> ('req, 'resp) tick \<Rightarrow> 'resp option" where
  "response_of L H (d, exchange) =
     (case request_of L H d of
        None \<Rightarrow> None
      | Some req \<Rightarrow> (case exchange req of Inl _ \<Rightarrow> None | Inr resp \<Rightarrow> Some resp))"

fun is_failure :: "stress_log \<Rightarrow> bool" where
  "is_failure (LogMarshalError err) = True"
| "is_failure (LogNewRequestError err) = True"
| "is_failure (LogExportError err) = True"
| "is_failure _ = False"

definition failures :: "('req, 'resp) firehose \<Rightarrow> nat" where
  "failures st = length (filter is_failure (fh_log st))"

lemma log_simps [simp]:
  "fh_log (log_Printf e st) = fh_log st @ [e]" "fh_sent (log_Printf e st) = fh_sent st"
  "fh_closed (log_Printf e st) = fh_closed st"
  "failures (log_Printf e st) = (if is_failure e then Suc (failures st) else failures st)"
  by (simp_all add: log_Printf_def failures_def)

lemma failures_none: "failures \<lparr>fh_log = [], fh_sent = sent, fh_closed = closed\<rparr> = 0"
  by (simp add: failures_def)

lemma print_simps [simp]:
  "sm_fire (print_line e s) = log_Printf e (sm_fire s)" "sm_pc (print_line e s) = sm_pc s"
  by (simp_all add: print_line_def)

text \<open>A tick sends its request, if there is one, and ends in one failure or one closed response.\<close>

lemma firehose_step_effect:
  "fh_sent (firehose_step L H (d, exchange) st) = fh_sent st @ (case request_of L H d of None \<Rightarrow> [] | Some req \<Rightarrow> [req])"
  "fh_closed (firehose_step L H (d, exchange) st) =
     fh_closed st @ (case response_of L H (d, exchange) of None \<Rightarrow> [] | Some resp \<Rightarrow> [resp])"
  "failures (firehose_step L H (d, exchange) st) =
     failures st + (if response_of L H (d, exchange) = None then 1 else 0)"
  by (cases d; simp add: firehose_step_def Let_def failures_def split: sum.split)+


text \<open>
  No failure ends the loop and no body stays open: a run has logged one failure for every tick
  without a response and has closed, in order, the responses of all others.
\<close>

lemma every_tick_is_accounted:
  assumes "main_run L H ticks s"
  shows "fh_closed (sm_fire s) = List.map_filter (response_of L H) ticks"
    and "failures (sm_fire s) + length (fh_closed (sm_fire s)) = length ticks"
  using assms
proof (induction rule: main_run.induct)
  case (fire ticks s tick)
  { case 1 with fire.IH(1) show ?case
      by (cases tick) (simp add: firehose_step_effect(2) map_filter_def split: option.split) }
  { case 2 with fire.IH show ?case
      by (cases tick) (simp add: firehose_step_effect(2,3) split: option.split) }
qed (simp_all add: initial_main_def map_filter_simps(2) failures_none)

section \<open>From the tool to the processor\<close>






section \<open>Property\<close>


section \<open>Witness\<close>

text \<open>
  A marshaller that knows the generator's batches (a batch is its session id), a client whose
  requests keep their parts, and the matching receiver.
\<close>

fun mock_session :: "(string, nat) batch \<Rightarrow> string" where
  "mock_session [rm] =
     (case rm_scopes rm of
        [sm] \<Rightarrow> (case sm_metrics sm of
                  [m] \<Rightarrow> (case m_data m of
                           Gauge [dp] \<Rightarrow> (case map_of (dp_attributes dp) ''session_id'' of Some u \<Rightarrow> u | None \<Rightarrow> [])
                         | _ \<Rightarrow> [])
                | _ \<Rightarrow> [])
      | _ \<Rightarrow> [])"
| "mock_session _ = []"

type_synonym demo_request = "string \<times> string \<times> (string \<times> string) list \<times> 8 word list"

definition demo_otlp :: "(string, nat, demo_request) otlp" where
  "demo_otlp = \<lparr>
     MarshalMetrics = (\<lambda>md.
       if md = generateMockMetrics ref_lib True (mock_session md)
       then Inr (map (\<lambda>c. of_nat (of_char c)) (mock_session md)) else Inl ''unsupported''),
     NewRequest = (\<lambda>verb url body. Inr (verb, url, [], body)),
     Header_Set = (\<lambda>k v (verb, url, header, body). (verb, url, header @ [(k, v)], body))\<rparr>"





lemma demo_session: "mock_session (generateMockMetrics ref_lib True u) = u"
  by (simp add: generateMockMetrics_def ref_lib_def ref_put_def)

lemma demo_request: "\<exists>req. request_of ref_lib demo_otlp (True, u) = Some req"
  by (simp add: demo_otlp_def demo_session)






end
