(* ===== verification/Drop_Log.thy ===== *)
theory Drop_Log
  imports Lifecycle Quiet_Epoch
begin

text \<open>
  The drop log against the traffic of one epoch: a batch is one run over its data points,
  and after any batches of an epoch the counters and the lines logged are functions of the
  number of attributes that were stripped from these points.
\<close>

section \<open>A batch as a run over its data points\<close>

text \<open>A data point as enforcement sees it: the metric, the mode that applies and its attributes.\<close>

type_synonym 'v point = "string \<times> enforcement_mode \<times> 'v attrs"

definition handle_point ::
  "('v, 'x, 'sk) lib \<Rightarrow> 'v point \<Rightarrow> 'sk processor \<Rightarrow> 'v attrs \<times> 'sk processor" where
  "handle_point L pt p = (case pt of (m, mode, attrs) \<Rightarrow> handleAttributesWithMode L m mode attrs p)"

text \<open>Strip mode becomes tag-only on the metrics that cannot be reaggregated.\<close>

definition point_mode :: "enforcement_mode \<Rightarrow> ('v, 'x) metric_data \<Rightarrow> enforcement_mode" where
  "point_mode M d =
     (if M = EnforcementStripAndReaggregate \<and> \<not> reaggregatable d then EnforcementTagOnly else M)"

definition metric_points :: "enforcement_mode \<Rightarrow> ('v, 'x) metric \<Rightarrow> 'v point list" where
  "metric_points M m =
     map (\<lambda>a. (m_name m, point_mode M (m_data m), a)) (point_attributes (m_data m))"

definition batch_points :: "enforcement_mode \<Rightarrow> ('v, 'x) batch \<Rightarrow> 'v point list" where
  "batch_points M md =
     concat (map (\<lambda>r. concat (map (\<lambda>s. concat (map (metric_points M) (sm_metrics s))) (rm_scopes r))) md)"

text \<open>One level of the batch, and a slice of it.\<close>

locale point_pass =
  fixes L :: "('v, 'x, 'sk) lib" and M :: enforcement_mode
    and pts :: "'a \<Rightarrow> 'v point list" and body :: "'a \<Rightarrow> 'sk processor \<Rightarrow> 'a \<times> 'sk processor"
  assumes pass_run: "enforcementMode p = M \<Longrightarrow>
      snd (body x p) = snd (traverse (handle_point L) (pts x) p)"
    and pass_mode: "enforcementMode (snd (body x p)) = enforcementMode p"
begin

lemma slice_pass: "point_pass L M (\<lambda>xs. concat (map pts xs)) (traverse body)"
proof
  show "enforcementMode (snd (traverse body xs p)) = enforcementMode p" for xs p
    by (induction xs arbitrary: p) (simp_all add: split_beta Let_def pass_mode)
  show "snd (traverse body xs p) = snd (traverse (handle_point L) (concat (map pts xs)) p)"
    if "enforcementMode p = M" for xs p
    using that by (induction xs arbitrary: p)
      (simp_all add: split_beta Let_def traverse_append pass_mode flip: pass_run)
qed

lemma field_pass:
  "point_pass L M (\<lambda>x. pts (get x)) (\<lambda>x p. let (a, p1) = body (get x) p in (put a x, p1))"
  by unfold_locales (simp_all add: split_beta Let_def pass_run pass_mode)

end

interpretation with_mode: point_pass L M "\<lambda>attrs. [(m, mode, attrs)]" "handleAttributesWithMode L m mode"
  for L :: "('v, 'x, 'sk) lib" and M m mode
  by unfold_locales (simp_all add: handle_point_def split_beta Let_def handle_labels)

interpretation own_mode: point_pass L M "\<lambda>attrs. [(m, M, attrs)]" "handleAttributes L m"
  for L :: "('v, 'x, 'sk) lib" and M m
  by unfold_locales (simp_all add: handleAttributes_def handle_point_def split_beta Let_def handle_labels)

lemmas dp_points = point_pass.slice_pass [OF point_pass.field_pass
    [where get = dp_attributes and put = "\<lambda>a dp. dp\<lparr>dp_attributes := a\<rparr>"]]

lemmas od_points = point_pass.slice_pass [OF point_pass.field_pass
    [where get = od_attributes and put = "\<lambda>a dp. dp\<lparr>od_attributes := a\<rparr>"]]

lemma number_point_run:
  "enforcementMode p = M \<Longrightarrow> snd (processNumberDataPoints L m dps p) =
     snd (traverse (handle_point L) (map (\<lambda>dp. (m, M, dp_attributes dp)) dps) p)"
  "snd (processNumberDataPointsWithMode L m mode dps p) =
     snd (traverse (handle_point L) (map (\<lambda>dp. (m, mode, dp_attributes dp)) dps) p)"
  unfolding processNumberDataPoints_def processNumberDataPointsWithMode_def
  using point_pass.pass_run [OF dp_points [OF own_mode.point_pass_axioms], of p M L m dps]
    point_pass.pass_run [OF dp_points [OF with_mode.point_pass_axioms], of p _ L m mode dps]
  by simp_all

lemma other_point_run:
  "enforcementMode p = M \<Longrightarrow> snd (processHistogramDataPoints L m ods p) =
     snd (traverse (handle_point L) (map (\<lambda>dp. (m, M, od_attributes dp)) ods) p)"
  "snd (processHistogramDataPointsWithMode L m mode ods p) =
     snd (traverse (handle_point L) (map (\<lambda>dp. (m, mode, od_attributes dp)) ods) p)"
  "enforcementMode p = M \<Longrightarrow> snd (processExponentialHistogramDataPoints L m ods p) =
     snd (traverse (handle_point L) (map (\<lambda>dp. (m, M, od_attributes dp)) ods) p)"
  "snd (processExponentialHistogramDataPointsWithMode L m mode ods p) =
     snd (traverse (handle_point L) (map (\<lambda>dp. (m, mode, od_attributes dp)) ods) p)"
  "enforcementMode p = M \<Longrightarrow> snd (processSummaryDataPoints L m ods p) =
     snd (traverse (handle_point L) (map (\<lambda>dp. (m, M, od_attributes dp)) ods) p)"
  "snd (processSummaryDataPointsWithMode L m mode ods p) =
     snd (traverse (handle_point L) (map (\<lambda>dp. (m, mode, od_attributes dp)) ods) p)"
  unfolding processHistogramDataPoints_def processHistogramDataPointsWithMode_def
    processExponentialHistogramDataPoints_def processExponentialHistogramDataPointsWithMode_def
    processSummaryDataPoints_def processSummaryDataPointsWithMode_def
  using point_pass.pass_run [OF od_points [OF own_mode.point_pass_axioms], of p M L m ods]
    point_pass.pass_run [OF od_points [OF with_mode.point_pass_axioms], of p _ L m mode ods]
  by simp_all

interpretation metric_run: point_pass L M "metric_points M" "processMetric L"
  for L :: "('v, 'x, 'sk) lib" and M
proof
  fix p :: "'sk processor" and m :: "('v, 'x) metric"
  show "enforcementMode (snd (processMetric L m p)) = enforcementMode p"
    using settings_contract.metric_R [of p L m] by (simp add: same_settings_def)
  assume M: "enforcementMode p = M"
  show "snd (processMetric L m p) = snd (traverse (handle_point L) (metric_points M m) p)"
    by (cases "m_data m")
       (simp_all add: processMetric_def process_data_def metric_points_def point_mode_def Let_def split_beta M
         comp_def number_point_run(1) [OF M] number_point_run(2) other_point_run(1,3,5) [OF M]
         other_point_run(2,4,6))
qed

lemma scope_run: "point_pass L M (\<lambda>s. concat (map (metric_points M) (sm_metrics s))) (process_scope L)"
  unfolding process_scope_def
  by (rule point_pass.field_pass [where get = sm_metrics and put = "\<lambda>ms s. s\<lparr>sm_metrics := ms\<rparr>",
        OF metric_run.slice_pass])

lemma resource_run:
  "point_pass L M (\<lambda>r. concat (map (\<lambda>s. concat (map (metric_points M) (sm_metrics s))) (rm_scopes r)))
     (process_resource L)"
  unfolding process_resource_def
  by (rule point_pass.field_pass [where get = rm_scopes and put = "\<lambda>ss r. r\<lparr>rm_scopes := ss\<rparr>",
        OF point_pass.slice_pass [OF scope_run]])

interpretation batch_run: point_pass L M "batch_points M" "traverse (process_resource L)"
  for L :: "('v, 'x, 'sk) lib" and M
  unfolding batch_points_def by (rule point_pass.slice_pass [OF resource_run])

lemma batches_run:
  assumes "enforcementMode p = M"
  shows "fst (consume_all L nextConsumer mds (p, n)) =
    snd (traverse (handle_point L) (concat (map (batch_points M) mds)) p)"
  using assms
proof (induction mds arbitrary: p n)
  case Nil
  then show ?case by (simp add: consume_all_def)
next
  case (Cons md mds)
  let ?st = "ConsumeMetrics L nextConsumer md (p, n)"
  have p1: "fst (snd ?st) = snd (traverse (handle_point L) (batch_points M md) p)"
    using batch_run.pass_run [OF Cons.prems, of L md] by (simp add: ConsumeMetrics_def split_beta Let_def)
  have "enforcementMode (fst (snd ?st)) = M"
    using Cons.prems settings_contract.consume_R [of p L nextConsumer md n] by (simp add: same_settings_def)
  note IH = Cons.IH [OF this, of "snd (snd ?st)"]
  have "consume_all L nextConsumer (md # mds) (p, n) =
      consume_all L nextConsumer mds (fst (snd ?st), snd (snd ?st))"
    by (simp add: consume_all_def)
  with IH show ?case by (simp add: p1 traverse_append split_beta Let_def)
qed

section \<open>Stripped attributes\<close>

text \<open>The attributes that strip mode took away, from the points before and after enforcement.\<close>

definition stripped_attributes :: "'v point list \<Rightarrow> 'v attrs list \<Rightarrow> nat" where
  "stripped_attributes pts outs =
     sum_list (map2 (\<lambda>(m, mode, attrs) out.
       if mode = EnforcementStripAndReaggregate then length attrs - length out else 0) pts outs)"

lemma stripped_attributes_Cons [simp]:
  "stripped_attributes [] [] = 0"
  "stripped_attributes ((m, mode, attrs) # pts) (out # outs) =
     (if mode = EnforcementStripAndReaggregate then length attrs - length out else 0) +
     stripped_attributes pts outs"
  by (simp_all add: stripped_attributes_def)

lemma length_remove_flagged:
  "length ds = length xs \<Longrightarrow> length xs - length (remove_flagged ds xs) = count_list ds True"
proof (induction ds xs rule: list_induct2)
  case (Cons d ds x xs)
  have "length (remove_flagged ds xs) \<le> length xs"
    using Cons.hyps length_filter_le [of "\<lambda>(x, d). \<not> d" "zip xs ds"] by (simp add: remove_flagged_def)
  with Cons show ?case by (simp add: Suc_diff_le)
qed simp

lemma drops_logged_callbacks:
  assumes "drops_logged d p" and "core p = core q"
  shows "drops_logged
    (d + (if mode = EnforcementStripAndReaggregate
          then count_list (fst (traverse (judge L m) attrs q)) True else 0))
    (fst (snd (traverse (attr_callback L m mode) attrs (p, tag, keys))))"
  using assms
proof (induction attrs arbitrary: d p q tag keys)
  case (Cons kv attrs)
  let ?v = "fst (judge L m kv q)" and ?p = "snd (judge L m kv p)" and ?q = "snd (judge L m kv q)"
  note same = core_judge [OF Cons.prems(2), of L m kv]
  let ?p' = "note_verdict m mode (fst kv) ?v ?p"
  have "drops_logged (d + of_bool (?v \<and> mode = EnforcementStripAndReaggregate)) ?p'"
    by (rule drops_logged_note) (simp add: drops_logged_judge Cons.prems(1))
  moreover have "core ?p' = core ?q" by (simp add: same(2))
  ultimately show ?case
    using Cons.IH [of "d + of_bool (?v \<and> mode = EnforcementStripAndReaggregate)" ?p' ?q
        "tag \<or> (?v \<and> mode = EnforcementTagOnly)"
        "keys @ (if ?v \<and> mode = EnforcementOverflowAttribute then [fst kv] else [])"]
    by (auto simp: attr_callback_judge same(1) Let_def split_beta)
qed simp

lemma drops_logged_point:
  assumes laws: "pdata_laws L" and d: "drops_logged d p"
  shows "drops_logged (d + (if mode = EnforcementStripAndReaggregate
      then length attrs - length (fst (handleAttributesWithMode L m mode attrs p)) else 0))
    (snd (handleAttributesWithMode L m mode attrs p))"
  using drops_logged_callbacks [OF d refl, where attrs = attrs and tag = False and keys = "[]", of mode L m]
  by (auto simp: handle_processor handle_enforces [OF laws] enforce_def length_remove_flagged
      verdicts_def)

lemma drops_logged_points:
  assumes "pdata_laws L" and "drops_logged d p"
  shows "drops_logged (d + stripped_attributes pts (fst (traverse (handle_point L) pts p)))
    (snd (traverse (handle_point L) pts p))"
  using assms(2)
proof (induction pts arbitrary: d p)
  case (Cons pt pts)
  obtain m mode attrs where pt: "pt = (m, mode, attrs)" by (cases pt) auto
  note IH = Cons.IH [OF drops_logged_point [OF assms(1) Cons.prems, of mode attrs m]]
  then show ?case by (simp add: pt handle_point_def split_beta Let_def add.assoc)
qed simp

lemma points_cfg: "cfg (snd (traverse (handle_point L) pts p)) = cfg p"
proof (induction pts arbitrary: p)
  case (Cons pt pts)
  obtain m mode attrs where pt: "pt = (m, mode, attrs)" by (cases pt) auto
  show ?case
    using Cons.IH settings_contract.attributes_with_mode_R [of p L m mode attrs]
    by (simp add: pt handle_point_def split_beta Let_def same_settings_def)
qed simp

section \<open>Property\<close>

text \<open>
  C31. The drop counters and the log cap, over one epoch in which calls do not overlap: whatever
  batches come, from the construction of the processor or from a rotation, the drop counter
  holds the number of attributes that strip mode took from the data points (modulo
  \<open>2^64\<close>), the counter that is compared with the cap holds the same number if there is a
  cap, and as long as that number is below \<open>2^63\<close> the drop lines logged since are: one per
  stripped attribute without a cap, and with one the first so many as the cap allows.
\<close>

theorem drop_lines_follow_the_cap:
  assumes laws: "pdata_laws L"
    and start: "p = make_processor L c sd \<or> p = processor_rotate L r q"
    and pts: "pts = concat (map (batch_points (enforcementMode p)) mds)"
    and d: "d = stripped_attributes pts (fst (traverse (handle_point L) pts p))"
    and st: "st = fst (consume_all L nextConsumer mds (p, n))"
    and cap: "cap = DropLogMaxPerEpoch (cfg p)"
  shows "dropsThisEpoch st = of_nat d \<and> dropLogCount st = (if cap = 0 then 0 else of_nat d) \<and>
    (d < 2 ^ 63 \<longrightarrow> drop_lines (logs st) = (if cap = 0 then d else min (nat (sint cap)) d))"
proof -
  have "drops_logged 0 p" using start drops_logged_make drops_logged_rotate by metis
  then have "drops_logged d st"
    using drops_logged_points [OF laws, of 0 p pts] by (simp add: d st pts batches_run)
  moreover have "cfg st = cfg p"
    by (simp add: st points_cfg batches_run [OF refl])
  ultimately show ?thesis by (simp add: drops_logged_def cap)
qed

section \<open>Witness\<close>

text \<open>
  Two batches in strip mode with a cap of one line: the first shows two values over the limit,
  and in the second the label is over it with every value.
\<close>

theorem drop_lines_follow_the_cap_witness:
  "dropsThisEpoch (fst (consume_all ref_lib sink [demo_batch, demo_batch]
      (make_processor ref_lib capped_config 7, ()))) = 5 \<and>
   drop_lines (logs (fst (consume_all ref_lib sink [demo_batch, demo_batch]
      (make_processor ref_lib capped_config 7, ())))) = 1"
proof -
  let ?p = "make_processor ref_lib capped_config 7"
  let ?pts = "concat (map (batch_points (enforcementMode ?p)) [demo_batch, demo_batch])"
  have d: "stripped_attributes ?pts (fst (traverse (handle_point ref_lib) ?pts ?p)) = 5" by code_simp
  have cap: "DropLogMaxPerEpoch (cfg ?p) = 1" by code_simp
  show ?thesis
    using drop_lines_follow_the_cap [OF ref_lib_pdata_laws disjI1 [OF refl] refl d [symmetric] refl
        cap [symmetric], of sink "()"]
    by simp
qed

end
