(* ===== verification/Concurrency.thy ===== *)
theory Concurrency
  imports Lifecycle
begin

text \<open>
  The decision and the rotation taken apart at their locks and atomic operations: any number
  of goroutines run \<open>shouldDrop\<close>, one runs \<open>rotate\<close>, and their steps interleave. A tracker
  is an object on a heap that a goroutine may still hold after its entry was deleted. The
  invariant counts the goroutines between the budget check and the counter's update, which
  gives the bound that really holds.
\<close>

section \<open>The interleaved state\<close>

datatype owner = ThreadOwner nat | RotatorOwner

text \<open>Where a goroutine is in \<open>shouldDrop\<close>; the constructor's last argument is its tracker.\<close>

datatype pc =
    Idle
  | Missed trackerKey u64
  | Checking trackerKey u64
  | Admitted trackerKey u64
  | Stored trackerKey u64 nat
  | Holding trackerKey u64 nat
  | Finished bool

datatype rotator_pc =
    RotIdle
  | RotShard nat
  | RotEntries nat "(trackerKey \<times> nat) list" "trackerKey list"
  | RotEvict nat "trackerKey list"
  | RotDecrement nat "trackerKey list"

record 'sk conc =
  c_trackers :: "trackerKey \<rightharpoonup> nat"
  c_heap :: "nat \<rightharpoonup> 'sk tracker"
  c_count :: i64
  c_rejected :: i64
  c_locks :: "nat \<Rightarrow> owner option"
  c_pc :: "nat \<Rightarrow> pc"
  c_rot :: rotator_pc

definition initial_conc :: "'sk conc" where
  "initial_conc = \<lparr>c_trackers = Map.empty, c_heap = Map.empty, c_count = 0, c_rejected = 0,
     c_locks = \<lambda>_. None, c_pc = \<lambda>_. Idle, c_rot = RotIdle\<rparr>"

definition shard_of :: "('v, 'x, 'sk) lib \<Rightarrow> 'sk processor \<Rightarrow> trackerKey \<Rightarrow> nat" where
  "shard_of L p key = getShard L p (key_metricName key)"

definition count_exhausted :: "config \<Rightarrow> i64 \<Rightarrow> bool" where
  "count_exhausted c n \<longleftrightarrow> 0 < sint (MaxTrackerCount c) \<and> sint (MaxTrackerCount c) \<le> sint n"

definition goto :: "nat \<Rightarrow> pc \<Rightarrow> 'sk conc \<Rightarrow> 'sk conc" where
  "goto t q s = s\<lparr>c_pc := (c_pc s)(t := q)\<rparr>"

definition set_lock :: "nat \<Rightarrow> owner option \<Rightarrow> 'sk conc \<Rightarrow> 'sk conc" where
  "set_lock i ow s = s\<lparr>c_locks := (c_locks s)(i := ow)\<rparr>"

section \<open>The steps\<close>

text \<open>
  \<open>p\<close> gives the settings and the hash seed. A read lock is held only during the lookup, so
  it is one step that needs no writer; taking the write lock and the second lookup are one
  step, because nobody else touches the shard's map while it is held.
\<close>

inductive thread_step ::
  "('v, 'x, 'sk) lib \<Rightarrow> 'sk processor \<Rightarrow> nat \<Rightarrow> 'sk conc \<Rightarrow> 'sk conc \<Rightarrow> bool"
  for L p t where
  lookup_hit: "c_pc s t = Idle \<Longrightarrow> key = TrackerKey m k \<Longrightarrow> c_locks s (shard_of L p key) = None \<Longrightarrow>
     c_trackers s key = Some a \<Longrightarrow>
     thread_step L p t s (goto t (Holding key (Sum64String L v) a) s)"
| lookup_miss: "c_pc s t = Idle \<Longrightarrow> key = TrackerKey m k \<Longrightarrow> c_locks s (shard_of L p key) = None \<Longrightarrow>
     c_trackers s key = None \<Longrightarrow>
     thread_step L p t s (goto t (Missed key (Sum64String L v)) s)"
| lock_hit: "c_pc s t = Missed key h \<Longrightarrow> c_locks s (shard_of L p key) = None \<Longrightarrow>
     c_trackers s key = Some a \<Longrightarrow> thread_step L p t s (goto t (Holding key h a) s)"
| lock_miss: "c_pc s t = Missed key h \<Longrightarrow> c_locks s (shard_of L p key) = None \<Longrightarrow>
     c_trackers s key = None \<Longrightarrow>
     thread_step L p t s
       (goto t (Checking key h) (set_lock (shard_of L p key) (Some (ThreadOwner t)) s))"
| check_full: "c_pc s t = Checking key h \<Longrightarrow> count_exhausted (cfg p) (c_count s) \<Longrightarrow>
     thread_step L p t s
       ((goto t (Finished False) (set_lock (shard_of L p key) None s))\<lparr>c_rejected := c_rejected s + 1\<rparr>)"
| check_room: "c_pc s t = Checking key h \<Longrightarrow> \<not> count_exhausted (cfg p) (c_count s) \<Longrightarrow>
     thread_step L p t s (goto t (Admitted key h) s)"
| store: "c_pc s t = Admitted key h \<Longrightarrow> c_heap s a = None \<Longrightarrow>
     thread_step L p t s
       ((goto t (Stored key h a) s)\<lparr>c_trackers := (c_trackers s)(key \<mapsto> a),
                                   c_heap := (c_heap s)(a \<mapsto> newTracker L)\<rparr>)"
| add: "c_pc s t = Stored key h a \<Longrightarrow>
     thread_step L p t s
       ((goto t (Holding key h a) (set_lock (shard_of L p key) None s))\<lparr>c_count := c_count s + 1\<rparr>)"
| insert: "c_pc s t = Holding key h a \<Longrightarrow> c_heap s a = Some tr \<Longrightarrow>
     tracker_insert L h tr = ((currCount, prevCount), tr') \<Longrightarrow>
     thread_step L p t s
       ((goto t (Finished (exceeds currCount prevCount (getLimit (cfg p) (key_metricName key)))) s)
          \<lparr>c_heap := (c_heap s)(a \<mapsto> tr')\<rparr>)"
| return: "c_pc s t = Finished b \<Longrightarrow> thread_step L p t s (goto t Idle s)"

inductive rotator_step ::
  "('v, 'x, 'sk) lib \<Rightarrow> 'sk processor \<Rightarrow> 'sk conc \<Rightarrow> 'sk conc \<Rightarrow> bool"
  for L p where
  rot_begin: "c_rot s = RotIdle \<Longrightarrow> rotator_step L p s (s\<lparr>c_rot := RotShard 0\<rparr>)"
| rot_snapshot: "c_rot s = RotShard i \<Longrightarrow> i < unat numShards \<Longrightarrow> c_locks s i = None \<Longrightarrow>
     distinct (map fst es) \<Longrightarrow>
     (\<forall>key a. (key, a) \<in> set es \<longleftrightarrow> c_trackers s key = Some a \<and> shard_of L p key = i) \<Longrightarrow>
     rotator_step L p s (s\<lparr>c_rot := RotEntries i es []\<rparr>)"
| rot_entry: "c_rot s = RotEntries i ((key, a) # es) stale \<Longrightarrow> c_heap s a = Some tr \<Longrightarrow>
     tracker_rotate (mustGetSketch L) tr = (idle, tr') \<Longrightarrow>
     rotator_step L p s
       (s\<lparr>c_heap := (c_heap s)(a \<mapsto> tr'),
          c_rot := RotEntries i es
            (if idle \<and> sint staleSweepEpochs \<le> sint (idleEpochs tr') then stale @ [key] else stale)\<rparr>)"
| rot_no_stale: "c_rot s = RotEntries i [] [] \<Longrightarrow> rotator_step L p s (s\<lparr>c_rot := RotShard (Suc i)\<rparr>)"
| rot_lock: "c_rot s = RotEntries i [] stale \<Longrightarrow> stale \<noteq> [] \<Longrightarrow> c_locks s i = None \<Longrightarrow>
     rotator_step L p s ((set_lock i (Some RotatorOwner) s)\<lparr>c_rot := RotEvict i stale\<rparr>)"
| rot_delete: "c_rot s = RotEvict i (key # keys) \<Longrightarrow>
     rotator_step L p s (s\<lparr>c_trackers := (c_trackers s)(key := None), c_rot := RotDecrement i keys\<rparr>)"
| rot_decrement: "c_rot s = RotDecrement i keys \<Longrightarrow>
     rotator_step L p s (s\<lparr>c_count := c_count s - 1, c_rot := RotEvict i keys\<rparr>)"
| rot_unlock: "c_rot s = RotEvict i [] \<Longrightarrow>
     rotator_step L p s ((set_lock i None s)\<lparr>c_rot := RotShard (Suc i)\<rparr>)"
| rot_end: "c_rot s = RotShard (unat numShards) \<Longrightarrow> rotator_step L p s (s\<lparr>c_rot := RotIdle\<rparr>)"

inductive conc_reachable ::
  "('v, 'x, 'sk) lib \<Rightarrow> 'sk processor \<Rightarrow> 'sk conc \<Rightarrow> bool"
  for L p where
  conc_initial: "conc_reachable L p initial_conc"
| conc_thread: "conc_reachable L p s \<Longrightarrow> thread_step L p t s s' \<Longrightarrow> conc_reachable L p s'"
| conc_rotator: "conc_reachable L p s \<Longrightarrow> rotator_step L p s s' \<Longrightarrow> conc_reachable L p s'"

section \<open>The invariant\<close>

text \<open>The key whose shard's write lock a goroutine holds.\<close>

fun locked_key :: "pc \<Rightarrow> trackerKey option" where
  "locked_key (Checking key h) = Some key"
| "locked_key (Admitted key h) = Some key"
| "locked_key (Stored key h a) = Some key"
| "locked_key _ = None"

fun absent_key :: "pc \<Rightarrow> trackerKey option" where
  "absent_key (Checking key h) = Some key"
| "absent_key (Admitted key h) = Some key"
| "absent_key _ = None"

fun is_admitted :: "pc \<Rightarrow> bool" where
  "is_admitted (Admitted key h) = True"
| "is_admitted _ = False"

fun is_stored :: "pc \<Rightarrow> bool" where
  "is_stored (Stored key h a) = True"
| "is_stored _ = False"

definition admitted :: "'sk conc \<Rightarrow> nat set" where
  "admitted s = {t. is_admitted (c_pc s t)}"

definition stored :: "'sk conc \<Rightarrow> nat set" where
  "stored s = {t. is_stored (c_pc s t)}"

definition locks_inv :: "('v, 'x, 'sk) lib \<Rightarrow> 'sk processor \<Rightarrow> 'sk conc \<Rightarrow> bool" where
  "locks_inv L p s \<longleftrightarrow>
     (\<forall>t key. locked_key (c_pc s t) = Some key \<longrightarrow> c_locks s (shard_of L p key) = Some (ThreadOwner t)) \<and>
     (\<forall>t key. absent_key (c_pc s t) = Some key \<longrightarrow> c_trackers s key = None)"

fun evicting :: "rotator_pc \<Rightarrow> trackerKey list" where
  "evicting (RotEntries i es stale) = map fst es @ stale"
| "evicting (RotEvict i keys) = keys"
| "evicting (RotDecrement i keys) = keys"
| "evicting _ = []"

fun owes :: "rotator_pc \<Rightarrow> nat" where
  "owes (RotDecrement i keys) = 1"
| "owes _ = 0"

definition rot_inv :: "'sk conc \<Rightarrow> bool" where
  "rot_inv s \<longleftrightarrow> finite (dom (c_trackers s)) \<and> distinct (evicting (c_rot s)) \<and>
     set (evicting (c_rot s)) \<subseteq> dom (c_trackers s)"

definition entries_of :: "'sk conc \<Rightarrow> nat" where
  "entries_of s = card (dom (c_trackers s))"

definition count_inv :: "'sk processor \<Rightarrow> 'sk conc \<Rightarrow> bool" where
  "count_inv p s \<longleftrightarrow> (\<exists>n :: int. c_count s = of_int n \<and>
     n + int (card (stored s)) = int (entries_of s + owes (c_rot s)) \<and>
     (0 < sint (MaxTrackerCount (cfg p)) \<longrightarrow>
        int (entries_of s + owes (c_rot s) + card (admitted s)) \<le> sint (MaxTrackerCount (cfg p)) + 255))"

lemma goto_simps [simp]:
  "c_trackers (goto t q s) = c_trackers s" "c_heap (goto t q s) = c_heap s"
  "c_count (goto t q s) = c_count s" "c_locks (goto t q s) = c_locks s"
  "c_rot (goto t q s) = c_rot s" "c_pc (goto t q s) = (c_pc s)(t := q)"
  "c_rejected (goto t q s) = c_rejected s"
  by (simp_all add: goto_def)

lemma set_lock_simps [simp]:
  "c_trackers (set_lock i ow s) = c_trackers s" "c_heap (set_lock i ow s) = c_heap s"
  "c_count (set_lock i ow s) = c_count s" "c_locks (set_lock i ow s) = (c_locks s)(i := ow)"
  "c_rot (set_lock i ow s) = c_rot s" "c_pc (set_lock i ow s) = c_pc s"
  "c_rejected (set_lock i ow s) = c_rejected s"
  by (simp_all add: set_lock_def)

lemma admitted_pc:
  "c_pc s' = (c_pc s)(t := q) \<Longrightarrow>
   admitted s' = (if is_admitted q then insert t (admitted s) else admitted s - {t})"
  by (auto simp: admitted_def)

lemma stored_pc:
  "c_pc s' = (c_pc s)(t := q) \<Longrightarrow>
   stored s' = (if is_stored q then insert t (stored s) else stored s - {t})"
  by (auto simp: stored_def)

lemma admitted_same: "c_pc s' = c_pc s \<Longrightarrow> admitted s' = admitted s"
  and stored_same: "c_pc s' = c_pc s \<Longrightarrow> stored s' = stored s"
  by (simp_all add: admitted_def stored_def)

lemma is_admittedE: "is_admitted q \<Longrightarrow> (\<And>key h. q = Admitted key h \<Longrightarrow> P) \<Longrightarrow> P"
  by (cases q) auto

lemma is_storedE: "is_stored q \<Longrightarrow> (\<And>key h a. q = Stored key h a \<Longrightarrow> P) \<Longrightarrow> P"
  by (cases q) auto

lemma absent_locked: "absent_key q = Some key \<Longrightarrow> locked_key q = Some key"
  by (cases q) auto

lemma locked_pcs: "is_admitted q \<or> is_stored q \<Longrightarrow> locked_key q \<noteq> None"
  by (cases q) auto

text \<open>Lock holders are at most as many as shards.\<close>

lemma holders_bound:
  assumes inv: "locks_inv L p s"
  shows "finite {t. locked_key (c_pc s t) \<noteq> None}" and "card {t. locked_key (c_pc s t) \<noteq> None} \<le> 256"
proof -
  let ?H = "{t. locked_key (c_pc s t) \<noteq> None}"
  let ?f = "\<lambda>t. shard_of L p (the (locked_key (c_pc s t)))"
  have lock: "c_locks s (?f t) = Some (ThreadOwner t)" if "t \<in> ?H" for t
    using inv that by (auto simp: locks_inv_def simp del: not_None_eq)
  have inj: "inj_on ?f ?H"
  proof (rule inj_onI)
    fix t u
    assume t: "t \<in> ?H" and u: "u \<in> ?H" and same: "?f t = ?f u"
    have "Some (ThreadOwner t) = c_locks s (?f u)" using lock [OF t] by (simp only: same)
    also have "\<dots> = Some (ThreadOwner u)" using u by (rule lock)
    finally show "t = u" by simp
  qed
  have sub: "?f ` ?H \<subseteq> {..<256}"
  proof (rule image_subsetI)
    fix t
    show "?f t \<in> {..<256}"
      using mask_and_bound [of "maphash_String L (seed p) (key_metricName (the (locked_key (c_pc s t))))"]
      by (simp add: shard_of_def getShard_def numShards_def)
  qed
  then have "finite (?f ` ?H)" by (rule finite_subset) simp
  then show "finite ?H" using inj by (rule finite_imageD)
  have "card ?H = card (?f ` ?H)" using inj by (simp add: card_image)
  also have "\<dots> \<le> card {..<256::nat}" using sub by (intro card_mono) simp_all
  finally show "card ?H \<le> 256" by simp
qed

lemma admitted_stored:
  assumes inv: "locks_inv L p s"
  shows "finite (admitted s)" "finite (stored s)" "card (stored s) + card (admitted s) \<le> 256"
proof -
  have sub: "admitted s \<subseteq> {t. locked_key (c_pc s t) \<noteq> None}"
    "stored s \<subseteq> {t. locked_key (c_pc s t) \<noteq> None}"
    using locked_pcs by (auto simp: admitted_def stored_def)
  note fin = holders_bound [OF inv]
  show f: "finite (admitted s)" "finite (stored s)" using fin(1) sub by (auto intro: finite_subset)
  have "stored s \<inter> admitted s = {}"
    by (auto simp: admitted_def stored_def elim!: is_admittedE)
  then have "card (stored s) + card (admitted s) = card (stored s \<union> admitted s)"
    using f by (simp add: card_Un_disjoint)
  also have "\<dots> \<le> card {t. locked_key (c_pc s t) \<noteq> None}"
    using sub fin(1) by (intro card_mono) auto
  finally show "card (stored s) + card (admitted s) \<le> 256" using fin(2) by simp
qed

text \<open>Another goroutine's key lies in another shard.\<close>

lemma locked_other:
  assumes "locks_inv L p s" and "locked_key (c_pc s t) = Some key"
    and "locked_key (c_pc s u) = Some key'" and "t \<noteq> u"
  shows "shard_of L p key \<noteq> shard_of L p key'"
  using assms by (auto simp: locks_inv_def) (metis option.inject owner.inject(1))

lemma locks_inv_goto:
  assumes "locks_inv L p s"
    and "locked_key q = None \<or> locked_key (c_pc s t) = locked_key q"
    and "absent_key q = None \<or> absent_key (c_pc s t) = absent_key q"
  shows "locks_inv L p (goto t q s)"
  using assms by (auto simp: locks_inv_def)

lemma locks_inv_heap [simp]: "locks_inv L p (s\<lparr>c_heap := hp\<rparr>) = locks_inv L p s"
  by (simp add: locks_inv_def)

lemma locks_inv_lock:
  assumes inv: "locks_inv L p s" and free: "c_locks s (shard_of L p key) = None"
    and absent: "c_trackers s key = None"
    and pc: "c_pc s' = (c_pc s)(t := Checking key h)" "c_trackers s' = c_trackers s"
    and lock: "c_locks s' = (c_locks s)(shard_of L p key := Some (ThreadOwner t))"
  shows "locks_inv L p s'"
proof -
  have "shard_of L p key' \<noteq> shard_of L p key" if "locked_key (c_pc s u) = Some key'" for u key'
  proof -
    have "c_locks s (shard_of L p key') = Some (ThreadOwner u)"
      using inv that by (simp add: locks_inv_def)
    with free show ?thesis by auto
  qed
  then show ?thesis using inv absent by (auto simp: locks_inv_def pc lock)
qed

lemma locks_inv_unlock:
  assumes inv: "locks_inv L p s" and mine: "locked_key (c_pc s t) = Some key"
    and pc: "c_pc s' = (c_pc s)(t := q)" "c_trackers s' = c_trackers s"
    and q: "locked_key q = None" "absent_key q = None"
    and lock: "c_locks s' = (c_locks s)(shard_of L p key := None)"
  shows "locks_inv L p s'"
proof -
  have "shard_of L p key' \<noteq> shard_of L p key"
    if "u \<noteq> t" "locked_key (c_pc s u) = Some key'" for u key'
    using locked_other [OF inv mine that(2)] that(1) by metis
  then show ?thesis using inv q by (auto simp: locks_inv_def pc lock)
qed

lemma locks_inv_store:
  assumes inv: "locks_inv L p s" and mine: "c_pc s t = Admitted key h"
    and pc: "c_pc s' = (c_pc s)(t := Stored key h a)" "c_locks s' = c_locks s"
    and trs: "c_trackers s' = (c_trackers s)(key \<mapsto> a)"
  shows "locks_inv L p s'"
proof -
  have "key' \<noteq> key" if "u \<noteq> t" "absent_key (c_pc s u) = Some key'" for u key'
    using locked_other [OF inv, of t key u key'] mine that absent_locked by force
  then show ?thesis using inv mine by (auto simp: locks_inv_def pc trs)
qed

lemma thread_locks_inv: "thread_step L p t s s' \<Longrightarrow> locks_inv L p s \<Longrightarrow> locks_inv L p s'"
proof (induction rule: thread_step.induct)
  case (lock_miss s key h)
  from lock_miss(4,2,3) show ?case by (rule locks_inv_lock) simp_all
next
  case (check_full s key h)
  show ?case by (rule locks_inv_unlock [OF check_full(3), where key = key and q = "Finished False"]) (simp_all add: check_full(1))
next
  case (store s key h a)
  show ?case by (rule locks_inv_store [OF store(3,1)]) simp_all
next
  case (add s key h a)
  show ?case by (rule locks_inv_unlock [OF add(2), where key = key and q = "Holding key h a"]) (simp_all add: add(1))
qed (simp_all add: locks_inv_goto)

fun rot_holds :: "rotator_pc \<Rightarrow> nat option" where
  "rot_holds (RotEvict i keys) = Some i"
| "rot_holds (RotDecrement i keys) = Some i"
| "rot_holds _ = None"

definition rot_lock_inv :: "'sk conc \<Rightarrow> bool" where
  "rot_lock_inv s \<longleftrightarrow> (\<forall>i. rot_holds (c_rot s) = Some i \<longrightarrow> c_locks s i = Some RotatorOwner)"

lemma thread_rot_lock:
  "thread_step L p t s s' \<Longrightarrow> locks_inv L p s \<Longrightarrow> rot_lock_inv s \<Longrightarrow> rot_lock_inv s'"
proof (induction rule: thread_step.induct)
  case (check_full s key h)
  then have "c_locks s (shard_of L p key) = Some (ThreadOwner t)" by (simp add: locks_inv_def)
  with check_full show ?case by (auto simp: rot_lock_inv_def)
next
  case (add s key h a)
  then have "c_locks s (shard_of L p key) = Some (ThreadOwner t)" by (simp add: locks_inv_def)
  with add show ?case by (auto simp: rot_lock_inv_def)
qed (auto simp: rot_lock_inv_def)

lemma rotator_locks_inv:
  assumes step: "rotator_step L p s s'" and inv: "locks_inv L p s" and mine: "rot_lock_inv s"
  shows "locks_inv L p s'"
  using step
proof cases
  case (rot_lock i stale)
  have "shard_of L p key \<noteq> i" if "locked_key (c_pc s u) = Some key" for u key
  proof -
    have "c_locks s (shard_of L p key) = Some (ThreadOwner u)" using inv that by (simp add: locks_inv_def)
    with rot_lock show ?thesis by auto
  qed
  then show ?thesis using inv by (auto simp: locks_inv_def rot_lock(1))
next
  case (rot_unlock i)
  have "shard_of L p key \<noteq> i" if "locked_key (c_pc s u) = Some key" for u key
  proof -
    have "c_locks s (shard_of L p key) = Some (ThreadOwner u)" using inv that by (simp add: locks_inv_def)
    moreover have "c_locks s i = Some RotatorOwner" using mine rot_unlock by (simp add: rot_lock_inv_def)
    ultimately show ?thesis by auto
  qed
  then show ?thesis using inv by (auto simp: locks_inv_def rot_unlock(1))
qed (use inv in \<open>auto simp: locks_inv_def\<close>)

lemma rotator_rot_lock: "rotator_step L p s s' \<Longrightarrow> rot_lock_inv s \<Longrightarrow> rot_lock_inv s'"
  by (induction rule: rotator_step.induct) (auto simp: rot_lock_inv_def)

text \<open>Only the rotator removes entries, so the keys on its list stay in the map.\<close>

lemma thread_rot_inv:
  "thread_step L p t s s' \<Longrightarrow> rot_inv s \<Longrightarrow> rot_inv s'"
  by (induction rule: thread_step.induct) (auto simp: rot_inv_def)

lemma rotator_rot_inv:
  "rotator_step L p s s' \<Longrightarrow> rot_inv s \<Longrightarrow> rot_inv s'"
proof (induction rule: rotator_step.induct)
  case (rot_snapshot s i es)
  then show ?case by (auto simp: rot_inv_def)
next
  case (rot_delete s i key keys)
  then show ?case by (auto simp: rot_inv_def)
qed (auto simp: rot_inv_def)

section \<open>Counting\<close>

text \<open>What the invariant on the counter says of one state, with its witness \<open>n\<close>.\<close>

definition count_is :: "'sk processor \<Rightarrow> int \<Rightarrow> 'sk conc \<Rightarrow> bool" where
  "count_is p n s \<longleftrightarrow> c_count s = of_int n \<and>
     n + int (card (stored s)) = int (entries_of s + owes (c_rot s)) \<and>
     (0 < sint (MaxTrackerCount (cfg p)) \<longrightarrow>
        int (entries_of s + owes (c_rot s) + card (admitted s)) \<le> sint (MaxTrackerCount (cfg p)) + 255)"

lemma count_inv_is: "count_inv p s \<longleftrightarrow> (\<exists>n. count_is p n s)"
  by (simp add: count_inv_def count_is_def)

lemma count_is_same:
  "c_count s' = c_count s \<Longrightarrow> stored s' = stored s \<Longrightarrow> admitted s' = admitted s \<Longrightarrow>
   entries_of s' = entries_of s \<Longrightarrow> owes (c_rot s') = owes (c_rot s) \<Longrightarrow> count_is p n s' = count_is p n s"
  by (simp add: count_is_def)

lemma entries_same: "c_trackers s' = c_trackers s \<Longrightarrow> entries_of s' = entries_of s"
  by (simp add: entries_of_def)

text \<open>
  A goroutine that passes the check leaves at most 255 others between check and update, so
  the bound holds after it: fewer than the maximum were counted.
\<close>

lemma count_check_room:
  assumes inv: "locks_inv L p s" and n: "count_is p n s" and max: "sint (MaxTrackerCount (cfg p)) < 2 ^ 62"
    and pc: "c_pc s t = Checking key h" and room: "\<not> count_exhausted (cfg p) (c_count s)"
  shows "count_is p n (goto t (Admitted key h) s)"
proof -
  let ?s = "goto t (Admitted key h) s"
  have "locks_inv L p ?s" using inv pc by (intro locks_inv_goto) simp_all
  note few = admitted_stored(3) [OF this]
  have st: "stored ?s = stored s"
    using pc by (auto simp: stored_pc [where q = "Admitted key h" and t = t and s = s] stored_def)
  have "n < sint (MaxTrackerCount (cfg p))" if pos: "0 < sint (MaxTrackerCount (cfg p))"
  proof -
    have "- 256 \<le> n" "n \<le> sint (MaxTrackerCount (cfg p)) + 255"
      using n pos admitted_stored(3) [OF inv] by (auto simp: count_is_def)
    with max have "- (2 ^ 63) \<le> n" "n < 2 ^ 63" by simp_all
    then have "sint (c_count s) = n" using n sint_of_int_i64 [of n] by (simp add: count_is_def)
    with room pos show ?thesis by (simp add: count_exhausted_def)
  qed
  with n few show ?thesis
    unfolding count_is_def st entries_same [of ?s s, OF goto_simps(1)] by auto
qed

lemma count_store:
  assumes inv: "locks_inv L p s" and fin: "rot_inv s" and n: "count_is p n s"
    and pc: "c_pc s t = Admitted key h"
    and s': "c_pc s' = (c_pc s)(t := Stored key h a)" "c_trackers s' = (c_trackers s)(key \<mapsto> a)"
      "c_count s' = c_count s" "c_rot s' = c_rot s"
  shows "count_is p n s'"
proof -
  have t: "t \<in> admitted s" "t \<notin> stored s" using pc by (simp_all add: admitted_def stored_def)
  have "stored s' = insert t (stored s)" "admitted s' = admitted s - {t}"
    using stored_pc [OF s'(1)] admitted_pc [OF s'(1)] by simp_all
  then have sets: "card (stored s') = Suc (card (stored s))" "Suc (card (admitted s')) = card (admitted s)"
    using t admitted_stored(1,2) [OF inv] card_Suc_Diff1 [of "admitted s" t] by simp_all
  have "c_trackers s key = None"
    using inv unfolding locks_inv_def by (metis absent_key.simps(2) pc)
  then have "key \<notin> dom (c_trackers s)" by (simp add: domIff)
  with fin have "entries_of s' = Suc (entries_of s)"
    by (simp add: entries_of_def s'(2) rot_inv_def)
  with n sets show ?thesis by (auto simp: count_is_def s'(3,4))
qed

lemma count_add:
  assumes inv: "locks_inv L p s" and n: "count_is p n s" and pc: "c_pc s t = Stored key h a"
    and s': "c_pc s' = (c_pc s)(t := Holding key h a)" "c_trackers s' = c_trackers s"
      "c_count s' = c_count s + 1" "c_rot s' = c_rot s"
  shows "count_is p (n + 1) s'"
proof -
  have t: "t \<in> stored s" "t \<notin> admitted s" using pc by (simp_all add: admitted_def stored_def)
  have "stored s' = stored s - {t}" "admitted s' = admitted s"
    using stored_pc [OF s'(1)] admitted_pc [OF s'(1)] t by simp_all
  then have "Suc (card (stored s')) = card (stored s)" "admitted s' = admitted s"
    using card_Suc_Diff1 [OF admitted_stored(2) [OF inv] t(1)] by (simp_all only:)
  with n show ?thesis
    by (simp add: count_is_def s'(3,4) entries_same [OF s'(2)])
qed

text \<open>Every other step of a goroutine leaves what is counted alone.\<close>

lemma count_other:
  assumes n: "count_is p n s"
    and q: "\<not> is_admitted q" "\<not> is_stored q" "\<not> is_admitted (c_pc s t)" "\<not> is_stored (c_pc s t)"
    and s': "c_pc s' = (c_pc s)(t := q)" "c_trackers s' = c_trackers s"
      "c_count s' = c_count s" "c_rot s' = c_rot s"
  shows "count_is p n s'"
proof -
  have "stored s' = stored s" "admitted s' = admitted s"
    using stored_pc [OF s'(1)] admitted_pc [OF s'(1)] q by (auto simp: stored_def admitted_def)
  with n show ?thesis
    by (simp add: count_is_def s'(3,4) entries_same [OF s'(2)])
qed

lemma thread_effect:
  "thread_step L p t s s' \<Longrightarrow>
     (\<exists>q. \<not> is_admitted q \<and> \<not> is_stored q \<and> \<not> is_admitted (c_pc s t) \<and> \<not> is_stored (c_pc s t) \<and>
        c_pc s' = (c_pc s)(t := q) \<and> c_trackers s' = c_trackers s \<and> c_count s' = c_count s \<and>
        c_rot s' = c_rot s) \<or>
     (\<exists>key h. c_pc s t = Checking key h \<and> \<not> count_exhausted (cfg p) (c_count s) \<and>
        s' = goto t (Admitted key h) s) \<or>
     (\<exists>key h a. c_pc s t = Admitted key h \<and> c_pc s' = (c_pc s)(t := Stored key h a) \<and>
        c_trackers s' = (c_trackers s)(key \<mapsto> a) \<and> c_count s' = c_count s \<and> c_rot s' = c_rot s) \<or>
     (\<exists>key h a. c_pc s t = Stored key h a \<and> c_pc s' = (c_pc s)(t := Holding key h a) \<and>
        c_trackers s' = c_trackers s \<and> c_count s' = c_count s + 1 \<and> c_rot s' = c_rot s)"
  by (induction rule: thread_step.induct) (force | simp)+

lemma thread_count_inv:
  assumes step: "thread_step L p t s s'" and inv: "locks_inv L p s" "rot_inv s"
    and max: "sint (MaxTrackerCount (cfg p)) < 2 ^ 62" and n: "count_is p n s"
  shows "\<exists>n'. count_is p n' s'"
  using thread_effect [OF step]
  by (elim disjE exE conjE)
     (blast intro: count_other [OF n] count_check_room [OF inv(1) n max] count_store [OF inv n]
        count_add [OF inv(1) n])+

lemma rotator_effect:
  "rotator_step L p s s' \<Longrightarrow> c_pc s' = c_pc s \<and>
     (c_trackers s' = c_trackers s \<and> c_count s' = c_count s \<and> owes (c_rot s') = owes (c_rot s) \<or>
      (\<exists>i key keys. c_rot s = RotEvict i (key # keys) \<and> c_trackers s' = (c_trackers s)(key := None) \<and>
         c_count s' = c_count s \<and> c_rot s' = RotDecrement i keys) \<or>
      (\<exists>i keys. c_rot s = RotDecrement i keys \<and> c_trackers s' = c_trackers s \<and>
         c_count s' = c_count s - 1 \<and> c_rot s' = RotEvict i keys))"
  by (induction rule: rotator_step.induct) simp_all

lemma rotator_count_inv:
  assumes step: "rotator_step L p s s'" and inv: "rot_inv s" and n: "count_is p n s"
  shows "\<exists>n'. count_is p n' s'"
proof -
  from rotator_effect [OF step] have pc: "stored s' = stored s" "admitted s' = admitted s"
    by (simp_all add: stored_def admitted_def)
  from rotator_effect [OF step] consider
      (same) "c_trackers s' = c_trackers s" "c_count s' = c_count s" "owes (c_rot s') = owes (c_rot s)"
    | (delete) i key keys where "c_rot s = RotEvict i (key # keys)"
        "c_trackers s' = (c_trackers s)(key := None)" "c_count s' = c_count s" "c_rot s' = RotDecrement i keys"
    | (decrement) i keys where "c_rot s = RotDecrement i keys" "c_trackers s' = c_trackers s"
        "c_count s' = c_count s - 1" "c_rot s' = RotEvict i keys"
    by blast
  then show ?thesis
  proof cases
    case same
    with n pc show ?thesis by (metis count_is_same entries_same)
  next
    case delete
    have "key \<in> dom (c_trackers s)" "finite (dom (c_trackers s))"
      using inv delete(1) by (auto simp: rot_inv_def)
    then have less: "Suc (entries_of s') = entries_of s"
      using card_Suc_Diff1 [of "dom (c_trackers s)" key] by (simp add: entries_of_def delete(2))
    have "count_is p n s'"
      using n unfolding count_is_def pc delete less [symmetric] by simp
    then show ?thesis ..
  next
    case decrement
    have "count_is p (n - 1) s'"
      using n unfolding count_is_def pc entries_same [OF decrement(2)] decrement by auto
    then show ?thesis ..
  qed
qed

text \<open>All invariants together, in every reachable state.\<close>

definition conc_inv :: "('v, 'x, 'sk) lib \<Rightarrow> 'sk processor \<Rightarrow> 'sk conc \<Rightarrow> bool" where
  "conc_inv L p s \<longleftrightarrow> locks_inv L p s \<and> rot_lock_inv s \<and> rot_inv s \<and> count_inv p s"

lemma conc_inv_initial: "conc_inv L p initial_conc"
proof -
  have "count_is p 0 initial_conc"
    by (simp add: count_is_def initial_conc_def stored_def admitted_def entries_of_def)
  then have "count_inv p initial_conc" unfolding count_inv_is ..
  then show ?thesis
    by (simp add: conc_inv_def locks_inv_def rot_lock_inv_def rot_inv_def) (simp add: initial_conc_def)
qed

lemma conc_reachable_inv:
  assumes "conc_reachable L p s" and max: "sint (MaxTrackerCount (cfg p)) < 2 ^ 62"
  shows "conc_inv L p s"
  using assms(1)
proof induction
  case conc_initial
  show ?case by (rule conc_inv_initial)
next
  case (conc_thread s t s')
  then obtain n where "count_is p n s" by (auto simp: conc_inv_def count_inv_is)
  with conc_thread thread_count_inv [OF conc_thread(2) _ _ max this] show ?case
    by (auto simp: conc_inv_def count_inv_is intro: thread_locks_inv thread_rot_lock thread_rot_inv)
next
  case (conc_rotator s s')
  then obtain n where "count_is p n s" by (auto simp: conc_inv_def count_inv_is)
  with conc_rotator rotator_count_inv [OF conc_rotator(2) _ this] show ?case
    by (auto simp: conc_inv_def count_inv_is intro: rotator_locks_inv rotator_rot_lock rotator_rot_inv)
qed

section \<open>One goroutine alone\<close>

text \<open>The trackers as a map of values, through the pointers.\<close>

definition view :: "'sk conc \<Rightarrow> trackerKey \<rightharpoonup> 'sk tracker" where
  "view s key = Option.bind (c_trackers s key) (c_heap s)"

definition heap_ok :: "'sk conc \<Rightarrow> bool" where
  "heap_ok s \<longleftrightarrow> inj_on (c_trackers s) (dom (c_trackers s)) \<and>
     (\<forall>key a. c_trackers s key = Some a \<longrightarrow> c_heap s a \<noteq> None) \<and> (\<exists>a. c_heap s a = None)"

lemma view_insert:
  assumes "heap_ok s" and "c_trackers s key = Some a" and "c_trackers s' = c_trackers s"
    and "c_heap s' = (c_heap s)(a \<mapsto> tr)"
  shows "view s' = (view s)(key \<mapsto> tr)"
proof (rule ext)
  fix k
  have "c_trackers s k \<noteq> Some a" if "k \<noteq> key"
    using assms(1,2) that by (auto simp: heap_ok_def inj_on_def dom_def)
  then show "view s' k = ((view s)(key \<mapsto> tr)) k"
    using assms(2) by (cases "c_trackers s k") (auto simp: view_def assms(3,4))
qed

lemma view_create:
  assumes "heap_ok s" and "c_heap s a = None" and "c_trackers s' = (c_trackers s)(key \<mapsto> a)"
    and "c_heap s' = (c_heap s)(a \<mapsto> tr)"
  shows "view s' = (view s)(key \<mapsto> tr)"
proof (rule ext)
  fix k
  have "c_trackers s k \<noteq> Some a" using assms(1,2) unfolding heap_ok_def by metis
  then show "view s' k = ((view s)(key \<mapsto> tr)) k"
    by (cases "c_trackers s k") (auto simp: view_def assms(3,4))
qed

definition thread_run ::
  "('v, 'x, 'sk) lib \<Rightarrow> 'sk processor \<Rightarrow> nat \<Rightarrow> 'sk conc \<Rightarrow> 'sk conc \<Rightarrow> bool" where
  "thread_run L p t = (thread_step L p t)\<^sup>*\<^sup>*"

lemma run_step: "thread_run L p t s s' \<Longrightarrow> thread_step L p t s' s'' \<Longrightarrow> thread_run L p t s s''"
  by (simp add: thread_run_def rtranclp.rtrancl_into_rtrancl)

lemma run_refl: "thread_run L p t s s"
  by (simp add: thread_run_def)

text \<open>From the first lookup to the lock, and on to the counted entry.\<close>

definition locked_state :: "('v, 'x, 'sk) lib \<Rightarrow> 'sk processor \<Rightarrow> nat \<Rightarrow> trackerKey \<Rightarrow> u64 \<Rightarrow>
    'sk conc \<Rightarrow> 'sk conc" where
  "locked_state L p t key h s =
     goto t (Checking key h) (set_lock (shard_of L p key) (Some (ThreadOwner t)) (goto t (Missed key h) s))"

lemma run_to_lock:
  assumes "c_pc s t = Idle" and "key = TrackerKey m k" and "c_locks s (shard_of L p key) = None"
    and "c_trackers s key = None"
  shows "thread_run L p t s (locked_state L p t key (Sum64String L v) s)"
proof -
  have "thread_run L p t s (goto t (Missed key (Sum64String L v)) s)"
    by (rule run_step [OF run_refl thread_step.lookup_miss]) (use assms in simp_all)
  then show ?thesis
    unfolding locked_state_def
    by (rule run_step [OF _ thread_step.lock_miss]) (use assms in simp_all)
qed

definition created_state :: "('v, 'x, 'sk) lib \<Rightarrow> 'sk processor \<Rightarrow> nat \<Rightarrow> trackerKey \<Rightarrow> u64 \<Rightarrow> nat \<Rightarrow>
    'sk conc \<Rightarrow> 'sk conc" where
  "created_state L p t key h a s =
     (goto t (Stored key h a) s)\<lparr>c_trackers := (c_trackers s)(key \<mapsto> a),
                                c_heap := (c_heap s)(a \<mapsto> newTracker L)\<rparr>"

definition added_state :: "('v, 'x, 'sk) lib \<Rightarrow> 'sk processor \<Rightarrow> nat \<Rightarrow> trackerKey \<Rightarrow> u64 \<Rightarrow> nat \<Rightarrow>
    'sk conc \<Rightarrow> 'sk conc" where
  "added_state L p t key h a s =
     (goto t (Holding key h a) (set_lock (shard_of L p key) None s))\<lparr>c_count := c_count s + 1\<rparr>"

lemma step_create:
  "c_pc s t = Admitted key h \<Longrightarrow> c_heap s a = None \<Longrightarrow>
   thread_step L p t s (created_state L p t key h a s)"
  unfolding created_state_def by (rule thread_step.store)

lemma step_added:
  "c_pc s t = Stored key h a \<Longrightarrow> thread_step L p t s (added_state L p t key h a s)"
  unfolding added_state_def by (rule thread_step.add)

lemma conc_run: "conc_reachable L p s \<Longrightarrow> thread_run L p t s s' \<Longrightarrow> conc_reachable L p s'"
proof -
  assume s: "conc_reachable L p s" and run: "thread_run L p t s s'"
  show "conc_reachable L p s'"
    using run unfolding thread_run_def
    by (induction rule: rtranclp_induct) (use s in \<open>auto intro: conc_reachable.conc_thread\<close>)
qed

lemma run_insert:
  assumes run: "thread_run L p t s0 s" and pc: "c_pc s t = Holding key h a"
    and tr: "c_heap s a = Some tr"
  shows "\<exists>s'. thread_run L p t s0 s' \<and> c_trackers s' = c_trackers s \<and>
    c_heap s' = (c_heap s)(a \<mapsto> snd (tracker_insert L h tr)) \<and>
    c_pc s' t = Finished (exceeds (cachedCurr (snd (tracker_insert L h tr))) (cachedPrev tr)
      (getLimit (cfg p) (key_metricName key)))"
proof -
  have "tracker_insert L h tr = ((cachedCurr (snd (tracker_insert L h tr)), cachedPrev tr),
      snd (tracker_insert L h tr))"
    by (simp add: prod_eq_iff tracker_insert_result frame_simps)
  from run_step [OF run thread_step.insert [OF pc tr this]] show ?thesis by force
qed

section \<open>Properties\<close>

text \<open>
  C13. Under any interleaving the number of tracked pairs exceeds \<open>MaxTrackerCount\<close> by at most
  255: the check reads the counter under the lock of its own shard only, so at most one
  goroutine per shard can pass it before the counter shows the others.
\<close>

theorem concurrent_overshoot_bounded:
  assumes "conc_reachable L p s" and "0 < sint (MaxTrackerCount (cfg p))"
    and "sint (MaxTrackerCount (cfg p)) < 2 ^ 62"
  shows "int (card (dom (c_trackers s))) \<le> sint (MaxTrackerCount (cfg p)) + 255"
proof -
  obtain n where "count_is p n s"
    using conc_reachable_inv [OF assms(1,3)] by (auto simp: conc_inv_def count_inv_is)
  with assms(2) show ?thesis by (auto simp: count_is_def entries_of_def)
qed

text \<open>
  C12. The counter that the budget check reads follows the trackers under any interleaving: it is
  the number of tracked pairs, less those just stored by a goroutine that has not counted
  them yet, plus the one the rotation has deleted and not yet discounted. The first are at
  most 256, one for each shard; when nobody is in between, the counter is exact.
\<close>

theorem counter_follows_the_trackers:
  assumes "conc_reachable L p s" and "sint (MaxTrackerCount (cfg p)) < 2 ^ 62"
  shows "c_count s = of_int (int (card (dom (c_trackers s)))
      - int (card {t. \<exists>key h a. c_pc s t = Stored key h a})
      + (if \<exists>i keys. c_rot s = RotDecrement i keys then 1 else 0)) \<and>
    card {t. \<exists>key h a. c_pc s t = Stored key h a} \<le> 256"
proof -
  have inv: "conc_inv L p s" by (rule conc_reachable_inv [OF assms])
  then obtain n where n: "count_is p n s" by (auto simp: conc_inv_def count_inv_is)
  have st: "{t. \<exists>key h a. c_pc s t = Stored key h a} = stored s"
    by (auto simp: stored_def elim: is_storedE)
  have "int (owes (c_rot s)) = (if \<exists>i keys. c_rot s = RotDecrement i keys then 1 else 0)"
    by (cases "c_rot s") simp_all
  with n have "n = int (card (dom (c_trackers s))) - int (card (stored s))
      + (if \<exists>i keys. c_rot s = RotDecrement i keys then 1 else 0)" "c_count s = of_int n"
    by (auto simp: count_is_def entries_of_def)
  moreover have "card (stored s) \<le> 256"
    using admitted_stored(3) [of L p s] inv by (simp add: conc_inv_def)
  ultimately show ?thesis unfolding st by blast
qed

text \<open>
  A goroutine that runs without interference takes the decision of the flat map: from any
  state in which it is idle and no shard is locked, its steps lead to the verdict, and to
  the trackers, of the specification that the sequential model refines too.
\<close>

lemma undisturbed_goroutine_decides:
  assumes ok: "heap_ok s" and idle: "c_pc s t = Idle" and free: "c_locks s = (\<lambda>_. None)"
  shows "\<exists>s' b. (thread_step L p t)\<^sup>*\<^sup>* s s' \<and> c_pc s' t = Finished b \<and>
    flat_decision L (unat (getLimit (cfg p) m)) (count_exhausted (cfg p) (c_count s))
      (TrackerKey m k) (Sum64String L v) (view s) = (b, view s')"
proof -
  let ?key = "TrackerKey m k" and ?h = "Sum64String L v"
  show ?thesis
  proof (cases "c_trackers s ?key")
    case (Some a)
    with ok obtain tr where tr: "c_heap s a = Some tr" unfolding heap_ok_def by blast
    have run: "thread_run L p t s (goto t (Holding ?key ?h a) s)"
      by (rule run_step [OF run_refl thread_step.lookup_hit]) (use idle free Some in simp_all)
    obtain s' where s': "thread_run L p t s s'" "c_trackers s' = c_trackers s"
        "c_heap s' = (c_heap s)(a \<mapsto> snd (tracker_insert L ?h tr))"
        "c_pc s' t = Finished (exceeds (cachedCurr (snd (tracker_insert L ?h tr))) (cachedPrev tr)
          (getLimit (cfg p) m))"
      using run_insert [OF run, of ?key ?h a tr] tr by auto
    have "view s ?key = Some tr" using Some tr by (simp add: view_def)
    with s' view_insert [OF ok Some s'(2,3)] show ?thesis
      by (auto simp: flat_decision_def Let_def exceeds_unat frame_simps thread_run_def)
  next
    case None
    let ?s1 = "locked_state L p t ?key ?h s"
    have run1: "thread_run L p t s ?s1"
      by (rule run_to_lock) (use idle free None in simp_all)
    have s1: "c_pc ?s1 t = Checking ?key ?h" "c_count ?s1 = c_count s"
      "c_trackers ?s1 = c_trackers s" "c_heap ?s1 = c_heap s"
      by (simp_all add: locked_state_def)
    have new: "view s ?key = None" using None by (simp add: view_def)
    show ?thesis
    proof (cases "count_exhausted (cfg p) (c_count s)")
      case True
      let ?s2 = "(goto t (Finished False) (set_lock (shard_of L p ?key) None ?s1))
        \<lparr>c_rejected := c_rejected ?s1 + 1\<rparr>"
      have "thread_run L p t s ?s2"
        by (rule run_step [OF run1 thread_step.check_full [OF s1(1)]]) (use True s1(2) in simp)
      moreover have "view ?s2 = view s" by (simp add: view_def s1 fun_eq_iff)
      ultimately show ?thesis
        using True new by (intro exI [of _ ?s2] exI [of _ False]) (simp add: flat_decision_def Let_def thread_run_def)
    next
      case False
      obtain a where fresh: "c_heap s a = None" using ok by (auto simp: heap_ok_def)
      let ?s2 = "goto t (Admitted ?key ?h) ?s1"
      let ?s3 = "created_state L p t ?key ?h a ?s2"
      let ?s4 = "added_state L p t ?key ?h a ?s3"
      have run2: "thread_run L p t s ?s2"
        by (rule run_step [OF run1 thread_step.check_room [OF s1(1)]]) (use False s1(2) in simp)
      have run3: "thread_run L p t s ?s3"
        by (rule run_step [OF run2 step_create]) (simp_all add: s1 fresh)
      have run4: "thread_run L p t s ?s4"
        by (rule run_step [OF run3 step_added]) (simp add: created_state_def)
      have s4: "c_pc ?s4 t = Holding ?key ?h a" "c_heap ?s4 = (c_heap s)(a \<mapsto> newTracker L)"
        "c_trackers ?s4 = (c_trackers s)(?key \<mapsto> a)"
        by (simp_all add: created_state_def added_state_def s1)
      obtain s' where s': "thread_run L p t s s'" "c_trackers s' = (c_trackers s)(?key \<mapsto> a)"
          "c_heap s' = (c_heap s)(a \<mapsto> snd (tracker_insert L ?h (newTracker L)))"
          "c_pc s' t = Finished (exceeds (cachedCurr (snd (tracker_insert L ?h (newTracker L))))
            (cachedPrev (newTracker L)) (getLimit (cfg p) m))"
        using run_insert [OF run4 s4(1), of "newTracker L"] s4 by auto
      from s' view_create [OF ok fresh s'(2,3)] new False show ?thesis
        by (auto simp: flat_decision_def Let_def exceeds_unat frame_simps thread_run_def)
    qed
  qed
qed

section \<open>Witnesses\<close>

text \<open>
  A budget of one tracker, and two goroutines that pass the check in two shards before
  either has counted its tracker.
\<close>

definition race_processor :: "u64 list processor" where
  "race_processor = make_processor ref_lib demo_config 7"

definition race_key :: "string \<Rightarrow> trackerKey" where
  "race_key m = TrackerKey m ''k''"

lemma race_shards: "shard_of ref_lib race_processor (race_key ''m'') \<noteq> shard_of ref_lib race_processor (race_key ''n'')"
  by code_simp

lemma race_room: "\<not> count_exhausted (cfg race_processor) 0"
  by (simp add: count_exhausted_def)

definition race_admitted :: "u64 list conc" where
  "race_admitted =
     (let s1 = goto 0 (Admitted (race_key ''m'') (Sum64String ref_lib ''a''))
                 (locked_state ref_lib race_processor 0 (race_key ''m'') (Sum64String ref_lib ''a'') initial_conc)
      in goto 1 (Admitted (race_key ''n'') (Sum64String ref_lib ''a''))
           (locked_state ref_lib race_processor 1 (race_key ''n'') (Sum64String ref_lib ''a'') s1))"

lemma race_admitted_reachable: "conc_reachable ref_lib race_processor race_admitted"
proof -
  let ?h = "Sum64String ref_lib ''a''"
  let ?l0 = "locked_state ref_lib race_processor 0 (race_key ''m'') ?h initial_conc"
  let ?s1 = "goto 0 (Admitted (race_key ''m'') ?h) ?l0"
  let ?l1 = "locked_state ref_lib race_processor 1 (race_key ''n'') ?h ?s1"
  have "thread_run ref_lib race_processor 0 initial_conc ?l0"
    by (rule run_to_lock) (simp_all add: initial_conc_def race_key_def)
  then have "thread_run ref_lib race_processor 0 initial_conc ?s1"
    by (rule run_step) (rule thread_step.check_room,
        simp_all add: locked_state_def race_room initial_conc_def)
  then have r1: "conc_reachable ref_lib race_processor ?s1"
    by (rule conc_run [OF conc_reachable.conc_initial])
  have "thread_run ref_lib race_processor 1 ?s1 ?l1"
    by (rule run_to_lock)
       (use race_shards in \<open>simp_all add: initial_conc_def race_key_def locked_state_def\<close>)
  then have "thread_run ref_lib race_processor 1 ?s1 (goto 1 (Admitted (race_key ''n'') ?h) ?l1)"
    by (rule run_step) (rule thread_step.check_room,
        simp_all add: locked_state_def race_room initial_conc_def)
  from conc_run [OF r1 this] show ?thesis by (simp add: race_admitted_def Let_def)
qed

text \<open>
  C39. The budget can be exceeded: with \<open>MaxTrackerCount\<close> one, a state with two tracked pairs
  is reachable.
\<close>

theorem concurrent_budget_can_be_exceeded:
  "sint (MaxTrackerCount (cfg race_processor)) = 1 \<and>
   (\<exists>s. conc_reachable ref_lib race_processor s \<and> card (dom (c_trackers s)) = 2)"
proof -
  let ?h = "Sum64String ref_lib ''a''"
  let ?s1 = "created_state ref_lib race_processor 0 (race_key ''m'') ?h 0 race_admitted"
  let ?s2 = "created_state ref_lib race_processor 1 (race_key ''n'') ?h 1 ?s1"
  have "thread_step ref_lib race_processor 0 race_admitted ?s1"
    by (rule step_create) (simp_all add: race_admitted_def Let_def locked_state_def initial_conc_def)
  with race_admitted_reachable have r1: "conc_reachable ref_lib race_processor ?s1"
    by (rule conc_reachable.conc_thread)
  have "thread_step ref_lib race_processor 1 ?s1 ?s2"
    by (rule step_create) (simp_all add: created_state_def race_admitted_def Let_def locked_state_def initial_conc_def)
  with r1 have "conc_reachable ref_lib race_processor ?s2" by (rule conc_reachable.conc_thread)
  moreover have "dom (c_trackers ?s2) = {race_key ''m'', race_key ''n''}"
    by (auto simp: created_state_def race_admitted_def Let_def locked_state_def initial_conc_def)
  then have "card (dom (c_trackers ?s2)) = 2" by (simp add: race_key_def)
  ultimately show ?thesis by (auto simp: race_processor_def demo_config_def)
qed

theorem concurrent_overshoot_bounded_witness:
  "int (card (dom (c_trackers race_admitted))) \<le> 256"
proof -
  have "sint (MaxTrackerCount (cfg race_processor)) = 1"
    by (simp add: race_processor_def demo_config_def)
  with concurrent_overshoot_bounded [OF race_admitted_reachable] show ?thesis by simp
qed

text \<open>One goroutine has stored its tracker and not yet counted it, the other is about to store.\<close>

theorem counter_follows_the_trackers_witness:
  "\<exists>s. conc_reachable ref_lib race_processor s \<and> card (dom (c_trackers s)) = 1 \<and> c_count s = 0 \<and>
     c_count s = of_int (int (card (dom (c_trackers s))) - int (card {t. \<exists>key h a. c_pc s t = Stored key h a}))"
proof -
  let ?h = "Sum64String ref_lib ''a''"
  let ?s = "created_state ref_lib race_processor 0 (race_key ''m'') ?h 0 race_admitted"
  have "thread_step ref_lib race_processor 0 race_admitted ?s"
    by (rule step_create) (simp_all add: race_admitted_def Let_def locked_state_def initial_conc_def)
  with race_admitted_reachable have reach: "conc_reachable ref_lib race_processor ?s"
    by (rule conc_reachable.conc_thread)
  have fields: "dom (c_trackers ?s) = {race_key ''m''}" "c_count ?s = 0" "c_rot ?s = RotIdle"
    by (auto simp: created_state_def race_admitted_def Let_def locked_state_def initial_conc_def)
  have "sint (MaxTrackerCount (cfg race_processor)) < 2 ^ 62"
    by (simp add: race_processor_def demo_config_def)
  from counter_follows_the_trackers [OF reach this] reach fields show ?thesis
    by (intro exI [of _ ?s]) simp
qed

end
