(* ===== verification/Progress.thy ===== *)
theory Progress
  imports Concurrency
begin

text \<open>
  Progress of the interleaved model: every call of \<open>shouldDrop\<close> and every rotation takes
  finitely many steps of its own, whoever runs in between, and there is no deadlock: who
  holds a lock can always take its next step, and who does not can step or waits for a lock.
\<close>

section \<open>What a lock's owner is doing\<close>

text \<open>The trackers a goroutine and the rotator point to, and the shard the rotator has locked.\<close>

fun pointer :: "pc \<Rightarrow> nat option" where
  "pointer (Stored key h a) = Some a"
| "pointer (Holding key h a) = Some a"
| "pointer _ = None"

fun rot_pointers :: "rotator_pc \<Rightarrow> nat set" where
  "rot_pointers (RotEntries i es stale) = snd ` set es"
| "rot_pointers _ = {}"

fun rot_locked :: "rotator_pc \<Rightarrow> nat option" where
  "rot_locked (RotEvict i keys) = Some i"
| "rot_locked (RotDecrement i keys) = Some i"
| "rot_locked _ = None"

fun rot_in_range :: "rotator_pc \<Rightarrow> bool" where
  "rot_in_range RotIdle = True"
| "rot_in_range (RotShard i) = (i \<le> unat numShards)"
| "rot_in_range (RotEntries i es stale) = (i < unat numShards)"
| "rot_in_range (RotEvict i keys) = (i < unat numShards)"
| "rot_in_range (RotDecrement i keys) = (i < unat numShards)"

definition owners_inv :: "('v, 'x, 'sk) lib \<Rightarrow> 'sk processor \<Rightarrow> 'sk conc \<Rightarrow> bool" where
  "owners_inv L p s \<longleftrightarrow>
     (\<forall>i t. c_locks s i = Some (ThreadOwner t) \<longrightarrow>
        (\<exists>key. locked_key (c_pc s t) = Some key \<and> shard_of L p key = i)) \<and>
     (\<forall>i. c_locks s i = Some RotatorOwner \<longrightarrow> rot_locked (c_rot s) = Some i)"

definition pointers_inv :: "'sk conc \<Rightarrow> bool" where
  "pointers_inv s \<longleftrightarrow> finite (dom (c_heap s)) \<and> finite (dom (c_trackers s)) \<and>
     (\<forall>key a. c_trackers s key = Some a \<longrightarrow> a \<in> dom (c_heap s)) \<and>
     (\<forall>t a. pointer (c_pc s t) = Some a \<longrightarrow> a \<in> dom (c_heap s)) \<and>
     rot_pointers (c_rot s) \<subseteq> dom (c_heap s) \<and> rot_in_range (c_rot s)"

lemma thread_owners_inv:
  assumes step: "thread_step L p t s s'" and inv: "owners_inv L p s"
  shows "owners_inv L p s'"
proof -
  have own: "\<forall>i. c_locks s i = Some (ThreadOwner t) \<longrightarrow>
      (\<exists>key. locked_key (c_pc s t) = Some key \<and> shard_of L p key = i)"
    using inv by (simp add: owners_inv_def)
  show ?thesis
    using step by cases (use inv own in \<open>auto simp: owners_inv_def\<close>)
qed

lemma rotator_owners_inv:
  assumes step: "rotator_step L p s s'" and inv: "owners_inv L p s"
  shows "owners_inv L p s'"
  using step by cases (use inv in \<open>auto simp: owners_inv_def\<close>)

lemma thread_pointers_inv:
  assumes step: "thread_step L p t s s'" and inv: "pointers_inv s"
  shows "pointers_inv s'"
proof -
  have own: "\<forall>a. pointer (c_pc s t) = Some a \<longrightarrow> a \<in> dom (c_heap s)"
    using inv by (simp add: pointers_inv_def)
  show ?thesis
    using step by cases (use inv own in \<open>auto simp: pointers_inv_def\<close>)
qed

lemma rotator_pointers_inv:
  assumes step: "rotator_step L p s s'" and inv: "pointers_inv s"
  shows "pointers_inv s'"
proof -
  have live: "\<And>key a. c_trackers s key = Some a \<Longrightarrow> \<exists>t. c_heap s a = Some t"
    using inv by (auto simp: pointers_inv_def)
  show ?thesis
    using step by cases (use inv in \<open>auto simp: pointers_inv_def intro: live\<close>)
qed

definition progress_inv :: "('v, 'x, 'sk) lib \<Rightarrow> 'sk processor \<Rightarrow> 'sk conc \<Rightarrow> bool" where
  "progress_inv L p s \<longleftrightarrow> owners_inv L p s \<and> pointers_inv s"

lemma reachable_progress_inv: "conc_reachable L p s \<Longrightarrow> progress_inv L p s"
proof (induction rule: conc_reachable.induct)
  case conc_initial
  show ?case by (simp add: progress_inv_def owners_inv_def pointers_inv_def initial_conc_def)
qed (auto simp: progress_inv_def intro: thread_owners_inv rotator_owners_inv
       thread_pointers_inv rotator_pointers_inv)

section \<open>Who can step\<close>

lemma fresh_address: "pointers_inv s \<Longrightarrow> \<exists>a. c_heap s a = None"
  using ex_new_if_finite [OF infinite_UNIV_nat, of "dom (c_heap s)"] by (auto simp: pointers_inv_def)

lemma thread_can_step:
  assumes inv: "progress_inv L p s" and call: "c_pc s t \<noteq> Idle"
    and not_waiting: "\<And>key h. c_pc s t = Missed key h \<Longrightarrow> c_locks s (shard_of L p key) = None"
  shows "\<exists>s'. thread_step L p t s s'"
proof (cases "c_pc s t")
  case (Missed key h)
  then show ?thesis
    using not_waiting thread_step.lock_hit thread_step.lock_miss
    by (cases "c_trackers s key") blast+
next
  case (Checking key h)
  then show ?thesis using thread_step.check_full thread_step.check_room by blast
next
  case (Admitted key h)
  then show ?thesis
    using inv fresh_address thread_step.store unfolding progress_inv_def by blast
next
  case (Holding key h a)
  then have "pointer (c_pc s t) = Some a" by simp
  then have "a \<in> dom (c_heap s)" using inv unfolding progress_inv_def pointers_inv_def by blast
  then obtain tr where tr: "c_heap s a = Some tr" by blast
  obtain c b tr' where "tracker_insert L h tr = ((c, b), tr')" by (metis surj_pair)
  from thread_step.insert [OF Holding tr this] show ?thesis by blast
qed (use call thread_step.add thread_step.return in blast)+

lemma locked_thread_can_step:
  assumes inv: "progress_inv L p s" and lock: "c_locks s i = Some (ThreadOwner t)"
  shows "\<exists>s'. thread_step L p t s s'"
proof -
  obtain key where key: "locked_key (c_pc s t) = Some key"
    using inv lock unfolding progress_inv_def owners_inv_def by blast
  show ?thesis by (rule thread_can_step [OF inv]) (use key in auto)
qed

lemma locked_rotator_can_step:
  assumes inv: "progress_inv L p s" and lock: "c_locks s i = Some RotatorOwner"
  shows "\<exists>s'. rotator_step L p s s'"
proof -
  have "rot_locked (c_rot s) = Some i"
    using inv lock by (auto simp: progress_inv_def owners_inv_def)
  then show ?thesis
  proof (cases "c_rot s")
    case (RotEvict j keys)
    then show ?thesis
      using rotator_step.rot_delete rotator_step.rot_unlock by (cases keys) blast+
  qed (auto intro: rotator_step.rot_decrement)
qed

text \<open>A snapshot of a shard exists, because finitely many pairs are tracked.\<close>

lemma snapshot_exists:
  assumes "finite (dom m)"
  shows "\<exists>es. distinct (map fst es) \<and> (\<forall>key a. (key, a) \<in> set es \<longleftrightarrow> m key = Some a \<and> P key)"
proof -
  obtain ks where ks: "set ks = dom m \<inter> {key. P key}" "distinct ks"
    using finite_distinct_list [of "dom m \<inter> {key. P key}"] assms by blast
  show ?thesis
  proof (intro exI conjI allI)
    show "distinct (map fst (map (\<lambda>key. (key, the (m key))) ks))" using ks(2) by (simp add: comp_def)
    show "(key, a) \<in> set (map (\<lambda>key. (key, the (m key))) ks) \<longleftrightarrow> m key = Some a \<and> P key" for key a
      using ks(1) by auto
  qed
qed

lemma rotator_can_step:
  assumes inv: "progress_inv L p s" and not_waiting: "c_locks s = (\<lambda>_. None)"
  shows "\<exists>s'. rotator_step L p s s'"
proof (cases "c_rot s")
  case RotIdle
  then show ?thesis using rotator_step.rot_begin by blast
next
  case (RotShard i)
  show ?thesis
  proof (cases "i < unat numShards")
    case True
    have "finite (dom (c_trackers s))" using inv by (simp add: progress_inv_def pointers_inv_def)
    from snapshot_exists [OF this, of "\<lambda>key. shard_of L p key = i"]
    obtain es where "distinct (map fst es)"
      "\<forall>key a. (key, a) \<in> set es \<longleftrightarrow> c_trackers s key = Some a \<and> shard_of L p key = i" by blast
    from rotator_step.rot_snapshot [OF RotShard True _ this] not_waiting show ?thesis by auto
  next
    case False
    then have "c_rot s = RotShard (unat numShards)"
      using inv RotShard by (auto simp: progress_inv_def pointers_inv_def)
    from rotator_step.rot_end [OF this] show ?thesis by blast
  qed
next
  case (RotEntries i es stale)
  show ?thesis
  proof (cases es)
    case Nil
    with RotEntries have pc: "c_rot s = RotEntries i [] stale" by simp
    moreover have "c_locks s i = None" using not_waiting by simp
    ultimately show ?thesis
      using rotator_step.rot_no_stale rotator_step.rot_lock by (cases "stale = []") blast+
  next
    case (Cons e es')
    obtain key a where e: "e = (key, a)" by force
    then obtain tr where tr: "c_heap s a = Some tr"
      using inv RotEntries Cons by (fastforce simp: progress_inv_def pointers_inv_def)
    obtain idle tr' where "tracker_rotate (mustGetSketch L) tr = (idle, tr')" by force
    from rotator_step.rot_entry [OF _ tr this] RotEntries Cons e show ?thesis by blast
  qed
next
  case (RotEvict i keys)
  then show ?thesis
    using rotator_step.rot_delete rotator_step.rot_unlock by (cases keys) blast+
next
  case (RotDecrement i keys)
  then show ?thesis using rotator_step.rot_decrement by blast
qed

section \<open>Termination\<close>

text \<open>The steps a call has left, and a measure of what a rotation has left.\<close>

fun steps_left :: "pc \<Rightarrow> nat" where
  "steps_left Idle = 0"
| "steps_left (Finished b) = 1"
| "steps_left (Holding key h a) = 2"
| "steps_left (Stored key h a) = 3"
| "steps_left (Admitted key h) = 4"
| "steps_left (Checking key h) = 5"
| "steps_left (Missed key h) = 6"

fun rotation_left :: "rotator_pc \<Rightarrow> nat \<times> nat" where
  "rotation_left RotIdle = (0, 0)"
| "rotation_left (RotShard i) = (2 * (unat numShards - i) + 1, 0)"
| "rotation_left (RotEntries i es stale) = (2 * (unat numShards - i), 3 * length es + 2 * length stale + 2)"
| "rotation_left (RotEvict i keys) = (2 * (unat numShards - i), 2 * length keys)"
| "rotation_left (RotDecrement i keys) = (2 * (unat numShards - i), 2 * length keys + 1)"

lemma step_lowers_steps_left:
  assumes "thread_step L p t s s'" and "c_pc s t \<noteq> Idle"
  shows "steps_left (c_pc s' t) < steps_left (c_pc s t)"
  using assms(1) by cases (use assms(2) in auto)

lemma step_lowers_rotation_left:
  assumes "rotator_step L p s s'" and "pointers_inv s" and "c_rot s \<noteq> RotIdle"
  shows "(rotation_left (c_rot s'), rotation_left (c_rot s)) \<in> less_than <*lex*> less_than"
  using assms(1) by cases (use assms(2,3) in \<open>auto simp: pointers_inv_def\<close>)

text \<open>
  One call: it begins with the first step of an idle goroutine and lasts as long as that is
  not idle again; everybody else steps in between. The number counts its own steps.
\<close>

inductive call_run ::
  "('v, 'x, 'sk) lib \<Rightarrow> 'sk processor \<Rightarrow> nat \<Rightarrow> nat \<Rightarrow> 'sk conc \<Rightarrow> 'sk conc \<Rightarrow> bool"
  for L p t where
  call_begins: "c_pc s t = Idle \<Longrightarrow> thread_step L p t s s' \<Longrightarrow> call_run L p t 1 s s'"
| own_step: "call_run L p t n s s' \<Longrightarrow> c_pc s' t \<noteq> Idle \<Longrightarrow> thread_step L p t s' s'' \<Longrightarrow>
     call_run L p t (Suc n) s s''"
| other_goroutine: "call_run L p t n s s' \<Longrightarrow> u \<noteq> t \<Longrightarrow> thread_step L p u s' s'' \<Longrightarrow> call_run L p t n s s''"
| other_rotator: "call_run L p t n s s' \<Longrightarrow> rotator_step L p s' s'' \<Longrightarrow> call_run L p t n s s''"

lemma others_keep_pc:
  "thread_step L p u s s' \<Longrightarrow> u \<noteq> t \<Longrightarrow> c_pc s' t = c_pc s t"
  "rotator_step L p s s' \<Longrightarrow> c_pc s' t = c_pc s t"
  by (auto elim!: thread_step.cases rotator_step.cases)

lemma first_step_left: "thread_step L p t s s' \<Longrightarrow> c_pc s t = Idle \<Longrightarrow> steps_left (c_pc s' t) \<le> 6"
  by (erule thread_step.cases) simp_all

lemma call_run_left: "call_run L p t n s s' \<Longrightarrow> n + steps_left (c_pc s' t) \<le> 7"
proof (induction rule: call_run.induct)
  case (call_begins s s')
  then show ?case using first_step_left by fastforce
next
  case (own_step n s s' s'')
  then show ?case using step_lowers_steps_left by fastforce
qed (simp_all add: others_keep_pc)

section \<open>Properties\<close>

text \<open>
  C21. Calls and rotations terminate: the own steps of a goroutine inside a call of
  \<open>shouldDrop\<close>, and those of the rotator inside a rotation, go down well-founded relations,
  and nobody else's steps move them; whatever the others do in between, one call takes at
  most seven steps of its own.
\<close>

theorem calls_and_rotations_terminate:
  fixes L :: "('v, 'x, 'sk) lib"
  shows "wf {(c_pc s' t, c_pc s t) | s s'. c_pc s t \<noteq> Idle \<and> thread_step L p t s s'} \<and>
    wf {(c_rot s', c_rot s) | s s'. conc_reachable L p s \<and> c_rot s \<noteq> RotIdle \<and> rotator_step L p s s'} \<and>
    {(s, s'). \<exists>u. u \<noteq> t \<and> thread_step L p u s s'} \<union> {(s, s'). rotator_step L p s s'}
      \<subseteq> {(s, s'). c_pc s' t = c_pc s t} \<and>
    {(s, s'). thread_step L p t s s'} \<subseteq> {(s, s'). c_rot s' = c_rot s} \<and>
    {n. \<exists>s s'. call_run L p t n s s'} \<subseteq> {..7}"
proof (intro conjI)
  show "wf {(c_pc s' t, c_pc s t) | s s'. c_pc s t \<noteq> Idle \<and> thread_step L p t s s'}"
    by (rule wf_subset [OF wf_measure [of steps_left]]) (auto intro: step_lowers_steps_left)
  have "wf (inv_image (less_than <*lex*> less_than) rotation_left)" by (intro wf_inv_image wf_lex_prod wf_less_than)
  then show "wf {(c_rot s', c_rot s) | s s'. conc_reachable L p s \<and> c_rot s \<noteq> RotIdle \<and> rotator_step L p s s'}"
    by (rule wf_subset) (use reachable_progress_inv step_lowers_rotation_left in
      \<open>fastforce simp: progress_inv_def in_inv_image\<close>)
  show "{(s, s'). thread_step L p t s s'} \<subseteq> {(s, s'). c_rot s' = c_rot s}"
    by (auto elim!: thread_step.cases)
  show "{(s, s'). \<exists>u. u \<noteq> t \<and> thread_step L p u s s'} \<union> {(s, s'). rotator_step L p s s'}
      \<subseteq> {(s, s'). c_pc s' t = c_pc s t}"
    using others_keep_pc by blast
  show "{n. \<exists>s s'. call_run L p t n s s'} \<subseteq> {..7}"
    using call_run_left by (fastforce dest: add_leD1)
qed

text \<open>
  C18. There is no deadlock: in every reachable state the owner of a shard's lock can take its
  next step; a goroutine inside a call can step or is about to take the lock of a shard that
  somebody owns; and the rotator can step unless some lock is taken.
\<close>

theorem no_deadlock:
  assumes "conc_reachable L p s"
  shows "(case c_locks s i of
       None \<Rightarrow> True
     | Some (ThreadOwner t) \<Rightarrow> \<exists>s'. thread_step L p t s s'
     | Some RotatorOwner \<Rightarrow> \<exists>s'. rotator_step L p s s') \<and>
    (c_pc s u = Idle \<or> (\<exists>s'. thread_step L p u s s') \<or>
     (\<exists>key h. c_pc s u = Missed key h \<and> c_locks s (shard_of L p key) \<noteq> None)) \<and>
    ((\<exists>s'. rotator_step L p s s') \<or> (\<exists>j. c_locks s j \<noteq> None))"
proof (intro conjI)
  note inv = reachable_progress_inv [OF assms]
  show "case c_locks s i of
       None \<Rightarrow> True
     | Some (ThreadOwner t) \<Rightarrow> \<exists>s'. thread_step L p t s s'
     | Some RotatorOwner \<Rightarrow> \<exists>s'. rotator_step L p s s'"
    using locked_thread_can_step [OF inv] locked_rotator_can_step [OF inv]
    by (auto split: option.split owner.split)
  show "c_pc s u = Idle \<or> (\<exists>s'. thread_step L p u s s') \<or>
     (\<exists>key h. c_pc s u = Missed key h \<and> c_locks s (shard_of L p key) \<noteq> None)"
    using thread_can_step [OF inv] by blast
  show "(\<exists>s'. rotator_step L p s s') \<or> (\<exists>j. c_locks s j \<noteq> None)"
    using rotator_can_step [OF inv] by (metis ext)
qed

section \<open>Witness\<close>

theorem no_deadlock_witness:
  "\<exists>s'. thread_step ref_lib race_processor 0 race_admitted s'"
proof -
  have "c_locks race_admitted (shard_of ref_lib race_processor (race_key ''m'')) = Some (ThreadOwner 0)"
    using race_shards by (simp add: race_admitted_def Let_def locked_state_def initial_conc_def)
  with no_deadlock [OF race_admitted_reachable, of "shard_of ref_lib race_processor (race_key ''m'')"]
  show ?thesis by simp
qed

end
