(* ===== verification/Concurrent_Rotation.thy ===== *)
theory Concurrent_Rotation
  imports Progress
begin

text \<open>
  The rotation in the interleaved model. Without interference its steps, shard by shard and
  tracker by tracker, have the effect of the sequential \<open>rotate\<close> on the trackers. With
  interference a value can be lost: between the test that finds a tracker idle and the
  deletion of its entry, a goroutine may look the tracker up and then insert into it.
\<close>

section \<open>Runs of the rotator\<close>

definition rotator_run ::
  "('v, 'x, 'sk) lib \<Rightarrow> 'sk processor \<Rightarrow> 'sk conc \<Rightarrow> 'sk conc \<Rightarrow> bool" where
  "rotator_run L p = (rotator_step L p)\<^sup>*\<^sup>*"

lemma rotator_refl: "rotator_run L p s s"
  by (simp add: rotator_run_def)

lemma rotator_first: "rotator_step L p s s' \<Longrightarrow> rotator_run L p s' s'' \<Longrightarrow> rotator_run L p s s''"
  by (simp add: rotator_run_def converse_rtranclp_into_rtranclp)

lemma rotator_trans: "rotator_run L p s s' \<Longrightarrow> rotator_run L p s' s'' \<Longrightarrow> rotator_run L p s s''"
  by (simp add: rotator_run_def)

lemma conc_rotator_run: "conc_reachable L p s \<Longrightarrow> rotator_run L p s s' \<Longrightarrow> conc_reachable L p s'"
proof -
  assume s: "conc_reachable L p s" and run: "rotator_run L p s s'"
  show "conc_reachable L p s'"
    using run unfolding rotator_run_def
    by (induction rule: rtranclp_induct) (use s in \<open>auto intro: conc_reachable.conc_rotator\<close>)
qed

text \<open>The steps inside the two loops over a shard: over its trackers and over the stale keys.\<close>

fun in_loop :: "rotator_pc \<Rightarrow> bool" where
  "in_loop (RotEntries i (e # es) stale) = True"
| "in_loop (RotEvict i (key # keys)) = True"
| "in_loop (RotDecrement i keys) = True"
| "in_loop _ = False"

definition loop_step ::
  "('v, 'x, 'sk) lib \<Rightarrow> 'sk processor \<Rightarrow> 'sk conc \<Rightarrow> 'sk conc \<Rightarrow> bool" where
  "loop_step L p s s' \<longleftrightarrow> rotator_step L p s s' \<and> in_loop (c_rot s)"

definition loop_run ::
  "('v, 'x, 'sk) lib \<Rightarrow> 'sk processor \<Rightarrow> 'sk conc \<Rightarrow> 'sk conc \<Rightarrow> bool" where
  "loop_run L p = (loop_step L p)\<^sup>*\<^sup>*"

lemma loop_refl: "loop_run L p s s"
  by (simp add: loop_run_def)

lemma loop_first:
  "rotator_step L p s s' \<Longrightarrow> loop_run L p s' s'' \<Longrightarrow> in_loop (c_rot s) \<Longrightarrow> loop_run L p s s''"
  by (simp add: loop_run_def loop_step_def converse_rtranclp_into_rtranclp)

lemma loop_rotator_run: "loop_run L p s s' \<Longrightarrow> rotator_run L p s s'"
  unfolding loop_run_def rotator_run_def
  by (rule rtranclp_mono [THEN predicate2D]) (auto simp: loop_step_def)

text \<open>The trackers of a shard, one after the other.\<close>

definition rotate_heap ::
  "('v, 'x, 'sk) lib \<Rightarrow> nat set \<Rightarrow> (nat \<rightharpoonup> 'sk tracker) \<Rightarrow> nat \<rightharpoonup> 'sk tracker" where
  "rotate_heap L A hp = (\<lambda>a. if a \<in> A then map_option (rotated L) (hp a) else hp a)"

definition stale_entries :: "(nat \<rightharpoonup> 'sk tracker) \<Rightarrow> (trackerKey \<times> nat) list \<Rightarrow> trackerKey list" where
  "stale_entries hp es = map fst (filter (\<lambda>(key, a). goes_stale (the (hp a))) es)"

lemma rotate_result:
  "tracker_rotate (mustGetSketch L) tr = (insertCount tr = 0, rotated L tr)"
  "(insertCount tr = 0 \<and> sint staleSweepEpochs \<le> sint (idleEpochs (rotated L tr))) = goes_stale tr"
  by (auto simp: rotated_def tracker_rotate_def Let_def goes_stale_def)

lemma entries_run:
  assumes "c_rot s = RotEntries i es stale" and "distinct (map snd es)"
    and "\<forall>(key, a) \<in> set es. c_heap s a \<noteq> None"
  shows "loop_run L p s (s\<lparr>c_heap := rotate_heap L (snd ` set es) (c_heap s),
    c_rot := RotEntries i [] (stale @ stale_entries (c_heap s) es)\<rparr>)"
  using assms
proof (induction es arbitrary: s stale)
  case Nil
  then have same: "s\<lparr>c_heap := rotate_heap L (snd ` set []) (c_heap s),
      c_rot := RotEntries i [] (stale @ stale_entries (c_heap s) [])\<rparr> = s"
    by (simp add: rotate_heap_def stale_entries_def)
  show ?case unfolding same by (rule loop_refl)
next
  case (Cons e es)
  obtain key a where e: "e = (key, a)" by force
  obtain tr where tr: "c_heap s a = Some tr" using Cons.prems(3) e by auto
  let ?s1 = "s\<lparr>c_heap := (c_heap s)(a \<mapsto> rotated L tr),
    c_rot := RotEntries i es (if goes_stale tr then stale @ [key] else stale)\<rparr>"
  have "rotator_step L p s (s\<lparr>c_heap := (c_heap s)(a \<mapsto> rotated L tr), c_rot := RotEntries i es
      (if insertCount tr = 0 \<and> sint staleSweepEpochs \<le> sint (idleEpochs (rotated L tr))
       then stale @ [key] else stale)\<rparr>)"
    by (rule rotator_step.rot_entry [OF _ tr rotate_result(1)]) (use Cons.prems(1) e in simp)
  then have step: "rotator_step L p s ?s1" unfolding rotate_result(2) .
  have a: "a \<notin> snd ` set es" using Cons.prems(2) e by force
  have heap: "rotate_heap L (snd ` set es) ((c_heap s)(a \<mapsto> rotated L tr))
      = rotate_heap L (snd ` set (e # es)) (c_heap s)"
    using a tr by (auto simp: rotate_heap_def e fun_eq_iff)
  have stale: "stale_entries ((c_heap s)(a \<mapsto> rotated L tr)) es = stale_entries (c_heap s) es"
    unfolding stale_entries_def
    by (rule arg_cong [where f = "map fst"], rule filter_cong [OF refl]) (use a in force)
  have "loop_run L p ?s1 (?s1\<lparr>c_heap := rotate_heap L (snd ` set es) (c_heap ?s1),
      c_rot := RotEntries i [] ((if goes_stale tr then stale @ [key] else stale) @ stale_entries (c_heap ?s1) es)\<rparr>)"
    by (rule Cons.IH) (use Cons.prems a e in auto)
  then have "loop_run L p ?s1 (s\<lparr>c_heap := rotate_heap L (snd ` set (e # es)) (c_heap s),
      c_rot := RotEntries i [] (stale @ stale_entries (c_heap s) (e # es))\<rparr>)"
    by (cases "goes_stale tr") (simp_all add: heap stale, simp_all add: stale_entries_def e tr)
  with step show ?case by (rule loop_first) (use Cons.prems(1) e in simp)
qed

text \<open>The evictions of a shard, each followed by its decrement.\<close>

definition without :: "trackerKey list \<Rightarrow> (trackerKey \<rightharpoonup> 'a) \<Rightarrow> trackerKey \<rightharpoonup> 'a" where
  "without keys m = (\<lambda>key. if key \<in> set keys then None else m key)"

lemma evict_run:
  assumes "c_rot s = RotEvict i keys"
  shows "loop_run L p s (s\<lparr>c_trackers := without keys (c_trackers s),
    c_count := c_count s - of_nat (length keys), c_rot := RotEvict i []\<rparr>)"
  using assms
proof (induction keys arbitrary: s)
  case Nil
  then have same: "s\<lparr>c_trackers := without [] (c_trackers s), c_count := c_count s - of_nat (length []),
      c_rot := RotEvict i []\<rparr> = s"
    by (simp add: without_def)
  show ?case unfolding same by (rule loop_refl)
next
  case (Cons key keys)
  let ?s1 = "s\<lparr>c_trackers := (c_trackers s)(key := None), c_rot := RotDecrement i keys\<rparr>"
  let ?s2 = "?s1\<lparr>c_count := c_count ?s1 - 1, c_rot := RotEvict i keys\<rparr>"
  have steps: "rotator_step L p s ?s1" "rotator_step L p ?s1 ?s2"
    using Cons.prems by (rule rotator_step.rot_delete) (rule rotator_step.rot_decrement, simp)
  have tr: "without keys ((c_trackers s)(key := None)) = without (key # keys) (c_trackers s)"
    by (auto simp: without_def fun_eq_iff)
  have "loop_run L p ?s2 (?s2\<lparr>c_trackers := without keys (c_trackers ?s2),
      c_count := c_count ?s2 - of_nat (length keys), c_rot := RotEvict i []\<rparr>)"
    by (rule Cons.IH) simp
  then have "loop_run L p ?s2 (s\<lparr>c_trackers := without (key # keys) (c_trackers s),
      c_count := c_count s - of_nat (length (key # keys)), c_rot := RotEvict i []\<rparr>)"
    by (simp add: tr algebra_simps)
  from loop_first [OF steps(1) loop_first [OF steps(2) this]] show ?case using Cons.prems by simp
qed

section \<open>One shard, all shards\<close>

text \<open>What a run of the rotator leaves alone, and how it keeps the counter.\<close>

definition rotation_keeps :: "'sk conc \<Rightarrow> 'sk conc \<Rightarrow> bool" where
  "rotation_keeps s s' \<longleftrightarrow> c_pc s' = c_pc s \<and> c_locks s' = c_locks s \<and> c_rejected s' = c_rejected s \<and>
     heap_ok s' \<and> finite (dom (c_trackers s')) \<and>
     c_count s' - of_nat (entries_of s') = c_count s - of_nat (entries_of s)"

lemma rotation_keeps_trans: "rotation_keeps s s' \<Longrightarrow> rotation_keeps s' s'' \<Longrightarrow> rotation_keeps s s''"
  by (simp add: rotation_keeps_def)

definition shard_fate ::
  "('v, 'x, 'sk) lib \<Rightarrow> 'sk processor \<Rightarrow> nat set \<Rightarrow> (trackerKey \<rightharpoonup> 'sk tracker) \<Rightarrow> trackerKey \<rightharpoonup> 'sk tracker" where
  "shard_fate L p I m = (\<lambda>key. if shard_of L p key \<in> I then Option.bind (m key) (fate L) else m key)"

lemma distinct_addresses:
  assumes inj: "inj_on (c_trackers s) (dom (c_trackers s))" and keys: "distinct (map fst es)"
    and es: "\<forall>key a. (key, a) \<in> set es \<longleftrightarrow> c_trackers s key = Some a \<and> shard_of L p key = i"
  shows "distinct (map snd es)"
proof -
  have "inj_on snd (set es)"
  proof (rule inj_onI)
    fix x y assume xy: "x \<in> set es" "y \<in> set es" "snd x = snd y"
    then have "c_trackers s (fst x) = Some (snd x)" "c_trackers s (fst y) = Some (snd y)"
      using es by (metis prod.collapse)+
    with xy(3) have "fst x = fst y" using inj_onD [OF inj, of "fst x" "fst y"] by (simp add: domI)
    then show "x = y" using xy(3) by (rule prod_eqI)
  qed
  moreover have "distinct es" using keys by (rule distinct_map [THEN iffD1, THEN conjunct1])
  ultimately show ?thesis by (simp add: distinct_map)
qed

lemma shard_entries:
  assumes ok: "heap_ok s" and fin: "finite (dom (c_trackers s))"
  obtains es where "distinct (map fst es)" "distinct (map snd es)"
    "\<forall>key a. (key, a) \<in> set es \<longleftrightarrow> c_trackers s key = Some a \<and> shard_of L p key = i"
proof -
  from snapshot_exists [OF fin, of "\<lambda>key. shard_of L p key = i"]
  obtain es where es: "distinct (map fst es)"
    "\<forall>key a. (key, a) \<in> set es \<longleftrightarrow> c_trackers s key = Some a \<and> shard_of L p key = i"
    by blast
  have "inj_on (c_trackers s) (dom (c_trackers s))" using ok by (simp add: heap_ok_def)
  from distinct_addresses [OF this es] show thesis using that es by blast
qed

lemma stale_in_shard:
  assumes es: "\<forall>key a. (key, a) \<in> set es \<longleftrightarrow> c_trackers s key = Some a \<and> shard_of L p key = i"
    and ok: "heap_ok s"
  shows "key \<in> set (stale_entries (c_heap s) es) \<longleftrightarrow>
    shard_of L p key = i \<and> (\<exists>tr. view s key = Some tr \<and> goes_stale tr)"
proof -
  have "key \<in> set (stale_entries (c_heap s) es) \<longleftrightarrow> (\<exists>a. (key, a) \<in> set es \<and> goes_stale (the (c_heap s a)))"
    by (force simp: stale_entries_def)
  also have "\<dots> \<longleftrightarrow> (\<exists>a. c_trackers s key = Some a \<and> shard_of L p key = i \<and> goes_stale (the (c_heap s a)))"
    using es by blast
  also have "\<dots> \<longleftrightarrow> shard_of L p key = i \<and> (\<exists>tr. view s key = Some tr \<and> goes_stale tr)"
  proof (cases "c_trackers s key")
    case (Some a)
    with ok obtain tr where "c_heap s a = Some tr" unfolding heap_ok_def by blast
    with Some show ?thesis by (auto simp: view_def)
  qed (simp add: view_def)
  finally show ?thesis .
qed

text \<open>The state after the rotation of a shard whose entries are \<open>es\<close>.\<close>

definition shard_end ::
  "('v, 'x, 'sk) lib \<Rightarrow> nat \<Rightarrow> (trackerKey \<times> nat) list \<Rightarrow> 'sk conc \<Rightarrow> 'sk conc" where
  "shard_end L i es s =
     s\<lparr>c_heap := rotate_heap L (snd ` set es) (c_heap s),
       c_trackers := without (stale_entries (c_heap s) es) (c_trackers s),
       c_count := c_count s - of_nat (length (stale_entries (c_heap s) es)),
       c_rot := RotShard (Suc i)\<rparr>"

lemma run_to_shard_end:
  assumes ok: "heap_ok s" and rot: "c_rot s = RotShard i" "i < unat numShards"
    and free: "c_locks s = (\<lambda>_. None)"
    and es: "distinct (map fst es)" "distinct (map snd es)"
      "\<forall>key a. (key, a) \<in> set es \<longleftrightarrow> c_trackers s key = Some a \<and> shard_of L p key = i"
  shows "rotator_run L p s (shard_end L i es s)"
proof -
  let ?stale = "stale_entries (c_heap s) es"
  let ?s1 = "s\<lparr>c_rot := RotEntries i es []\<rparr>"
  let ?s2 = "s\<lparr>c_heap := rotate_heap L (snd ` set es) (c_heap s), c_rot := RotEntries i [] ?stale\<rparr>"
  have step1: "rotator_step L p s ?s1"
    by (rule rotator_step.rot_snapshot [OF rot _ es(1) es(3)]) (simp add: free)
  have "\<forall>(key, a) \<in> set es. c_heap ?s1 a \<noteq> None"
    using es(3) ok unfolding heap_ok_def by fastforce
  from loop_rotator_run [OF entries_run [OF _ es(2) this, of i "[]" L p]]
  have run2: "rotator_run L p s ?s2" by (intro rotator_first [OF step1]) simp
  have "rotator_run L p ?s2 (shard_end L i es s)"
  proof (cases "?stale = []")
    case True
    have "rotator_step L p ?s2 (?s2\<lparr>c_rot := RotShard (Suc i)\<rparr>)"
      by (rule rotator_step.rot_no_stale) (simp add: True)
    moreover have "?s2\<lparr>c_rot := RotShard (Suc i)\<rparr> = shard_end L i es s"
      by (simp add: shard_end_def True without_def)
    ultimately show ?thesis using rotator_first [OF _ rotator_refl] by metis
  next
    case False
    let ?s3 = "(set_lock i (Some RotatorOwner) ?s2)\<lparr>c_rot := RotEvict i ?stale\<rparr>"
    let ?s4 = "?s3\<lparr>c_trackers := without ?stale (c_trackers ?s3),
      c_count := c_count ?s3 - of_nat (length ?stale), c_rot := RotEvict i []\<rparr>"
    have step3: "rotator_step L p ?s2 ?s3"
      by (rule rotator_step.rot_lock) (use False free in auto)
    have run4: "rotator_run L p ?s3 ?s4" by (rule loop_rotator_run, rule evict_run) simp
    have step5: "rotator_step L p ?s4 ((set_lock i None ?s4)\<lparr>c_rot := RotShard (Suc i)\<rparr>)"
      by (rule rotator_step.rot_unlock) simp
    have "(set_lock i None ?s4)\<lparr>c_rot := RotShard (Suc i)\<rparr> = shard_end L i es s"
      using free by (simp add: set_lock_def shard_end_def fun_upd_idem)
    then have "rotator_run L p ?s4 (shard_end L i es s)"
      using rotator_first [OF step5 rotator_refl] by (simp only:)
    then show ?thesis by (rule rotator_first [OF step3 rotator_trans [OF run4]])
  qed
  then show ?thesis by (rule rotator_trans [OF run2])
qed

lemma view_shard_end:
  assumes ok: "heap_ok s"
    and es: "\<forall>key a. (key, a) \<in> set es \<longleftrightarrow> c_trackers s key = Some a \<and> shard_of L p key = i"
  shows "view (shard_end L i es s) = shard_fate L p {i} (view s)"
proof (rule ext)
  fix key
  note stale = stale_in_shard [OF es ok, of key]
  show "view (shard_end L i es s) key = shard_fate L p {i} (view s) key"
  proof (cases "c_trackers s key")
    case None
    then show ?thesis by (simp add: view_def shard_end_def without_def shard_fate_def)
  next
    case (Some a)
    with ok obtain tr where tr: "c_heap s a = Some tr" unfolding heap_ok_def by blast
    have mem: "a \<in> snd ` set es \<longleftrightarrow> shard_of L p key = i"
    proof
      assume "a \<in> snd ` set es"
      then obtain key' where key': "(key', a) \<in> set es" by (metis imageE prod.collapse)
      then have "c_trackers s key' = Some a" using es by blast
      with Some have "key' = key"
        using ok by (auto simp: heap_ok_def dest: inj_onD [of _ _ key' key])
      with key' es show "shard_of L p key = i" by blast
    next
      assume "shard_of L p key = i"
      with Some es have "(key, a) \<in> set es" by blast
      then show "a \<in> snd ` set es" by force
    qed
    have "view s key = Some tr" using Some tr by (simp add: view_def)
    with stale have "key \<in> set (stale_entries (c_heap s) es) \<longleftrightarrow> shard_of L p key = i \<and> goes_stale tr"
      by simp
    with mem Some tr show ?thesis
      by (auto simp: view_def shard_end_def without_def shard_fate_def rotate_heap_def fate_def)
  qed
qed

lemma stale_distinct: "distinct (map fst es) \<Longrightarrow> distinct (stale_entries hp es)"
  unfolding stale_entries_def by (rule distinct_map_filter)

lemma shard_end_keeps:
  assumes ok: "heap_ok s" "finite (dom (c_trackers s))"
    and es: "distinct (map fst es)"
      "\<forall>key a. (key, a) \<in> set es \<longleftrightarrow> c_trackers s key = Some a \<and> shard_of L p key = i"
  shows "rotation_keeps s (shard_end L i es s)"
proof -
  let ?stale = "stale_entries (c_heap s) es"
  have dom: "dom (without ?stale (c_trackers s)) = dom (c_trackers s) - set ?stale"
    by (auto simp: without_def dom_def)
  have sub: "set ?stale \<subseteq> dom (c_trackers s)"
    using es(2) by (auto simp: stale_entries_def)
  have len: "card (set ?stale) = length ?stale"
    by (rule distinct_card [OF stale_distinct [OF es(1)]])
  have card: "card (set ?stale) = length ?stale" "length ?stale \<le> card (dom (c_trackers s))"
    using len card_mono [OF ok(2) sub] by linarith+
  then have "entries_of (shard_end L i es s) + length ?stale = entries_of s"
    using card_Diff_subset [OF _ sub] by (simp add: entries_of_def shard_end_def dom)
  then have count: "of_nat (entries_of s) = (of_nat (entries_of (shard_end L i es s)) + of_nat (length ?stale) :: i64)"
    by (metis of_nat_add)
  have "inj_on (without ?stale (c_trackers s)) (dom (c_trackers s) - set ?stale)"
    using ok(1) by (auto simp: heap_ok_def inj_on_def without_def)
  moreover have "\<exists>a. rotate_heap L (snd ` set es) (c_heap s) a = None"
    using ok(1) unfolding heap_ok_def rotate_heap_def by (metis option.map_disc_iff)
  moreover have "rotate_heap L (snd ` set es) (c_heap s) a \<noteq> None"
    if "without ?stale (c_trackers s) key = Some a" for key a
    using that ok(1) unfolding heap_ok_def
    by (metis (no_types, lifting) option.distinct(1) option.map_disc_iff rotate_heap_def without_def)
  ultimately have "heap_ok (shard_end L i es s)"
    unfolding heap_ok_def shard_end_def by (simp add: dom)
  then show ?thesis
    using ok(2) by (simp add: rotation_keeps_def count) (simp add: shard_end_def dom)
qed

lemma shard_run:
  assumes ok: "heap_ok s" "finite (dom (c_trackers s))"
    and rot: "c_rot s = RotShard i" "i < unat numShards" and free: "c_locks s = (\<lambda>_. None)"
  shows "\<exists>s'. rotator_run L p s s' \<and> c_rot s' = RotShard (Suc i) \<and> rotation_keeps s s' \<and>
    view s' = shard_fate L p {i} (view s)"
proof -
  obtain es where es: "distinct (map fst es)" "distinct (map snd es)"
    "\<forall>key a. (key, a) \<in> set es \<longleftrightarrow> c_trackers s key = Some a \<and> shard_of L p key = i"
    using shard_entries [OF ok] by blast
  have "c_rot (shard_end L i es s) = RotShard (Suc i)" by (simp add: shard_end_def)
  then show ?thesis
    using run_to_shard_end [OF ok(1) rot free es] shard_end_keeps [OF ok es(1,3)]
      view_shard_end [OF ok(1) es(3)] by blast
qed

lemma shard_fate_step:
  "shard_fate L p {n} (shard_fate L p {..<n} m) = shard_fate L p {..<Suc n} m"
  by (auto simp: shard_fate_def less_Suc_eq fun_eq_iff)

lemma shards_run:
  assumes "heap_ok s" "finite (dom (c_trackers s))" "c_rot s = RotShard 0" "c_locks s = (\<lambda>_. None)"
    and "n \<le> unat numShards"
  shows "\<exists>s'. rotator_run L p s s' \<and> c_rot s' = RotShard n \<and> rotation_keeps s s' \<and>
    view s' = shard_fate L p {..<n} (view s)"
  using assms(5)
proof (induction n)
  case 0
  have "rotation_keeps s s" using assms(1,2) by (simp add: rotation_keeps_def)
  then show ?case
    using assms(3) by (intro exI [of _ s]) (simp add: rotator_refl shard_fate_def)
next
  case (Suc n)
  then obtain s1 where s1: "rotator_run L p s s1" "c_rot s1 = RotShard n" "rotation_keeps s s1"
      "view s1 = shard_fate L p {..<n} (view s)"
    by auto
  have ok: "heap_ok s1" "finite (dom (c_trackers s1))" "c_locks s1 = (\<lambda>_. None)"
    using s1(3) assms(4) by (simp_all add: rotation_keeps_def)
  obtain s2 where "rotator_run L p s1 s2" "c_rot s2 = RotShard (Suc n)" "rotation_keeps s1 s2"
      "view s2 = shard_fate L p {n} (view s1)"
    using shard_run [OF ok(1,2) s1(2) _ ok(3), of L p] Suc.prems by auto
  then show ?case
    using s1 rotator_trans [OF s1(1)] rotation_keeps_trans [OF s1(3)]
    by (intro exI [of _ s2]) (simp add: shard_fate_step)
qed

lemma rotation_run:
  assumes ok: "heap_ok s" "finite (dom (c_trackers s))"
    and rot: "c_rot s = RotIdle" and free: "c_locks s = (\<lambda>_. None)"
  shows "\<exists>s'. rotator_run L p s s' \<and> c_rot s' = RotIdle \<and> rotation_keeps s s' \<and>
    view s' = (\<lambda>key. Option.bind (view s key) (fate L))"
proof -
  let ?s0 = "s\<lparr>c_rot := RotShard 0\<rparr>"
  have start: "rotator_step L p s ?s0" by (rule rotator_step.rot_begin [OF rot])
  have ok0: "heap_ok ?s0" using ok(1) by (simp add: heap_ok_def)
  have v0: "view ?s0 = view s" by (simp add: view_def fun_eq_iff)
  obtain s1 where s1: "rotator_run L p ?s0 s1" "c_rot s1 = RotShard (unat numShards)" "rotation_keeps ?s0 s1"
      "view s1 = shard_fate L p {..<unat numShards} (view s)"
    using shards_run [of ?s0 "unat numShards" L p] ok(2) ok0 free by (auto simp: v0)
  let ?s2 = "s1\<lparr>c_rot := RotIdle\<rparr>"
  have "rotator_step L p s1 ?s2" by (rule rotator_step.rot_end [OF s1(2)])
  then have "rotator_run L p s ?s2"
    using s1(1) start rotator_refl by (metis rotator_first rotator_trans)
  moreover have "rotation_keeps s ?s2"
    using s1(3) by (simp add: rotation_keeps_def heap_ok_def entries_of_def)
  moreover have "shard_of L p key < unat numShards" for key
    unfolding shard_of_def by (rule getShard_in_bounds)
  then have "view ?s2 = (\<lambda>key. Option.bind (view s key) (fate L))"
    using s1(4) by (simp add: view_def shard_fate_def fun_eq_iff)
  ultimately show ?thesis by (intro exI [of _ ?s2]) simp
qed

section \<open>Properties\<close>

text \<open>
  A rotation without interference refines the sequential one: from any state whose
  trackers are those of a processor, its steps end in a state whose trackers are those of
  the rotated processor, with the counter lowered by the number of evicted trackers and
  every lock free again.
\<close>

lemma undisturbed_rotation_rotates:
  assumes ok: "heap_ok s" "finite (dom (c_trackers s))" "shards_ok p" "range_ok r"
    and idle: "c_rot s = RotIdle" and free: "c_locks s = (\<lambda>_. None)"
    and same: "view s = store_get L p"
  shows "\<exists>s'. (rotator_step L p)\<^sup>*\<^sup>* s s' \<and> c_rot s' = RotIdle \<and> c_locks s' = (\<lambda>_. None) \<and>
    view s' = store_get L (processor_rotate L r p) \<and>
    c_count s' - of_nat (card (dom (c_trackers s'))) = c_count s - of_nat (card (dom (c_trackers s)))"
proof -
  have "store_get L (processor_rotate L r p) = (\<lambda>key. Option.bind (store_get L p key) (fate L))"
    by (rule ext) (rule rotate_store [OF ok(3,4)])
  then show ?thesis
    using rotation_run [OF ok(1,2) idle free, of L p] free same
    by (auto simp: rotation_keeps_def rotator_run_def entries_of_def)
qed

section \<open>A lost value\<close>

text \<open>
  A processor whose seed routes the metric \<open>m\<close> to the first shard, and a pair that one value
  made live.
\<close>

definition lossy :: "u64 list processor" where
  "lossy = make_processor ref_lib demo_config 146"

definition lost_key :: trackerKey where
  "lost_key = TrackerKey ''m'' ''k''"

definition used_tracker :: "u64 list tracker" where
  "used_tracker = snd (tracker_insert ref_lib (Sum64String ref_lib ''a'') (newTracker ref_lib))"

lemma lost_shard: "shard_of ref_lib lossy lost_key = 0"
  by code_simp

lemma used_tracker_fates:
  "fate ref_lib used_tracker = Some (rotated ref_lib used_tracker)"
  "fate ref_lib (rotated ref_lib used_tracker) = Some (rotated ref_lib (rotated ref_lib used_tracker))"
  "goes_stale (rotated ref_lib (rotated ref_lib used_tracker))"
  by code_simp+

definition used_state :: "u64 list conc" where
  "used_state =
     (goto 0 (Finished False) (added_state ref_lib lossy 0 lost_key (Sum64String ref_lib ''a'') 0
        (created_state ref_lib lossy 0 lost_key (Sum64String ref_lib ''a'') 0
          (goto 0 (Admitted lost_key (Sum64String ref_lib ''a''))
            (locked_state ref_lib lossy 0 lost_key (Sum64String ref_lib ''a'') initial_conc)))))
       \<lparr>c_heap := [0 \<mapsto> used_tracker]\<rparr>"

lemma used_state_fields:
  "c_trackers used_state = [lost_key \<mapsto> 0]" "c_heap used_state = [0 \<mapsto> used_tracker]"
  "c_locks used_state = (\<lambda>_. None)" "c_rot used_state = RotIdle" "c_pc used_state 2 = Idle"
  by (simp_all add: used_state_def added_state_def created_state_def locked_state_def initial_conc_def fun_eq_iff)

lemma used_state_reachable: "conc_reachable ref_lib lossy used_state"
proof -
  let ?h = "Sum64String ref_lib ''a''"
  let ?s1 = "locked_state ref_lib lossy 0 lost_key ?h initial_conc"
  let ?s2 = "goto 0 (Admitted lost_key ?h) ?s1"
  let ?s3 = "created_state ref_lib lossy 0 lost_key ?h 0 ?s2"
  let ?s4 = "added_state ref_lib lossy 0 lost_key ?h 0 ?s3"
  have room: "\<not> count_exhausted (cfg lossy) 0" by (simp add: lossy_def count_exhausted_def)
  have run1: "thread_run ref_lib lossy 0 initial_conc ?s1"
    by (rule run_to_lock) (simp_all add: initial_conc_def lost_key_def)
  have run2: "thread_run ref_lib lossy 0 initial_conc ?s2"
    by (rule run_step [OF run1 thread_step.check_room])
       (simp_all add: locked_state_def initial_conc_def room)
  have run3: "thread_run ref_lib lossy 0 initial_conc ?s3"
    by (rule run_step [OF run2 step_create]) (simp_all add: locked_state_def initial_conc_def)
  have run4: "thread_run ref_lib lossy 0 initial_conc ?s4"
    by (rule run_step [OF run3 step_added]) (simp add: created_state_def)
  have ins: "tracker_insert ref_lib ?h (newTracker ref_lib) = ((1, 0), used_tracker)"
    "exceeds 1 0 (getLimit (cfg lossy) (key_metricName lost_key)) = False"
    by code_simp+
  have at: "c_pc ?s4 0 = Holding lost_key ?h 0" "c_heap ?s4 0 = Some (newTracker ref_lib)"
    "c_heap ?s4 = [0 \<mapsto> newTracker ref_lib]"
    by (simp_all add: added_state_def created_state_def locked_state_def initial_conc_def)
  have "thread_run ref_lib lossy 0 initial_conc
      ((goto 0 (Finished (exceeds 1 0 (getLimit (cfg lossy) (key_metricName lost_key)))) ?s4)
        \<lparr>c_heap := (c_heap ?s4)(0 \<mapsto> used_tracker)\<rparr>)"
    by (rule run_step [OF run4 thread_step.insert [OF at(1,2) ins(1)]])
  then have "thread_run ref_lib lossy 0 initial_conc used_state"
    unfolding ins(2) at(3) used_state_def by simp
  then show ?thesis by (rule conc_run [OF conc_reachable.conc_initial])
qed

text \<open>Two rotations later the tracker has been idle for one epoch.\<close>

lemma idle_state:
  obtains s a where "conc_reachable ref_lib lossy s" "c_trackers s = [lost_key \<mapsto> a]"
    "c_heap s a = Some (rotated ref_lib (rotated ref_lib used_tracker))"
    "c_rot s = RotIdle" "c_locks s = (\<lambda>_. None)" "c_pc s 2 = Idle"
proof -
  have v0: "view used_state = [lost_key \<mapsto> used_tracker]"
    by (simp add: view_def used_state_fields fun_eq_iff)
  have ok0: "heap_ok used_state"
    by (auto simp: heap_ok_def used_state_fields inj_on_def dest: spec [of _ 1])
  obtain s1 where s1: "rotator_run ref_lib lossy used_state s1" "c_rot s1 = RotIdle"
      "rotation_keeps used_state s1" "view s1 = (\<lambda>key. Option.bind (view used_state key) (fate ref_lib))"
    using rotation_run [OF ok0 _ used_state_fields(4,3), of ref_lib lossy] by (auto simp: used_state_fields)
  have ok1: "heap_ok s1" "finite (dom (c_trackers s1))" "c_locks s1 = (\<lambda>_. None)" "c_pc s1 = c_pc used_state"
    using s1(3) by (simp_all add: rotation_keeps_def used_state_fields)
  obtain s2 where s2: "rotator_run ref_lib lossy s1 s2" "c_rot s2 = RotIdle"
      "rotation_keeps s1 s2" "view s2 = (\<lambda>key. Option.bind (view s1 key) (fate ref_lib))"
    using rotation_run [OF ok1(1,2) s1(2) ok1(3), of ref_lib lossy] by blast
  have ok2: "heap_ok s2" "c_locks s2 = (\<lambda>_. None)" "c_pc s2 2 = Idle"
    using s2(3) ok1 by (simp_all add: rotation_keeps_def used_state_fields)
  have v2: "view s2 = [lost_key \<mapsto> rotated ref_lib (rotated ref_lib used_tracker)]"
    by (simp add: s2(4) s1(4) v0 used_tracker_fates fun_eq_iff)
  then obtain a where a: "c_trackers s2 lost_key = Some a"
      "c_heap s2 a = Some (rotated ref_lib (rotated ref_lib used_tracker))"
    by (auto simp: view_def fun_eq_iff bind_eq_Some_conv split: if_splits dest!: spec [of _ lost_key])
  have "c_trackers s2 key = None" if "key \<noteq> lost_key" for key
  proof (rule ccontr)
    assume "c_trackers s2 key \<noteq> None"
    then obtain b where b: "c_trackers s2 key = Some b" by blast
    with ok2(1) obtain tr where "c_heap s2 b = Some tr" unfolding heap_ok_def by blast
    with b have "view s2 key = Some tr" by (simp add: view_def)
    with v2 that show False by simp
  qed
  with a(1) have "c_trackers s2 = [lost_key \<mapsto> a]" by (auto simp: fun_eq_iff)
  moreover have "conc_reachable ref_lib lossy s2"
    using conc_rotator_run [OF conc_rotator_run [OF used_state_reachable s1(1)] s2(1)] .
  ultimately show thesis using that a(2) s2(2) ok2(2,3) by blast
qed

text \<open>The third rotation, up to the deletion, with a lookup of another goroutine in between.\<close>

lemma evicted_while_held:
  assumes reach: "conc_reachable L p s" and tr: "c_trackers s = [key \<mapsto> a]" "c_heap s a = Some t"
    and stale: "goes_stale t" and key: "key = TrackerKey m k" "shard_of L p key = 0"
    and rot: "c_rot s = RotIdle" and free: "c_locks s = (\<lambda>_. None)" and idle: "c_pc s u = Idle"
  shows "\<exists>s'. conc_reachable L p s' \<and> c_trackers s' = Map.empty \<and> c_heap s' a = Some (rotated L t) \<and>
    c_pc s' u = Holding key (Sum64String L v) a"
proof -
  let ?s1 = "s\<lparr>c_rot := RotShard 0\<rparr>"
  let ?s2 = "?s1\<lparr>c_rot := RotEntries 0 [(key, a)] []\<rparr>"
  let ?s3 = "?s2\<lparr>c_heap := rotate_heap L (snd ` set [(key, a)]) (c_heap ?s2),
    c_rot := RotEntries 0 [] ([] @ stale_entries (c_heap ?s2) [(key, a)])\<rparr>"
  let ?s4 = "goto u (Holding key (Sum64String L v) a) ?s3"
  let ?s5 = "(set_lock 0 (Some RotatorOwner) ?s4)\<lparr>c_rot := RotEvict 0 [key]\<rparr>"
  let ?s6 = "?s5\<lparr>c_trackers := (c_trackers ?s5)(key := None), c_rot := RotDecrement 0 []\<rparr>"
  have stale1: "stale_entries (c_heap s) [(key, a)] = [key]"
    using stale tr(2) by (simp add: stale_entries_def)
  have "rotator_step L p s ?s1" by (rule rotator_step.rot_begin [OF rot])
  moreover have "rotator_step L p ?s1 ?s2"
    by (rule rotator_step.rot_snapshot) (use key tr(1) free in \<open>auto simp: numShards_def\<close>)
  moreover have "rotator_run L p ?s2 ?s3"
    by (rule loop_rotator_run, rule entries_run) (use tr(2) in simp_all)
  ultimately have "rotator_run L p s ?s3" by (blast intro: rotator_first)
  then have r3: "conc_reachable L p ?s3" by (rule conc_rotator_run [OF reach])
  have r4: "conc_reachable L p ?s4"
    by (rule conc_reachable.conc_thread [OF r3], rule thread_step.lookup_hit [OF _ key(1)])
       (use idle free tr(1) in simp_all)
  have r5: "conc_reachable L p ?s5"
    by (rule conc_reachable.conc_rotator [OF r4], rule rotator_step.rot_lock)
       (use free stale1 in simp_all)
  have r6: "conc_reachable L p ?s6"
    by (rule conc_reachable.conc_rotator [OF r5], rule rotator_step.rot_delete) simp
  have "c_trackers ?s6 = Map.empty" "c_heap ?s6 a = Some (rotated L t)"
    "c_pc ?s6 u = Holding key (Sum64String L v) a"
    using tr by (simp_all add: rotate_heap_def)
  with r6 show ?thesis by blast
qed

text \<open>
  C23. A value can be lost: a state is reachable in which a goroutine holds a tracker whose
  entry the rotation has just deleted as stale. The goroutine's insert then succeeds on
  the orphaned tracker, and no tracker that is still in the maps has recorded the value.
\<close>

theorem value_lost_in_eviction:
  "\<exists>s s' a t. conc_reachable ref_lib lossy s \<and>
     c_pc s 2 = Holding lost_key (Sum64String ref_lib ''b'') a \<and> c_heap s a = Some t \<and>
     thread_step ref_lib lossy 2 s s' \<and> c_pc s' 2 = Finished False \<and>
     c_heap s' a = Some (snd (tracker_insert ref_lib (Sum64String ref_lib ''b'') t)) \<and>
     view s' = view s \<and> view s' lost_key = None"
proof -
  let ?t = "rotated ref_lib (rotated ref_lib (rotated ref_lib used_tracker))"
  let ?h = "Sum64String ref_lib ''b''"
  obtain s0 a where s0: "conc_reachable ref_lib lossy s0" "c_trackers s0 = [lost_key \<mapsto> a]"
    "c_heap s0 a = Some (rotated ref_lib (rotated ref_lib used_tracker))"
    "c_rot s0 = RotIdle" "c_locks s0 = (\<lambda>_. None)" "c_pc s0 2 = Idle"
    by (rule idle_state)
  obtain s where s: "conc_reachable ref_lib lossy s" "c_trackers s = Map.empty" "c_heap s a = Some ?t"
      "c_pc s 2 = Holding lost_key ?h a"
    using evicted_while_held [OF s0(1-3) used_tracker_fates(3) lost_key_def lost_shard s0(4-6)] by blast
  have ins: "tracker_insert ref_lib ?h ?t = ((1, 0), snd (tracker_insert ref_lib ?h ?t))"
    "exceeds 1 0 (getLimit (cfg lossy) (key_metricName lost_key)) = False"
    by code_simp+
  let ?s' = "(goto 2 (Finished (exceeds 1 0 (getLimit (cfg lossy) (key_metricName lost_key)))) s)
    \<lparr>c_heap := (c_heap s)(a \<mapsto> snd (tracker_insert ref_lib ?h ?t))\<rparr>"
  have "thread_step ref_lib lossy 2 s ?s'" by (rule thread_step.insert [OF s(4,3) ins(1)])
  with s show ?thesis
    by (intro exI [of _ s] exI [of _ ?s'] exI [of _ a] exI [of _ ?t]) (simp add: ins(2) view_def fun_eq_iff)
qed

end
