(* ===== verification/Concurrent_Enforcement.thy ===== *)
theory Concurrent_Enforcement
  imports Concurrent_Rotation
begin

text \<open>
  The rest of the concurrent program: the attribute callback after the decision (its counters,
  the capped drop log, the rejection warning) and the rotation before and after the trackers
  (the reading of the deltas, the reset of the flag, the two counter swaps, the summary and
  the publication of the top offenders), each atomic operation a step of its own. The
  decision and the rotation of the trackers are those of \<open>Concurrency\<close>.
\<close>

section \<open>The state\<close>

text \<open>Where a goroutine is in the callback after or around \<open>shouldDrop\<close>.\<close>

datatype attr_pc =
    Deciding
  | Rejected
  | Warning
  | Flagged trackerKey
  | Stripping trackerKey
  | Counted trackerKey
  | Logging trackerKey
  | Returning

text \<open>
  Where the rotation is: in the shards it follows \<open>c_rot\<close>; around them it reads the deltas of a
  snapshot, logs an eviction, or is in its epilogue.
\<close>

datatype epoch_pc =
    Sleeping
  | InShards
  | Collecting "(trackerKey \<times> nat) list"
  | Evicting nat
  | Evicted nat
  | FlagCleared
  | DropsSwapped i64
  | BothSwapped i64 i64
  | Summarized
  | Published
  | Leaving

record 'sk hot =
  h_dec :: "'sk conc"
  h_attr :: "nat \<Rightarrow> attr_pc"
  h_epoch :: epoch_pc
  h_topBuf :: "offenderEntry list"
  h_labelsStripped :: i64
  h_dropsThisEpoch :: i64
  h_dropLogCount :: i64
  h_rejectionWarned :: bool
  h_topOffenders :: "offenderEntry list"
  h_logs :: "log_event list"

definition initial_hot :: "'sk hot" where
  "initial_hot = \<lparr>h_dec = initial_conc, h_attr = \<lambda>_. Deciding, h_epoch = Sleeping, h_topBuf = [],
     h_labelsStripped = 0, h_dropsThisEpoch = 0, h_dropLogCount = 0, h_rejectionWarned = False,
     h_topOffenders = [], h_logs = []\<rparr>"

definition at :: "nat \<Rightarrow> attr_pc \<Rightarrow> 'sk hot \<Rightarrow> 'sk hot" where
  "at t q s = s\<lparr>h_attr := (h_attr s)(t := q)\<rparr>"

definition say :: "log_event \<Rightarrow> 'sk hot \<Rightarrow> 'sk hot" where
  "say e s = s\<lparr>h_logs := h_logs s @ [e]\<rparr>"

section \<open>The callback\<close>

text \<open>
  A verdict \<open>false\<close> from the budget check comes with the rejection; its warning is logged by
  whoever wins the \<open>CompareAndSwap\<close>. The mode is the caller's.
\<close>

inductive attr_step ::
  "('v, 'x, 'sk) lib \<Rightarrow> 'sk processor \<Rightarrow> nat \<Rightarrow> 'sk hot \<Rightarrow> 'sk hot \<Rightarrow> bool"
  for L p t where
  decide: "h_attr s t = Deciding \<Longrightarrow> thread_step L p t (h_dec s) d \<Longrightarrow> \<forall>b. c_pc d t \<noteq> Finished b \<Longrightarrow>
     attr_step L p t s (s\<lparr>h_dec := d\<rparr>)"
| rejected: "h_attr s t = Deciding \<Longrightarrow> c_pc (h_dec s) t = Checking key h \<Longrightarrow>
     thread_step L p t (h_dec s) d \<Longrightarrow> c_pc d t = Finished b \<Longrightarrow>
     attr_step L p t s (at t Rejected (s\<lparr>h_dec := d\<rparr>))"
| judged: "h_attr s t = Deciding \<Longrightarrow> c_pc (h_dec s) t = Holding key h a \<Longrightarrow>
     thread_step L p t (h_dec s) d \<Longrightarrow> c_pc d t = Finished b \<Longrightarrow>
     attr_step L p t s (at t (if b then Flagged key else Returning) (s\<lparr>h_dec := d\<rparr>))"
| warn_first: "h_attr s t = Rejected \<Longrightarrow> \<not> h_rejectionWarned s \<Longrightarrow>
     attr_step L p t s (at t Warning (s\<lparr>h_rejectionWarned := True\<rparr>))"
| warn_again: "h_attr s t = Rejected \<Longrightarrow> h_rejectionWarned s \<Longrightarrow>
     attr_step L p t s (at t Returning s)"
| warn: "h_attr s t = Warning \<Longrightarrow>
     attr_step L p t s (at t Returning (say (LogTrackerLimit (MaxTrackerCount (cfg p))) s))"
| count_label: "h_attr s t = Flagged key \<Longrightarrow>
     attr_step L p t s
       (at t (if mode = EnforcementStripAndReaggregate then Stripping key else Returning)
          (s\<lparr>h_labelsStripped := h_labelsStripped s + 1\<rparr>))"
| count_drop: "h_attr s t = Stripping key \<Longrightarrow>
     attr_step L p t s (at t (Counted key) (s\<lparr>h_dropsThisEpoch := h_dropsThisEpoch s + 1\<rparr>))"
| uncapped: "h_attr s t = Counted key \<Longrightarrow> DropLogMaxPerEpoch (cfg p) = 0 \<Longrightarrow>
     attr_step L p t s (at t (Logging key) s)"
| capped: "h_attr s t = Counted key \<Longrightarrow> DropLogMaxPerEpoch (cfg p) \<noteq> 0 \<Longrightarrow>
     attr_step L p t s
       (at t (if sint (h_dropLogCount s + 1) \<le> sint (DropLogMaxPerEpoch (cfg p))
              then Logging key else Returning)
          (s\<lparr>h_dropLogCount := h_dropLogCount s + 1\<rparr>))"
| log_line: "h_attr s t = Logging key \<Longrightarrow>
     attr_step L p t s (at t Returning (say (LogDropping (key_metricName key) (key_attrKey key)) s))"
| leave: "h_attr s t = Returning \<Longrightarrow> thread_step L p t (h_dec s) d \<Longrightarrow>
     attr_step L p t s (at t Deciding (s\<lparr>h_dec := d\<rparr>))"

section \<open>The rotation\<close>

text \<open>
  The first rule of the epilogue is the one after the last shard. Publishing swaps the list
  under its own lock, which observers only hold to read it: one step.
\<close>

inductive epoch_step ::
  "('v, 'x, 'sk) lib \<Rightarrow> 'sk processor \<Rightarrow> 'sk hot \<Rightarrow> 'sk hot \<Rightarrow> bool"
  for L p where
  wake: "h_epoch s = Sleeping \<Longrightarrow> c_rot (h_dec s) = RotIdle \<Longrightarrow> rotator_step L p (h_dec s) d \<Longrightarrow>
     epoch_step L p s (say LogRotating (s\<lparr>h_dec := d, h_topBuf := [], h_epoch := InShards\<rparr>))"
| snapshot: "h_epoch s = InShards \<Longrightarrow> rotator_step L p (h_dec s) d \<Longrightarrow> c_rot (h_dec s) = RotShard i \<Longrightarrow>
     c_rot d = RotEntries i es [] \<Longrightarrow>
     epoch_step L p s (s\<lparr>h_dec := d,
       h_epoch := if sint (TopOffendersCount (cfg p)) \<le> 0 then InShards else Collecting es\<rparr>)"
| collect: "h_epoch s = Collecting ((key, a) # es) \<Longrightarrow> c_heap (h_dec s) a = Some tr \<Longrightarrow>
     epoch_step L p s (s\<lparr>h_topBuf := collect_entry (TopOffendersCount (cfg p)) (key, tr) (h_topBuf s),
       h_epoch := Collecting es\<rparr>)"
| collected: "h_epoch s = Collecting [] \<Longrightarrow> epoch_step L p s (s\<lparr>h_epoch := InShards\<rparr>)"
| rotate_one: "h_epoch s = InShards \<Longrightarrow> c_rot (h_dec s) = RotEntries i (e # es) stale \<Longrightarrow>
     rotator_step L p (h_dec s) d \<Longrightarrow> epoch_step L p s (s\<lparr>h_dec := d\<rparr>)"
| none_stale: "h_epoch s = InShards \<Longrightarrow> c_rot (h_dec s) = RotEntries i [] [] \<Longrightarrow>
     rotator_step L p (h_dec s) d \<Longrightarrow> epoch_step L p s (s\<lparr>h_dec := d\<rparr>)"
| some_stale: "h_epoch s = InShards \<Longrightarrow> c_rot (h_dec s) = RotEntries i [] stale \<Longrightarrow> stale \<noteq> [] \<Longrightarrow>
     rotator_step L p (h_dec s) d \<Longrightarrow>
     epoch_step L p s (s\<lparr>h_dec := d, h_epoch := Evicting (length stale)\<rparr>)"
| evict: "h_epoch s = Evicting n \<Longrightarrow> rotator_step L p (h_dec s) d \<Longrightarrow> \<forall>i. c_rot d \<noteq> RotShard i \<Longrightarrow>
     epoch_step L p s (s\<lparr>h_dec := d\<rparr>)"
| evict_unlock: "h_epoch s = Evicting n \<Longrightarrow> rotator_step L p (h_dec s) d \<Longrightarrow> c_rot d = RotShard i \<Longrightarrow>
     epoch_step L p s (s\<lparr>h_dec := d, h_epoch := Evicted n\<rparr>)"
| evict_log: "h_epoch s = Evicted n \<Longrightarrow>
     epoch_step L p s (say (LogEvicted n) (s\<lparr>h_epoch := InShards\<rparr>))"
| clear_flag: "h_epoch s = InShards \<Longrightarrow> c_rot (h_dec s) = RotShard (unat numShards) \<Longrightarrow>
     epoch_step L p s (s\<lparr>h_rejectionWarned := False, h_epoch := FlagCleared\<rparr>)"
| swap_drops: "h_epoch s = FlagCleared \<Longrightarrow>
     epoch_step L p s (s\<lparr>h_dropsThisEpoch := 0, h_epoch := DropsSwapped (h_dropsThisEpoch s)\<rparr>)"
| swap_logged: "h_epoch s = DropsSwapped totalDrops \<Longrightarrow>
     epoch_step L p s (s\<lparr>h_dropLogCount := 0, h_epoch := BothSwapped totalDrops (h_dropLogCount s)\<rparr>)"
| summary_some: "h_epoch s = BothSwapped totalDrops logged \<Longrightarrow> 0 < sint (totalDrops - logged) \<Longrightarrow>
     epoch_step L p s (say (LogSuppressed (totalDrops - logged) totalDrops) (s\<lparr>h_epoch := Summarized\<rparr>))"
| summary_none: "h_epoch s = BothSwapped totalDrops logged \<Longrightarrow> \<not> 0 < sint (totalDrops - logged) \<Longrightarrow>
     epoch_step L p s (s\<lparr>h_epoch := Summarized\<rparr>)"
| publish_none: "h_epoch s = Summarized \<Longrightarrow> h_topBuf s = [] \<Longrightarrow>
     epoch_step L p s (s\<lparr>h_epoch := Leaving\<rparr>)"
| publish: "h_epoch s = Summarized \<Longrightarrow> h_topBuf s \<noteq> [] \<Longrightarrow>
     epoch_step L p s (s\<lparr>h_topBuf := sortOffenders (h_topBuf s),
       h_topOffenders := sortOffenders (h_topBuf s), h_epoch := Published\<rparr>)"
| log_top: "h_epoch s = Published \<Longrightarrow>
     epoch_step L p s
       (say (LogTopOffender (oe_metricName (h_topBuf s ! 0)) (oe_labelKey (h_topBuf s ! 0)) (oe_delta (h_topBuf s ! 0)))
          (s\<lparr>h_epoch := Leaving\<rparr>))"
| sleep: "h_epoch s = Leaving \<Longrightarrow> rotator_step L p (h_dec s) d \<Longrightarrow>
     epoch_step L p s (s\<lparr>h_dec := d, h_epoch := Sleeping\<rparr>)"

inductive hot_step ::
  "('v, 'x, 'sk) lib \<Rightarrow> 'sk processor \<Rightarrow> 'sk hot \<Rightarrow> 'sk hot \<Rightarrow> bool"
  for L p where
  goroutine: "attr_step L p t s s' \<Longrightarrow> hot_step L p s s'"
| rotation: "epoch_step L p s s' \<Longrightarrow> hot_step L p s s'"

inductive hot_reachable ::
  "('v, 'x, 'sk) lib \<Rightarrow> 'sk processor \<Rightarrow> 'sk hot \<Rightarrow> bool"
  for L p where
  hot_initial: "hot_reachable L p initial_hot"
| hot_next: "hot_reachable L p s \<Longrightarrow> hot_step L p s s' \<Longrightarrow> hot_reachable L p s'"

lemma at_simps [simp]:
  "h_dec (at t q s) = h_dec s" "h_attr (at t q s) = (h_attr s)(t := q)" "h_epoch (at t q s) = h_epoch s"
  "h_topBuf (at t q s) = h_topBuf s" "h_labelsStripped (at t q s) = h_labelsStripped s"
  "h_dropsThisEpoch (at t q s) = h_dropsThisEpoch s" "h_dropLogCount (at t q s) = h_dropLogCount s"
  "h_rejectionWarned (at t q s) = h_rejectionWarned s" "h_topOffenders (at t q s) = h_topOffenders s"
  "h_logs (at t q s) = h_logs s"
  by (simp_all add: at_def)

lemma say_simps [simp]:
  "h_dec (say e s) = h_dec s" "h_attr (say e s) = h_attr s" "h_epoch (say e s) = h_epoch s"
  "h_topBuf (say e s) = h_topBuf s" "h_labelsStripped (say e s) = h_labelsStripped s"
  "h_dropsThisEpoch (say e s) = h_dropsThisEpoch s" "h_dropLogCount (say e s) = h_dropLogCount s"
  "h_rejectionWarned (say e s) = h_rejectionWarned s" "h_topOffenders (say e s) = h_topOffenders s"
  "h_logs (say e s) = h_logs s @ [e]"
  by (simp_all add: say_def)

section \<open>It refines the model of decision and rotation\<close>

lemma hot_step_projects:
  assumes "hot_step L p s s'"
  shows "h_dec s' = h_dec s \<or> (\<exists>t. thread_step L p t (h_dec s) (h_dec s')) \<or> rotator_step L p (h_dec s) (h_dec s')"
  using assms
proof cases
  case (goroutine t)
  then show ?thesis by cases auto
next
  case rotation
  then show ?thesis by cases auto
qed

lemma hot_reachable_projects: "hot_reachable L p s \<Longrightarrow> conc_reachable L p (h_dec s)"
proof (induction rule: hot_reachable.induct)
  case hot_initial
  show ?case by (simp add: initial_hot_def conc_reachable.conc_initial)
next
  case (hot_next s s')
  from hot_step_projects [OF hot_next(2)] hot_next(3) show ?case
    by (metis conc_reachable.conc_thread conc_reachable.conc_rotator)
qed

section \<open>Who is where\<close>

text \<open>A goroutine is past its decision exactly when the decision has a verdict.\<close>

definition finished :: "pc \<Rightarrow> bool" where
  "finished q \<longleftrightarrow> (\<exists>b. q = Finished b)"

definition past_decision :: "'sk hot \<Rightarrow> nat set" where
  "past_decision s = {t. h_attr s t \<noteq> Deciding}"

definition attr_inv :: "'sk hot \<Rightarrow> bool" where
  "attr_inv s \<longleftrightarrow> (\<forall>t. h_attr s t = Deciding \<longleftrightarrow> \<not> finished (c_pc (h_dec s) t)) \<and> finite (past_decision s)"

fun in_phase :: "epoch_pc \<Rightarrow> rotator_pc \<Rightarrow> bool" where
  "in_phase Sleeping q \<longleftrightarrow> q = RotIdle"
| "in_phase InShards q \<longleftrightarrow> (\<exists>i. q = RotShard i) \<or> (\<exists>i es stale. q = RotEntries i es stale)"
| "in_phase (Collecting es) q \<longleftrightarrow> (\<exists>i rd. q = RotEntries i (rd @ es) [])"
| "in_phase (Evicting n) q \<longleftrightarrow> (\<exists>i keys. q = RotEvict i keys \<or> q = RotDecrement i keys)"
| "in_phase (Evicted n) q \<longleftrightarrow> (\<exists>i. q = RotShard i)"
| "in_phase _ q \<longleftrightarrow> q = RotShard (unat numShards)"

definition epoch_inv :: "'sk hot \<Rightarrow> bool" where
  "epoch_inv s \<longleftrightarrow> in_phase (h_epoch s) (c_rot (h_dec s))"

lemma thread_step_frame:
  "thread_step L p t d d' \<Longrightarrow> c_rot d' = c_rot d \<and> (\<forall>u. u \<noteq> t \<longrightarrow> c_pc d' u = c_pc d u)"
  by (induction rule: thread_step.induct) simp_all

lemma rotator_step_pc: "rotator_step L p d d' \<Longrightarrow> c_pc d' = c_pc d"
  by (induction rule: rotator_step.induct) simp_all

lemma leave_idle: "thread_step L p t d d' \<Longrightarrow> c_pc d t = Finished b \<Longrightarrow> d' = goto t Idle d"
  by (erule thread_step.cases) simp_all

lemma attr_step_frame:
  assumes "attr_step L p t s s'"
  shows "c_rot (h_dec s') = c_rot (h_dec s)" "h_epoch s' = h_epoch s"
    "h_topBuf s' = h_topBuf s" "h_topOffenders s' = h_topOffenders s"
    "\<forall>u. u \<noteq> t \<longrightarrow> h_attr s' u = h_attr s u \<and> c_pc (h_dec s') u = c_pc (h_dec s) u"
  using assms by (cases; auto dest: thread_step_frame)+

lemma past_decision_upd:
  "h_attr s' = (h_attr s)(t := q) \<Longrightarrow> finite (past_decision s) \<Longrightarrow> finite (past_decision s')"
  by (rule finite_subset [of _ "insert t (past_decision s)"]) (auto simp: past_decision_def split: if_splits)

lemma attr_step_attr: "attr_step L p t s s' \<Longrightarrow> h_attr s' = (h_attr s)(t := h_attr s' t)"
  using attr_step_frame(5) [of L p t s s'] by (auto simp: fun_eq_iff)

lemma attr_step_finished:
  assumes "attr_step L p t s s'" and "h_attr s t = Deciding \<longleftrightarrow> \<not> finished (c_pc (h_dec s) t)"
  shows "h_attr s' t = Deciding \<longleftrightarrow> \<not> finished (c_pc (h_dec s') t)"
  using assms(1)
proof cases
  case (leave d)
  with assms(2) obtain b where "c_pc (h_dec s) t = Finished b" by (auto simp: finished_def)
  from leave_idle [OF leave(3) this] show ?thesis by (simp add: leave(1) finished_def)
qed (use assms(2) in \<open>auto simp: finished_def\<close>)

lemma attr_inv_same:
  "h_attr s' = h_attr s \<Longrightarrow> c_pc (h_dec s') = c_pc (h_dec s) \<Longrightarrow> attr_inv s' = attr_inv s"
  by (simp only: attr_inv_def past_decision_def)

lemma attr_inv_step:
  assumes step: "hot_step L p s s'" and inv: "attr_inv s"
  shows "attr_inv s'"
  using step
proof cases
  case (goroutine t)
  note frame = attr_step_frame(5) [OF goroutine]
  have "h_attr s' u = Deciding \<longleftrightarrow> \<not> finished (c_pc (h_dec s') u)" for u
    using frame inv attr_step_finished [OF goroutine] unfolding attr_inv_def by (cases "u = t") simp_all
  moreover have "finite (past_decision s')"
    using attr_step_attr [OF goroutine] inv past_decision_upd unfolding attr_inv_def by blast
  ultimately show ?thesis by (simp add: attr_inv_def)
next
  case rotation
  then have "h_attr s' = h_attr s" by cases simp_all
  moreover from rotation have "c_pc (h_dec s') = c_pc (h_dec s)"
    by cases (simp_all add: rotator_step_pc)
  ultimately show ?thesis using inv attr_inv_same by metis
qed

text \<open>The rotation's phase and the place of the rotator fit together.\<close>

lemma epoch_inv_step:
  assumes step: "hot_step L p s s'" and inv: "epoch_inv s"
  shows "epoch_inv s'"
  using step
proof cases
  case (goroutine t)
  from attr_step_frame [OF goroutine] inv show ?thesis by (simp add: epoch_inv_def)
next
  case rotation
  then show ?thesis
  proof cases
    case (wake d)
    from wake(4,3) have "c_rot d = RotShard 0" by cases auto
    with wake(1) show ?thesis by (simp add: epoch_inv_def)
  next
    case (rotate_one i e es stale d)
    from rotate_one(4,3) have "\<exists>es' stale'. c_rot d = RotEntries i es' stale'" by cases auto
    with rotate_one(1,2) show ?thesis by (auto simp: epoch_inv_def)
  next
    case (none_stale i d)
    from none_stale(4,3) have "\<exists>j. c_rot d = RotShard j" by cases auto
    with none_stale(1,2) show ?thesis by (auto simp: epoch_inv_def)
  next
    case (some_stale i stale d)
    from some_stale(5,3,4) have "c_rot d = RotEvict i stale" by cases auto
    with some_stale(1) show ?thesis by (auto simp: epoch_inv_def)
  next
    case (evict n d)
    from evict(2) inv have "\<exists>i keys. c_rot (h_dec s) = RotEvict i keys \<or> c_rot (h_dec s) = RotDecrement i keys"
      by (simp add: epoch_inv_def)
    with evict(3) have "\<exists>i keys. c_rot d = RotEvict i keys \<or> c_rot d = RotDecrement i keys \<or> c_rot d = RotShard i"
      by - (erule rotator_step.cases; auto)
    with evict(1,2,4) show ?thesis by (auto simp: epoch_inv_def)
  next
    case (sleep d)
    from sleep(2) inv have "c_rot (h_dec s) = RotShard (unat numShards)" by (simp add: epoch_inv_def)
    with sleep(3) have "c_rot d = RotIdle" by - (erule rotator_step.cases; auto)
    with sleep(1) show ?thesis by (simp add: epoch_inv_def)
  next
    case (snapshot d i es)
    then show ?thesis by (auto simp: epoch_inv_def)
  next
    case (collect key a es tr)
    then show ?thesis using inv by (auto simp: epoch_inv_def)
  qed (use inv in \<open>auto simp: epoch_inv_def\<close>)
qed

lemma initial_hot_inv: "attr_inv initial_hot" "epoch_inv initial_hot"
  by (simp_all add: initial_hot_def initial_conc_def attr_inv_def epoch_inv_def past_decision_def finished_def)

lemma hot_reachable_inv:
  assumes "hot_reachable L p s"
  shows "attr_inv s \<and> epoch_inv s"
  using assms
proof induction
  case hot_initial
  show ?case using initial_hot_inv by blast
next
  case (hot_next s s')
  then show ?case using attr_inv_step epoch_inv_step by blast
qed

section \<open>Counting lines and warnings\<close>

lemma card_upd:
  assumes "finite {t. P (f t)}"
  shows "card {u. P ((f(t := q)) u)} + of_bool (P (f t)) = card {u. P (f u)} + of_bool (P q)"
proof -
  let ?A = "{u. P (f u)}"
  have "{u. P ((f(t := q)) u)} = (if P q then insert t ?A else ?A - {t})" by auto
  moreover have "t \<in> ?A \<longleftrightarrow> P (f t)" by simp
  ultimately show ?thesis
    using assms card_insert_if [of ?A t] card_Suc_Diff1 [of ?A t] by (auto simp: insert_absorb)
qed

definition is_logging :: "attr_pc \<Rightarrow> bool" where
  "is_logging q \<longleftrightarrow> (\<exists>key. q = Logging key)"

text \<open>The drop lines that are written or about to be, and the warnings.\<close>

definition written_lines :: "log_event list \<Rightarrow> nat" where
  "written_lines evs = length (filter drop_line evs)"

lemma written_lines_snoc [simp]:
  "written_lines (evs @ [e]) = written_lines evs + of_bool (\<exists>m k. e = LogDropping m k)"
  by (simp add: written_lines_def drop_line_def split: log_event.split)

definition granted_lines :: "'sk hot \<Rightarrow> nat" where
  "granted_lines s = written_lines (h_logs s) + card {t. is_logging (h_attr s t)}"

definition limit_lines :: "log_event list \<Rightarrow> nat" where
  "limit_lines evs = length (filter (\<lambda>e. case e of LogTrackerLimit n \<Rightarrow> True | _ \<Rightarrow> False) evs)"

definition granted_warnings :: "'sk hot \<Rightarrow> nat" where
  "granted_warnings s = limit_lines (h_logs s) + card {t. h_attr s t = Warning}"

lemma limit_lines_snoc [simp]:
  "limit_lines (evs @ [e]) = limit_lines evs + of_bool (\<exists>n. e = LogTrackerLimit n)"
  by (simp add: limit_lines_def split: log_event.split)

lemma finite_at: "finite (past_decision s) \<Longrightarrow> \<not> P Deciding \<Longrightarrow> finite {t. P (h_attr s t)}"
  by (rule finite_subset [of _ "past_decision s"]) (auto simp: past_decision_def)

text \<open>What one step does to the lines, the counter behind them, the warnings and the flag.\<close>

lemma card_moved:
  fixes s s' :: "'sk hot"
  assumes "h_attr s' = (h_attr s)(t := q)" and "finite (past_decision s)"
  shows "card {u. is_logging (h_attr s' u)} + of_bool (is_logging (h_attr s t))
      = card {u. is_logging (h_attr s u)} + of_bool (is_logging q)"
    and "card {u. h_attr s' u = Warning} + of_bool (h_attr s t = Warning)
      = card {u. h_attr s u = Warning} + of_bool (q = Warning)"
proof -
  have f: "finite {u. is_logging (h_attr s u)}" "finite {u. h_attr s u = Warning}"
    using finite_at [OF assms(2), of is_logging] finite_at [OF assms(2), of "\<lambda>q. q = Warning"]
    by (simp_all add: is_logging_def)
  show "card {u. is_logging (h_attr s' u)} + of_bool (is_logging (h_attr s t))
      = card {u. is_logging (h_attr s u)} + of_bool (is_logging q)"
    unfolding assms(1) by (rule card_upd [where P = is_logging and f = "h_attr s", OF f(1)])
  show "card {u. h_attr s' u = Warning} + of_bool (h_attr s t = Warning)
      = card {u. h_attr s u = Warning} + of_bool (q = Warning)"
    unfolding assms(1) by (rule card_upd [where P = "\<lambda>q. q = Warning" and f = "h_attr s", OF f(2)])
qed

lemma attr_lines:
  assumes "attr_step L p t s s'" and fin: "finite (past_decision s)" and cap: "DropLogMaxPerEpoch (cfg p) \<noteq> 0"
  shows "h_dropLogCount s' = h_dropLogCount s \<and> granted_lines s' = granted_lines s \<or>
    h_dropLogCount s' = h_dropLogCount s + 1 \<and> granted_lines s' = granted_lines s +
      of_bool (sint (h_dropLogCount s + 1) \<le> sint (DropLogMaxPerEpoch (cfg p)))"
  using assms(1)
  by cases
     (use cap card_moved(1) [OF attr_step_attr [OF assms(1)] fin] in
       \<open>auto simp: granted_lines_def is_logging_def split: if_splits\<close>)

lemma attr_warnings:
  assumes "attr_step L p t s s'" and fin: "finite (past_decision s)"
  shows "granted_warnings s' + of_bool (h_rejectionWarned s) = granted_warnings s + of_bool (h_rejectionWarned s')"
  using assms(1)
  by cases
     (use card_moved(2) [OF attr_step_attr [OF assms(1)] fin] in
       \<open>auto simp: granted_warnings_def split: if_splits\<close>)

lemma epoch_frame:
  "epoch_step L p s s' \<Longrightarrow> h_attr s' = h_attr s \<and> h_labelsStripped s' = h_labelsStripped s \<and>
     written_lines (h_logs s') = written_lines (h_logs s) \<and> limit_lines (h_logs s') = limit_lines (h_logs s) \<and>
     (h_dropLogCount s' = h_dropLogCount s \<or> (\<exists>n. h_epoch s = DropsSwapped n)) \<and>
     (h_rejectionWarned s' = h_rejectionWarned s \<or> h_epoch s' = FlagCleared)"
  by (induction rule: epoch_step.induct) simp_all

lemma epoch_lines:
  "epoch_step L p s s' \<Longrightarrow> granted_lines s' = granted_lines s \<and> granted_warnings s' = granted_warnings s"
  using epoch_frame [of L p s s'] by (simp add: granted_lines_def granted_warnings_def)

section \<open>Between two resets\<close>

text \<open>
  The steps during which the rotation does not swap the counter of logged drops, and those
  during which it does not clear the flag.
\<close>

definition log_window :: "('v, 'x, 'sk) lib \<Rightarrow> 'sk processor \<Rightarrow> 'sk hot \<Rightarrow> 'sk hot \<Rightarrow> bool" where
  "log_window L p s s' \<longleftrightarrow> hot_step L p s s' \<and>
     \<not> (\<exists>n. h_epoch s = DropsSwapped n \<and> h_epoch s' \<noteq> h_epoch s)"

definition flag_window :: "('v, 'x, 'sk) lib \<Rightarrow> 'sk processor \<Rightarrow> 'sk hot \<Rightarrow> 'sk hot \<Rightarrow> bool" where
  "flag_window L p s s' \<longleftrightarrow> hot_step L p s s' \<and> (h_epoch s' = FlagCleared \<longrightarrow> h_epoch s = FlagCleared)"

lemma log_window_lines:
  assumes step: "log_window L p s s'" and inv: "attr_inv s" and cap: "DropLogMaxPerEpoch (cfg p) \<noteq> 0"
  shows "h_dropLogCount s' = h_dropLogCount s \<and> granted_lines s' = granted_lines s \<or>
    h_dropLogCount s' = h_dropLogCount s + 1 \<and> granted_lines s' = granted_lines s +
      of_bool (sint (h_dropLogCount s + 1) \<le> sint (DropLogMaxPerEpoch (cfg p)))"
proof -
  have fin: "finite (past_decision s)" using inv by (simp add: attr_inv_def)
  from step have "hot_step L p s s'" by (simp add: log_window_def)
  then show ?thesis
  proof cases
    case (goroutine t)
    then show ?thesis using fin cap by (rule attr_lines)
  next
    case rotation
    have "h_dropLogCount s' = h_dropLogCount s"
    proof (rule ccontr)
      assume changed: "h_dropLogCount s' \<noteq> h_dropLogCount s"
      with epoch_frame [OF rotation] obtain n where n: "h_epoch s = DropsSwapped n" by blast
      with rotation have "h_epoch s' \<noteq> h_epoch s" by cases simp_all
      with n step show False by (auto simp: log_window_def)
    qed
    with epoch_lines [OF rotation] show ?thesis by blast
  qed
qed

lemma log_window_run:
  assumes "(log_window L p ^^ k) s0 s" and "attr_inv s0" and "h_dropLogCount s0 = 0" and "k < 2 ^ 63"
    and cap: "DropLogMaxPerEpoch (cfg p) \<noteq> 0"
  shows "attr_inv s \<and> (\<exists>n \<le> k. h_dropLogCount s = of_nat n \<and>
    granted_lines s = granted_lines s0 + min (nat (sint (DropLogMaxPerEpoch (cfg p)))) n)"
  using assms(1,4)
proof (induction k arbitrary: s)
  case 0
  then show ?case using assms(2,3) by auto
next
  case (Suc k s')
  let ?cap = "DropLogMaxPerEpoch (cfg p)"
  obtain s where s: "(log_window L p ^^ k) s0 s" "log_window L p s s'" using Suc.prems(1) by auto
  from Suc.IH [OF s(1)] Suc.prems(2) obtain n where inv: "attr_inv s" and n: "n \<le> k" "h_dropLogCount s = of_nat n"
    and lines: "granted_lines s = granted_lines s0 + min (nat (sint ?cap)) n" by auto
  have "attr_inv s'" using attr_inv_step [OF _ inv] s(2) by (auto simp: log_window_def)
  moreover have "\<exists>n \<le> Suc k. h_dropLogCount s' = of_nat n \<and>
    granted_lines s' = granted_lines s0 + min (nat (sint ?cap)) n"
    using log_window_lines [OF s(2) inv cap]
  proof
    assume "h_dropLogCount s' = h_dropLogCount s \<and> granted_lines s' = granted_lines s"
    with n lines show ?thesis by (intro exI [of _ n]) simp
  next
    assume up: "h_dropLogCount s' = h_dropLogCount s + 1 \<and> granted_lines s' = granted_lines s +
      of_bool (sint (h_dropLogCount s + 1) \<le> sint ?cap)"
    have "sint (h_dropLogCount s + 1) = int (Suc n)"
      using sint_of_nat_i64 [of "Suc n"] n Suc.prems(2) by (simp add: add.commute)
    with up lines have "granted_lines s' = granted_lines s0 + min (nat (sint ?cap)) (Suc n)"
      by (auto simp: min_def nat_le_iff le_nat_iff)
    moreover have "h_dropLogCount s' = of_nat (Suc n)" "Suc n \<le> Suc k" using up n by simp_all
    ultimately show ?thesis by blast
  qed
  ultimately show ?case by blast
qed

lemma flag_window_step:
  assumes "flag_window L p s s'" and inv: "attr_inv s"
  shows "granted_warnings s' + of_bool (h_rejectionWarned s) = granted_warnings s + of_bool (h_rejectionWarned s')"
proof -
  from assms(1) have "hot_step L p s s'" by (simp add: flag_window_def)
  then show ?thesis
  proof cases
    case (goroutine t)
    then show ?thesis using inv by (intro attr_warnings) (simp_all add: attr_inv_def)
  next
    case rotation
    have "h_rejectionWarned s' = h_rejectionWarned s"
    proof (rule ccontr)
      assume "h_rejectionWarned s' \<noteq> h_rejectionWarned s"
      with epoch_frame [OF rotation] have "h_epoch s' = FlagCleared" by blast
      with assms(1) have "h_epoch s = FlagCleared" "h_epoch s' = FlagCleared" by (simp_all add: flag_window_def)
      with rotation show False by cases simp_all
    qed
    with epoch_lines [OF rotation] show ?thesis by simp
  qed
qed

lemma flag_window_run:
  assumes "(flag_window L p)\<^sup>*\<^sup>* s0 s" and "attr_inv s0"
  shows "attr_inv s \<and>
    granted_warnings s + of_bool (h_rejectionWarned s0) = granted_warnings s0 + of_bool (h_rejectionWarned s)"
  using assms(1)
proof (induction rule: rtranclp_induct)
  case base
  show ?case using assms(2) by simp
next
  case (step s s')
  then have "attr_inv s'" using attr_inv_step by (auto simp: flag_window_def)
  with flag_window_step [OF step(2)] step.IH show ?case by simp
qed

end
