(* ===== verification/Undisturbed.thy ===== *)
theory Undisturbed
  imports Concurrent_Enforcement Offender_Identity
begin

text \<open>
  The interleaved model refines the sequential one field by field: a goroutine that runs the
  callback without interference, and a rotation that nobody disturbs, lead from a state that
  shows a processor to a state that shows what \<open>attr_callback\<close> and \<open>rotate\<close> make of it.
\<close>

section \<open>The processor a state shows\<close>

definition quiet :: "'sk conc \<Rightarrow> bool" where
  "quiet d \<longleftrightarrow> inj_on (c_trackers d) (dom (c_trackers d)) \<and> finite (dom (c_trackers d)) \<and>
     finite (dom (c_heap d)) \<and> (\<forall>key a. c_trackers d key = Some a \<longrightarrow> a \<in> dom (c_heap d)) \<and>
     c_locks d = (\<lambda>_. None)"

definition shows_trackers :: "('v, 'x, 'sk) lib \<Rightarrow> 'sk conc \<Rightarrow> 'sk processor \<Rightarrow> bool" where
  "shows_trackers L d q \<longleftrightarrow> view d = store_get L q \<and> c_count d = trackerCount q \<and>
     c_rejected d = trackersRejected q"

definition matches :: "('v, 'x, 'sk) lib \<Rightarrow> 'sk hot \<Rightarrow> 'sk processor \<Rightarrow> bool" where
  "matches L s q \<longleftrightarrow> shows_trackers L (h_dec s) q \<and>
     h_labelsStripped s = labelsStripped q \<and> h_dropsThisEpoch s = dropsThisEpoch q \<and>
     h_dropLogCount s = dropLogCount q \<and> h_rejectionWarned s = rejectionWarned q \<and>
     h_topOffenders s = topOffenders q \<and> h_logs s = logs q"

lemma quiet_heap_ok: "quiet d \<Longrightarrow> heap_ok d"
proof -
  assume q: "quiet d"
  then obtain a where "a \<notin> dom (c_heap d)"
    using ex_new_if_finite [OF infinite_UNIV_nat, of "dom (c_heap d)"] by (auto simp: quiet_def)
  with q show "heap_ok d" by (auto simp: quiet_def heap_ok_def domIff)
qed

lemma quiet_free: "quiet d \<Longrightarrow> c_locks d i = None"
  by (simp add: quiet_def)

section \<open>An undisturbed decision\<close>

text \<open>The steps of a goroutine before its verdict.\<close>

definition deciding ::
  "('v, 'x, 'sk) lib \<Rightarrow> 'sk processor \<Rightarrow> nat \<Rightarrow> 'sk conc \<Rightarrow> 'sk conc \<Rightarrow> bool" where
  "deciding L p t d d' \<longleftrightarrow> thread_step L p t d d' \<and> (\<forall>b. c_pc d' t \<noteq> Finished b)"

lemma deciding_next:
  "(deciding L p t)\<^sup>*\<^sup>* d0 d \<Longrightarrow> thread_step L p t d d' \<Longrightarrow> \<forall>b. c_pc d' t \<noteq> Finished b \<Longrightarrow>
   (deciding L p t)\<^sup>*\<^sup>* d0 d'"
  by (simp add: deciding_def rtranclp.rtrancl_into_rtrancl)

text \<open>The state after an insert into the tracker at \<open>a\<close>, from a state where the goroutine holds it.\<close>

definition inserted ::
  "('v, 'x, 'sk) lib \<Rightarrow> 'sk processor \<Rightarrow> nat \<Rightarrow> trackerKey \<Rightarrow> u64 \<Rightarrow> nat \<Rightarrow> 'sk tracker \<Rightarrow> 'sk conc \<Rightarrow> 'sk conc" where
  "inserted L p t key h a tr d =
     (goto t (Finished (exceeds (cachedCurr (snd (tracker_insert L h tr))) (cachedPrev tr)
        (getLimit (cfg p) (key_metricName key)))) d)\<lparr>c_heap := (c_heap d)(a \<mapsto> snd (tracker_insert L h tr))\<rparr>"

lemma step_inserted:
  assumes "c_pc d t = Holding key h a" and "c_heap d a = Some tr"
  shows "thread_step L p t d (inserted L p t key h a tr d)"
proof -
  have "tracker_insert L h tr = ((cachedCurr (snd (tracker_insert L h tr)), cachedPrev tr),
      snd (tracker_insert L h tr))"
    by (simp add: prod_eq_iff tracker_insert_result frame_simps)
  from thread_step.insert [OF assms this] show ?thesis by (simp add: inserted_def)
qed

lemma quiet_inserted:
  assumes "quiet d" and "c_trackers d key = Some a" and "c_heap d a = Some tr"
  shows "quiet (inserted L p t key h a tr d)"
    and "view (inserted L p t key h a tr d) = (view d)(key \<mapsto> snd (tracker_insert L h tr))"
proof -
  show "quiet (inserted L p t key h a tr d)"
    using assms(1) by (simp add: quiet_def inserted_def)
  show "view (inserted L p t key h a tr d) = (view d)(key \<mapsto> snd (tracker_insert L h tr))"
    by (rule view_insert [OF quiet_heap_ok [OF assms(1)] assms(2)]) (simp_all add: inserted_def)
qed

text \<open>The state in which the entry of a new tracker has been made and counted.\<close>

definition counted :: "('v, 'x, 'sk) lib \<Rightarrow> nat \<Rightarrow> trackerKey \<Rightarrow> u64 \<Rightarrow> nat \<Rightarrow> 'sk conc \<Rightarrow> 'sk conc" where
  "counted L t key h a d =
     (goto t (Holding key h a) d)\<lparr>c_trackers := (c_trackers d)(key \<mapsto> a),
        c_heap := (c_heap d)(a \<mapsto> newTracker L), c_count := c_count d + 1\<rparr>"

lemma quiet_counted:
  assumes q: "quiet d" and new: "c_trackers d key = None" and a: "c_heap d a = None"
  shows "quiet (counted L t key h a d)" and "view (counted L t key h a d) = (view d)(key \<mapsto> newTracker L)"
proof -
  have fresh: "c_trackers d k \<noteq> Some a" for k using q a unfolding quiet_def by blast
  have "inj_on ((c_trackers d)(key \<mapsto> a)) (insert key (dom (c_trackers d)))"
    using q new fresh unfolding quiet_def inj_on_def by (auto simp: domIff)
  then show "quiet (counted L t key h a d)"
    using q by (auto simp: quiet_def counted_def)
  show "view (counted L t key h a d) = (view d)(key \<mapsto> newTracker L)"
    by (rule view_create [OF quiet_heap_ok [OF q] a]) (simp_all add: counted_def)
qed

lemma lock_unlock [simp]: "c_locks d = (\<lambda>_. None) \<Longrightarrow> (c_locks d)(i := x, i := None) = c_locks d"
  by (simp add: fun_eq_iff)

lemma run_to_checking:
  assumes "quiet d" and "c_pc d t = Idle" and "c_trackers d (TrackerKey m k) = None"
  shows "(deciding L p t)\<^sup>*\<^sup>* d (locked_state L p t (TrackerKey m k) (Sum64String L v) d)"
proof -
  let ?key = "TrackerKey m k" and ?h = "Sum64String L v"
  have "thread_step L p t d (goto t (Missed ?key ?h) d)"
    by (rule thread_step.lookup_miss) (use assms in \<open>simp_all add: quiet_free\<close>)
  then have "(deciding L p t)\<^sup>*\<^sup>* d (goto t (Missed ?key ?h) d)" by (intro deciding_next [OF rtranclp.rtrancl_refl]) simp_all
  then show ?thesis
    unfolding locked_state_def
    by (rule deciding_next) (rule thread_step.lock_miss, use assms in \<open>simp_all add: quiet_free\<close>)
qed

lemma run_to_counted:
  assumes "quiet d" and "c_pc d t = Idle" and "c_trackers d (TrackerKey m k) = None"
    and room: "\<not> count_exhausted (cfg p) (c_count d)" and a: "c_heap d a = None"
  shows "(deciding L p t)\<^sup>*\<^sup>* d (counted L t (TrackerKey m k) (Sum64String L v) a d)"
proof -
  let ?key = "TrackerKey m k" and ?h = "Sum64String L v"
  let ?d1 = "locked_state L p t ?key ?h d"
  let ?d2 = "goto t (Admitted ?key ?h) ?d1"
  let ?d3 = "created_state L p t ?key ?h a ?d2"
  have d1: "c_pc ?d1 t = Checking ?key ?h" "c_count ?d1 = c_count d" by (simp_all add: locked_state_def)
  have "(deciding L p t)\<^sup>*\<^sup>* d ?d2"
    by (rule deciding_next [OF run_to_checking [OF assms(1-3)] thread_step.check_room [OF d1(1)]])
       (simp_all add: room d1)
  then have "(deciding L p t)\<^sup>*\<^sup>* d ?d3"
    by (rule deciding_next [OF _ step_create]) (simp_all add: locked_state_def a created_state_def)
  then have "(deciding L p t)\<^sup>*\<^sup>* d (added_state L p t ?key ?h a ?d3)"
    by (rule deciding_next [OF _ step_added]) (simp_all add: created_state_def added_state_def)
  moreover have "added_state L p t ?key ?h a ?d3 = counted L t ?key ?h a d"
    using assms(1) by (simp add: added_state_def created_state_def locked_state_def counted_def quiet_def
        goto_def set_lock_def fun_eq_iff)
  ultimately show ?thesis by simp
qed

lemma budget_same:
  "cfg q = cfg p \<Longrightarrow> c_count d = trackerCount q \<Longrightarrow> count_exhausted (cfg p) (c_count d) = budget_exhausted q"
  by (simp add: count_exhausted_def budget_exhausted_def)

text \<open>
  A whole decision: up to its last step the goroutine has no verdict, and the last step gives
  that of \<open>shouldDrop\<close> and shows the processor after it.
\<close>

definition verdict_of ::
  "('v, 'x, 'sk) lib \<Rightarrow> 'sk processor \<Rightarrow> nat \<Rightarrow> 'sk conc \<Rightarrow> bool \<times> 'sk processor \<Rightarrow> 'sk conc \<Rightarrow> bool" where
  "verdict_of L p t d r d' \<longleftrightarrow> quiet d' \<and> shows_trackers L d' (snd r) \<and> c_rot d' = c_rot d \<and>
     c_pc d' = (c_pc d)(t := Finished (fst r))"

lemma inserted_verdict:
  assumes ok: "shards_ok q" and cfg: "cfg q = cfg p" and d: "quiet d" "shows_trackers L d q"
    and entry: "c_trackers d key = Some a" "c_heap d a = Some tr"
  shows "verdict_of L p t d (decide_on L key h tr q) (inserted L p t key h a tr d)"
  using d(2) quiet_inserted [OF d(1) entry, of L p t h] cfg
  by (simp add: verdict_of_def shows_trackers_def decide_on_def sharded.get_put [OF ok])
     (simp add: inserted_def)

lemma decision_run:
  assumes d: "quiet d" "shows_trackers L d q" and idle: "c_pc d t = Idle"
    and ok: "shards_ok q" and cfg: "cfg q = cfg p"
  shows "\<exists>d1 d2. (deciding L p t)\<^sup>*\<^sup>* d d1 \<and> thread_step L p t d1 d2 \<and>
    verdict_of L p t d (shouldDrop L m k v q) d2 \<and>
    (\<exists>h a. if store_get L q (TrackerKey m k) = None \<and> budget_exhausted q
           then c_pc d1 t = Checking (TrackerKey m k) h else c_pc d1 t = Holding (TrackerKey m k) h a)"
proof -
  let ?key = "TrackerKey m k" and ?h = "Sum64String L v"
  have view: "view d ?key = store_get L q ?key" and count: "c_count d = trackerCount q"
    using d(2) by (simp_all add: shows_trackers_def)
  have entry: "c_trackers d ?key = None \<longleftrightarrow> store_get L q ?key = None"
  proof (cases "c_trackers d ?key")
    case (Some a)
    then have "a \<in> dom (c_heap d)" using d(1) unfolding quiet_def by blast
    then obtain tr where "c_heap d a = Some tr" by blast
    with Some show ?thesis by (simp add: view [symmetric]) (simp add: view_def)
  qed (use view in \<open>simp add: view_def\<close>)
  show ?thesis
  proof (cases rule: obtainTracker_cases [of L q ?key])
    case (tracked tr)
    with view obtain a where a: "c_trackers d ?key = Some a" "c_heap d a = Some tr"
      by (auto simp: view_def bind_eq_Some_conv)
    let ?d1 = "goto t (Holding ?key ?h a) d"
    have "thread_step L p t d ?d1"
      by (rule thread_step.lookup_hit) (use idle a d(1) in \<open>simp_all add: quiet_free\<close>)
    then have run: "(deciding L p t)\<^sup>*\<^sup>* d ?d1" by (intro deciding_next [OF rtranclp.rtrancl_refl]) simp_all
    have "inserted L p t ?key ?h a tr ?d1 = inserted L p t ?key ?h a tr d"
      by (simp add: inserted_def goto_def)
    then have "thread_step L p t ?d1 (inserted L p t ?key ?h a tr d)"
      using step_inserted [of ?d1 t ?key ?h a tr L p] a(2) by simp
    with run inserted_verdict [OF ok cfg d a, of t ?h] tracked show ?thesis
      by (intro exI [of _ ?d1] exI [of _ "inserted L p t ?key ?h a tr d"]) (simp add: shouldDrop_simps)
  next
    case rejected
    let ?d1 = "locked_state L p t ?key ?h d"
    let ?d2 = "(goto t (Finished False) (set_lock (shard_of L p ?key) None ?d1))\<lparr>c_rejected := c_rejected ?d1 + 1\<rparr>"
    have d1: "c_pc ?d1 t = Checking ?key ?h" "c_count ?d1 = c_count d" by (simp_all add: locked_state_def)
    have run: "(deciding L p t)\<^sup>*\<^sup>* d ?d1"
      by (rule run_to_checking) (use d(1) idle entry rejected in simp_all)
    have "thread_step L p t ?d1 ?d2"
      by (rule thread_step.check_full [OF d1(1)]) (use rejected budget_same [OF cfg count] d1 in simp)
    moreover have "store_get L (reject_tracker q) = store_get L q" "trackerCount (reject_tracker q) = trackerCount q"
      "trackersRejected (reject_tracker q) = trackersRejected q + 1"
      by (auto simp: reject_tracker_def Let_def emit_def intro: store_only_shards)
    then have "verdict_of L p t d (shouldDrop L m k v q) ?d2"
      using d rejected by (auto simp: verdict_of_def shouldDrop_simps shows_trackers_def quiet_def locked_state_def
          view_def fun_eq_iff)
    ultimately show ?thesis
      using run d1 rejected by (intro exI [of _ ?d1] exI [of _ ?d2]) simp
  next
    case created
    obtain a where a: "c_heap d a = None" using quiet_heap_ok [OF d(1)] by (auto simp: heap_ok_def)
    have new: "c_trackers d ?key = None" using entry created by simp
    let ?d1 = "counted L t ?key ?h a d" and ?q1 = "create_tracker L ?key q"
    have run: "(deciding L p t)\<^sup>*\<^sup>* d ?d1"
      by (rule run_to_counted) (use d(1) idle new a created budget_same [OF cfg count] in simp_all)
    have d1: "quiet ?d1" "shows_trackers L ?d1 ?q1"
      using quiet_counted [OF d(1) new a, of L t ?h] d(2) create_tracker_get [OF ok, of L ?key]
      by (simp_all add: shows_trackers_def) (simp_all add: counted_def)
    have entry1: "c_trackers ?d1 ?key = Some a" "c_heap ?d1 a = Some (newTracker L)" by (simp_all add: counted_def)
    let ?d2 = "inserted L p t ?key ?h a (newTracker L) ?d1"
    have "thread_step L p t ?d1 ?d2" by (rule step_inserted) (simp_all add: counted_def)
    moreover have "verdict_of L p t ?d1 (shouldDrop L m k v q) ?d2"
      using inserted_verdict [OF create_tracker_ok [OF ok] _ d1 entry1, of p t ?h] cfg created
      by (simp add: shouldDrop_simps)
    then have "verdict_of L p t d (shouldDrop L m k v q) ?d2"
      by (simp add: verdict_of_def) (simp add: counted_def)
    ultimately show ?thesis
      using run created
      by (intro exI [of _ ?d1] exI [of _ ?d2]) (simp, simp add: counted_def)
  qed
qed

section \<open>An undisturbed callback\<close>

lemma attr_next:
  "(attr_step L p t)\<^sup>*\<^sup>* s0 s \<Longrightarrow> attr_step L p t s s' \<Longrightarrow> (attr_step L p t)\<^sup>*\<^sup>* s0 s'"
  by (rule rtranclp.rtrancl_into_rtrancl)

lemma attr_first: "attr_step L p t s s' \<Longrightarrow> (attr_step L p t)\<^sup>*\<^sup>* s s'"
  by (rule r_into_rtranclp)

lemma deciding_lifts:
  assumes "(deciding L p t)\<^sup>*\<^sup>* (h_dec s) d" and "h_attr s t = Deciding"
  shows "(attr_step L p t)\<^sup>*\<^sup>* s (s\<lparr>h_dec := d\<rparr>)"
  using assms(1)
proof (induction rule: rtranclp_induct)
  case base
  show ?case by simp
next
  case (step d d')
  have "attr_step L p t (s\<lparr>h_dec := d\<rparr>) ((s\<lparr>h_dec := d\<rparr>)\<lparr>h_dec := d'\<rparr>)"
    by (rule attr_step.decide) (use step(2) assms(2) in \<open>simp_all add: deciding_def\<close>)
  with step.IH show ?case by (simp add: rtranclp.rtrancl_into_rtrancl)
qed

lemma at_at [simp]: "at t q (at t r s) = at t q s"
  by (simp add: at_def)

lemma matches_at [simp]: "matches L (at t r s) q = matches L s q"
  by (simp add: matches_def)

lemma matches_say: "matches L s q \<Longrightarrow> matches L (say e s) (emit e q)"
  by (auto simp: matches_def emit_def shows_trackers_def intro: store_only_shards)

lemma shows_trackers_core:
  "core q' = core q \<Longrightarrow> trackersRejected q' = trackersRejected q \<Longrightarrow>
   shows_trackers L d q' = shows_trackers L d q"
  using core_store_get [of q' q L] by (simp add: shows_trackers_def core_def)

text \<open>The capped drop log, from the test of the cap on.\<close>

lemma log_drop_run:
  assumes match: "matches L s q" and cfg: "cfg q = cfg p"
  shows "\<exists>s'. (attr_step L p t)\<^sup>*\<^sup>* (at t (Counted (TrackerKey m k)) s) (at t Returning s') \<and>
    h_attr s' = h_attr s \<and> h_dec s' = h_dec s \<and> matches L s' (log_drop m k q)"
proof -
  let ?key = "TrackerKey m k" and ?max = "DropLogMaxPerEpoch (cfg p)"
  let ?s0 = "at t (Counted ?key) s"
  have log: "attr_step L p t (at t (Logging ?key) s') (at t Returning (say (LogDropping m k) s'))" for s'
    using attr_step.log_line [of "at t (Logging ?key) s'" t ?key L p] by (simp add: at_def say_def)
  show ?thesis
  proof (cases "?max = 0")
    case True
    have "attr_step L p t ?s0 (at t (Logging ?key) ?s0)" by (rule attr_step.uncapped) (use True in simp_all)
    then have "(attr_step L p t)\<^sup>*\<^sup>* ?s0 (at t Returning (say (LogDropping m k) s))"
      using attr_next [OF attr_first log [of s]] by simp
    with matches_say [OF match] True show ?thesis
      by (intro exI [of _ "say (LogDropping m k) s"]) (simp add: log_drop_def cfg)
  next
    case False
    let ?s1 = "s\<lparr>h_dropLogCount := h_dropLogCount s + 1\<rparr>" and ?q1 = "q\<lparr>dropLogCount := dropLogCount q + 1\<rparr>"
    let ?ok = "sint (dropLogCount q + 1) \<le> sint ?max"
    have m1: "matches L ?s1 ?q1" and same: "h_dropLogCount s = dropLogCount q"
      using match shows_trackers_core [of ?q1 q L "h_dec s"] by (simp_all add: matches_def core_def)
    have "attr_step L p t ?s0
       (at t (if sint (h_dropLogCount ?s0 + 1) \<le> sint ?max then Logging ?key else Returning)
         (?s0\<lparr>h_dropLogCount := h_dropLogCount ?s0 + 1\<rparr>))"
      by (rule attr_step.capped) (use False in simp_all)
    then have step: "attr_step L p t ?s0 (at t (if ?ok then Logging ?key else Returning) ?s1)"
      by (simp add: at_def same)
    show ?thesis
    proof (cases ?ok)
      case True
      then have "(attr_step L p t)\<^sup>*\<^sup>* ?s0 (at t Returning (say (LogDropping m k) ?s1))"
        using attr_next [OF attr_first [OF step]] log [of ?s1] by simp
      with matches_say [OF m1] True False show ?thesis
        by (intro exI [of _ "say (LogDropping m k) ?s1"]) (simp add: log_drop_def cfg Let_def)
    next
      case beyond: False
      with attr_first [OF step] m1 False show ?thesis
        by (intro exI [of _ ?s1]) (simp add: log_drop_def cfg Let_def)
    qed
  qed
qed

text \<open>The bookkeeping after a verdict.\<close>

lemma note_run:
  assumes at: "h_attr s t = (if b then Flagged (TrackerKey m k) else Returning)"
    and match: "matches L s q" and cfg: "cfg q = cfg p"
  shows "\<exists>s'. (attr_step L p t)\<^sup>*\<^sup>* s (at t Returning s') \<and> h_attr s' = h_attr s \<and> h_dec s' = h_dec s \<and>
    matches L s' (note_verdict m mode k b q)"
proof (cases b)
  case False
  with at have "at t Returning s = s" by (simp add: at_def fun_upd_idem)
  with match False show ?thesis by (intro exI [of _ s]) (simp add: note_verdict_def)
next
  case True
  let ?key = "TrackerKey m k"
  let ?s1 = "s\<lparr>h_labelsStripped := h_labelsStripped s + 1\<rparr>"
  let ?q1 = "q\<lparr>labelsStripped := labelsStripped q + 1\<rparr>"
  let ?next = "if mode = EnforcementStripAndReaggregate then Stripping ?key else Returning"
  have step1: "attr_step L p t s (at t ?next ?s1)"
    by (rule attr_step.count_label) (use at True in simp)
  have m1: "matches L ?s1 ?q1"
    using match shows_trackers_core [of ?q1 q L "h_dec s"] by (simp add: matches_def core_def)
  show ?thesis
  proof (cases "mode = EnforcementStripAndReaggregate")
    case False
    with attr_first [OF step1] m1 True show ?thesis
      by (intro exI [of _ ?s1]) (simp add: note_verdict_def)
  next
    case mode: True
    let ?s2 = "?s1\<lparr>h_dropsThisEpoch := h_dropsThisEpoch ?s1 + 1\<rparr>"
    let ?q2 = "?q1\<lparr>dropsThisEpoch := dropsThisEpoch ?q1 + 1\<rparr>"
    have m2: "matches L ?s2 ?q2"
      using m1 shows_trackers_core [of ?q2 ?q1 L "h_dec s"] by (simp add: matches_def core_def)
    have "attr_step L p t (at t (Stripping ?key) ?s1) (at t (Counted ?key) ((at t (Stripping ?key) ?s1)
        \<lparr>h_dropsThisEpoch := h_dropsThisEpoch (at t (Stripping ?key) ?s1) + 1\<rparr>))"
      by (rule attr_step.count_drop) simp
    then have run2: "(attr_step L p t)\<^sup>*\<^sup>* s (at t (Counted ?key) ?s2)"
      using attr_next [OF attr_first [OF step1]] mode by (simp add: at_def)
    from log_drop_run [OF m2, of p t m k] cfg obtain s' where
      "(attr_step L p t)\<^sup>*\<^sup>* (at t (Counted ?key) ?s2) (at t Returning s')" "h_attr s' = h_attr s"
      "h_dec s' = h_dec s" "matches L s' (log_drop m k ?q2)" by auto
    with rtranclp_trans [OF run2] True mode show ?thesis
      by (intro exI [of _ s']) (simp add: note_verdict_def Let_def)
  qed
qed

text \<open>The warning of a rejection.\<close>

lemma reject_run:
  assumes at: "h_attr s t = Rejected" and match: "matches L s (q\<lparr>trackersRejected := n\<rparr>)"
    and n: "n = trackersRejected q + 1" and cfg: "cfg q = cfg p"
  shows "\<exists>s'. (attr_step L p t)\<^sup>*\<^sup>* s (at t Returning s') \<and> h_attr s' = h_attr s \<and> h_dec s' = h_dec s \<and>
    matches L s' (reject_tracker q)"
proof (cases "h_rejectionWarned s")
  case True
  then have "reject_tracker q = q\<lparr>trackersRejected := n\<rparr>"
    using match by (simp add: reject_tracker_def n matches_def)
  with attr_first [OF attr_step.warn_again [OF at True]] match show ?thesis by (intro exI [of _ s]) simp
next
  case False
  let ?s1 = "s\<lparr>h_rejectionWarned := True\<rparr>" and ?q1 = "(q\<lparr>trackersRejected := n\<rparr>)\<lparr>rejectionWarned := True\<rparr>"
  let ?e = "LogTrackerLimit (MaxTrackerCount (cfg p))"
  have m1: "matches L ?s1 ?q1"
    using match shows_trackers_core [of ?q1 "q\<lparr>trackersRejected := n\<rparr>" L "h_dec s"] by (simp add: matches_def core_def)
  have "attr_step L p t (at t Warning ?s1) (at t Returning (say ?e ?s1))"
    using attr_step.warn [of "at t Warning ?s1" t L p] by (simp add: at_def say_def)
  then have run: "(attr_step L p t)\<^sup>*\<^sup>* s (at t Returning (say ?e ?s1))"
    by (rule attr_next [OF attr_first [OF attr_step.warn_first [OF at False]]])
  have "reject_tracker q = emit ?e ?q1"
    using match False by (simp add: reject_tracker_def n matches_def cfg Let_def)
  with run matches_say [OF m1] show ?thesis by (intro exI [of _ "say ?e ?s1"]) simp
qed

lemma quiet_goto [simp]: "quiet (goto t q d) = quiet d"
  by (simp add: quiet_def)

lemma shows_goto [simp]: "shows_trackers L (goto t q d) = shows_trackers L d"
  by (simp add: shows_trackers_def view_def fun_eq_iff)

text \<open>What a decision that does not reject leaves alone.\<close>

lemma shouldDrop_frame:
  assumes "\<not> (store_get L q (TrackerKey m k) = None \<and> budget_exhausted q)"
  shows "rejectionWarned (snd (shouldDrop L m k v q)) = rejectionWarned q"
    "logs (snd (shouldDrop L m k v q)) = logs q"
    "topOffenders (snd (shouldDrop L m k v q)) = topOffenders q" "cfg (snd (shouldDrop L m k v q)) = cfg q"
proof -
  show "topOffenders (snd (shouldDrop L m k v q)) = topOffenders q" "cfg (snd (shouldDrop L m k v q)) = cfg q"
    using shouldDrop_same_settings [of q L m k v] by (simp_all add: same_settings_def)
  show "rejectionWarned (snd (shouldDrop L m k v q)) = rejectionWarned q"
    "logs (snd (shouldDrop L m k v q)) = logs q"
    using assms(1)
    by (cases rule: obtainTracker_cases [of L q "TrackerKey m k"]; simp add: shouldDrop_simps decide_on_def)+
qed

lemma leave_run:
  assumes "h_attr s t = Deciding" and "c_pc (h_dec s) t = Finished b"
  shows "attr_step L p t (at t Returning s) (s\<lparr>h_dec := goto t Idle (h_dec s)\<rparr>)"
proof -
  have "thread_step L p t (h_dec s) (goto t Idle (h_dec s))" by (rule thread_step.return [OF assms(2)])
  then have "attr_step L p t (at t Returning s) (at t Deciding ((at t Returning s)\<lparr>h_dec := goto t Idle (h_dec s)\<rparr>))"
    by (intro attr_step.leave) simp_all
  moreover have "at t Deciding ((at t Returning s)\<lparr>h_dec := goto t Idle (h_dec s)\<rparr>) = s\<lparr>h_dec := goto t Idle (h_dec s)\<rparr>"
    using assms(1) by (simp add: at_def fun_upd_idem)
  ultimately show ?thesis by simp
qed

lemma callback_run:
  assumes match: "matches L s q" and quiet: "quiet (h_dec s)" and idle: "c_pc (h_dec s) t = Idle"
    and at: "h_attr s t = Deciding" and ok: "shards_ok q" and cfg: "cfg q = cfg p"
  shows "\<exists>s'. (attr_step L p t)\<^sup>*\<^sup>* s (at t Returning s') \<and> h_attr s' = h_attr s \<and>
    verdict_of L p t (h_dec s) (shouldDrop L m k v q) (h_dec s') \<and>
    matches L s' (note_verdict m mode k (fst (shouldDrop L m k v q)) (snd (shouldDrop L m k v q)))"
proof -
  let ?sd = "shouldDrop L m k v q" and ?full = "store_get L q (TrackerKey m k) = None \<and> budget_exhausted q"
  have "shows_trackers L (h_dec s) q" using match by (simp add: matches_def)
  from decision_run [OF quiet this idle ok cfg, where m = m and k = k and v = v]
  obtain d1 d2 h a where d: "(deciding L p t)\<^sup>*\<^sup>* (h_dec s) d1" "thread_step L p t d1 d2"
    "verdict_of L p t (h_dec s) ?sd d2"
    and pc: "if ?full then c_pc d1 t = Checking (TrackerKey m k) h else c_pc d1 t = Holding (TrackerKey m k) h a"
    by blast
  let ?s1 = "s\<lparr>h_dec := d1\<rparr>" and ?s2 = "s\<lparr>h_dec := d2\<rparr>"
  have run: "(attr_step L p t)\<^sup>*\<^sup>* s ?s1" by (rule deciding_lifts [OF d(1) at])
  have fin: "c_pc d2 t = Finished (fst ?sd)" and shows2: "shows_trackers L d2 (snd ?sd)"
    using d(3) by (simp_all add: verdict_of_def)
  show ?thesis
  proof (cases ?full)
    case True
    then have sd: "?sd = (False, reject_tracker q)" by (simp add: shouldDrop_simps)
    have "attr_step L p t ?s1 (at t Rejected (?s1\<lparr>h_dec := d2\<rparr>))"
      by (rule attr_step.rejected) (use at pc True d(2) fin in simp_all)
    then have run2: "(attr_step L p t)\<^sup>*\<^sup>* s (at t Rejected ?s2)" using attr_next [OF run] by simp
    have "matches L (at t Rejected ?s2) (q\<lparr>trackersRejected := trackersRejected q + 1\<rparr>)"
      using shows2 match shows_trackers_core [of "q\<lparr>trackersRejected := trackersRejected q + 1\<rparr>" "reject_tracker q" L d2]
      by (simp add: matches_def sd reject_tracker_def Let_def emit_def core_def)
    from reject_run [OF _ this refl cfg, of t] obtain s' where s':
      "(attr_step L p t)\<^sup>*\<^sup>* (at t Rejected ?s2) (at t Returning s')" "h_attr s' = (h_attr s)(t := Rejected)"
      "h_dec s' = d2" "matches L s' (reject_tracker q)" by auto
    have "at t Returning (at t Deciding s') = at t Returning s'" by simp
    then show ?thesis
      using rtranclp_trans [OF run2 s'(1)] s'(2-4) d(3) at
      by (intro exI [of _ "at t Deciding s'"]) (simp add: sd note_verdict_def fun_upd_idem)
  next
    case False
    let ?q = "if fst ?sd then Flagged (TrackerKey m k) else Returning"
    have "attr_step L p t ?s1 (at t ?q (?s1\<lparr>h_dec := d2\<rparr>))"
      by (rule attr_step.judged) (use at pc False d(2) fin in simp_all)
    then have run2: "(attr_step L p t)\<^sup>*\<^sup>* s (at t ?q ?s2)" using attr_next [OF run] by simp
    have "matches L (at t ?q ?s2) (snd ?sd)"
      using shows2 match shouldDrop_frame [OF False] by (simp add: matches_def)
    from note_run [OF _ this, of t "fst ?sd" m k p mode] obtain s' where s':
      "(attr_step L p t)\<^sup>*\<^sup>* (at t ?q ?s2) (at t Returning s')" "h_attr s' = (h_attr s)(t := ?q)"
      "h_dec s' = d2" "matches L s' (note_verdict m mode k (fst ?sd) (snd ?sd))"
      using shouldDrop_frame(4) [OF False] cfg by auto
    have "at t Returning (at t Deciding s') = at t Returning s'" by simp
    then show ?thesis
      using rtranclp_trans [OF run2 s'(1)] s'(2-4) d(3) at
      by (intro exI [of _ "at t Deciding s'"]) (simp add: fun_upd_idem)
  qed
qed

text \<open>
  The callback refines its sequential model: a goroutine that runs it without interference,
  in any mode and with any verdict, leads from a state that shows a processor to one that shows
  the processor after \<open>attr_callback\<close>, in the trackers, every counter, the flag, the list of
  offenders and the log, and it is ready for its next attribute.
\<close>

lemma undisturbed_callback_refines:
  assumes "matches L s q" and "quiet (h_dec s)" and "c_pc (h_dec s) t = Idle" and "h_attr s t = Deciding"
    and "shards_ok q" and "cfg q = cfg p" and "\<not> isProtected q k"
  shows "\<exists>s'. (attr_step L p t)\<^sup>*\<^sup>* s s' \<and>
    matches L s' (fst (snd (attr_callback L m mode (k, v) (q, tag, keys)))) \<and>
    quiet (h_dec s') \<and> c_pc (h_dec s') = c_pc (h_dec s) \<and> h_attr s' = h_attr s"
proof -
  let ?sd = "shouldDrop L m k (AsString L v) q"
  obtain s' where s': "(attr_step L p t)\<^sup>*\<^sup>* s (at t Returning s')" "h_attr s' = h_attr s"
    "verdict_of L p t (h_dec s) ?sd (h_dec s')" "matches L s' (note_verdict m mode k (fst ?sd) (snd ?sd))"
    using callback_run [OF assms(1-6), where m = m and k = k and v = "AsString L v" and mode = mode] by blast
  let ?s'' = "s'\<lparr>h_dec := goto t Idle (h_dec s')\<rparr>"
  have "c_pc (h_dec s') t = Finished (fst ?sd)" using s'(3) by (simp add: verdict_of_def)
  with s'(2) assms(4) have "attr_step L p t (at t Returning s') ?s''" by (intro leave_run) simp_all
  with s'(1) have "(attr_step L p t)\<^sup>*\<^sup>* s ?s''" by (rule attr_next)
  moreover have "c_pc (goto t Idle (h_dec s')) = c_pc (h_dec s)" "quiet (h_dec s')"
    using s'(3) assms(3) by (auto simp: verdict_of_def)
  moreover have "matches L ?s'' (note_verdict m mode k (fst ?sd) (snd ?sd))"
    using s'(4) by (simp add: matches_def)
  moreover have "fst (snd (attr_callback L m mode (k, v) (q, tag, keys))) = note_verdict m mode k (fst ?sd) (snd ?sd)"
    using assms(7) by (simp add: callback_processor judge_def)
  ultimately show ?thesis using s'(2) by (intro exI [of _ ?s'']) simp
qed

end
