(* ===== verification/Undisturbed_Rotation.thy ===== *)
theory Undisturbed_Rotation
  imports Undisturbed
begin

text \<open>
  The whole rotation without interference: shard by shard it reads the deltas, rotates, evicts
  and logs, then it resets, summarizes and publishes; in the end the state shows the processor
  after \<open>rotate\<close>, whatever order the shards' maps were visited in.
\<close>

section \<open>Lifting the loops\<close>

fun loop_phase :: "epoch_pc \<Rightarrow> rotator_pc \<Rightarrow> bool" where
  "loop_phase InShards (RotEntries i es stale) = True"
| "loop_phase (Evicting n) (RotEvict i keys) = True"
| "loop_phase (Evicting n) (RotDecrement i keys) = True"
| "loop_phase _ _ = False"

lemma epoch_next:
  "(epoch_step L p)\<^sup>*\<^sup>* s0 s \<Longrightarrow> epoch_step L p s s' \<Longrightarrow> (epoch_step L p)\<^sup>*\<^sup>* s0 s'"
  by (rule rtranclp.rtrancl_into_rtrancl)

lemma epoch_first:
  "epoch_step L p s s' \<Longrightarrow> (epoch_step L p)\<^sup>*\<^sup>* s' s'' \<Longrightarrow> (epoch_step L p)\<^sup>*\<^sup>* s s''"
  by (rule converse_rtranclp_into_rtranclp)

lemma loop_step_lifts:
  assumes "loop_step L p d d'" and "h_dec s = d" and phase: "loop_phase (h_epoch s) (c_rot d)"
  shows "epoch_step L p s (s\<lparr>h_dec := d'\<rparr>) \<and> loop_phase (h_epoch s) (c_rot d')"
proof -
  have step: "rotator_step L p (h_dec s) d'" and loop: "in_loop (c_rot d)"
    using assms(1,2) by (simp_all add: loop_step_def)
  show ?thesis
  proof (cases "c_rot d")
    case (RotEntries i es stale)
    then obtain e es' where es: "c_rot (h_dec s) = RotEntries i (e # es') stale" and s: "h_epoch s = InShards"
      using loop phase assms(2) by (cases es; cases "h_epoch s") auto
    from step es have "\<exists>stale'. c_rot d' = RotEntries i es' stale'" by cases auto
    with epoch_step.rotate_one [OF s es step] s show ?thesis by auto
  next
    case (RotEvict i keys)
    then obtain key keys' n where keys: "c_rot (h_dec s) = RotEvict i (key # keys')" and s: "h_epoch s = Evicting n"
      using loop phase assms(2) by (cases keys; cases "h_epoch s") auto
    from step keys have "c_rot d' = RotDecrement i keys'" by cases auto
    with epoch_step.evict [OF s step] s show ?thesis by simp
  next
    case (RotDecrement i keys)
    then obtain n where s: "h_epoch s = Evicting n" using phase by (cases "h_epoch s") auto
    from step RotDecrement assms(2) have "c_rot d' = RotEvict i keys" by cases auto
    with epoch_step.evict [OF s step] s show ?thesis by simp
  qed (use loop in simp_all)
qed

lemma loop_run_lifts:
  assumes "loop_run L p d d'" and "h_dec s = d" and "loop_phase (h_epoch s) (c_rot d)"
  shows "(epoch_step L p)\<^sup>*\<^sup>* s (s\<lparr>h_dec := d'\<rparr>)"
proof -
  have "(epoch_step L p)\<^sup>*\<^sup>* s (s\<lparr>h_dec := d'\<rparr>) \<and> loop_phase (h_epoch s) (c_rot d')"
    using assms(1) unfolding loop_run_def
  proof (induction rule: rtranclp_induct)
    case base
    show ?case using assms(2,3) by auto
  next
    case (step d1 d2)
    from step.IH loop_step_lifts [OF step(2), of "s\<lparr>h_dec := d1\<rparr>"] show ?case
      by (auto intro: epoch_next)
  qed
  then show ?thesis ..
qed

section \<open>The entries of a shard in the order of a range\<close>

definition pointed :: "'sk conc \<Rightarrow> 'sk trackerEntry list \<Rightarrow> (trackerKey \<times> nat) list" where
  "pointed d es = map (\<lambda>(key, t). (key, the (c_trackers d key))) es"

definition points_to :: "'sk conc \<Rightarrow> 'sk trackerEntry list \<Rightarrow> bool" where
  "points_to d es \<longleftrightarrow> (\<forall>(key, t) \<in> set es. \<exists>a. c_trackers d key = Some a \<and> c_heap d a = Some t)"

lemma shows_tracked:
  assumes "shows_trackers L d q" and "store_get L q key = Some t"
  shows "\<exists>a. c_trackers d key = Some a \<and> c_heap d a = Some t"
proof -
  have "view d key = Some t" using assms by (simp add: shows_trackers_def)
  then show ?thesis by (auto simp: view_def bind_eq_Some_conv)
qed

lemma routed_entry:
  assumes ok: "routed L q" and r: "range_ok r" and i: "i < length (shards q)"
  shows "(key, t) \<in> set (r (trackers (shards q ! i))) \<longleftrightarrow>
    store_get L q key = Some t \<and> getShard L q (key_metricName key) = i"
proof -
  let ?m = "trackers (shards q ! i)"
  have keys: "keys_distinct ?m" using ok i shards_ok_nth by (auto simp: routed_def)
  have "(key, t) \<in> set (r ?m) \<longleftrightarrow> (key, t) \<in> set ?m"
    using range_ok_perm [OF r, of ?m] by (metis set_mset_mset)
  also have "\<dots> \<longleftrightarrow> map_of ?m key = Some t" using map_of_eq_Some_iff [of ?m key t] keys by (simp add: keys_distinct_def)
  also have "\<dots> \<longleftrightarrow> store_get L q key = Some t \<and> getShard L q (key_metricName key) = i"
  proof
    assume t: "map_of ?m key = Some t"
    then have "key \<in> fst ` set ?m" by (metis domI dom_map_of_conv_image_fst)
    with ok i have "getShard L q (key_metricName key) = i" by (simp only: routed_def)
    with t show "store_get L q key = Some t \<and> getShard L q (key_metricName key) = i"
      by (simp add: store_get_def)
  qed (auto simp: store_get_def)
  finally show ?thesis .
qed

lemma pointed_entries:
  assumes st: "shows_trackers L d q" and quiet: "quiet d" and ok: "routed L q" and r: "range_ok r"
    and i: "i < length (shards q)" and seed: "seed q = seed p"
  defines "es \<equiv> r (trackers (shards q ! i))"
  shows "points_to d es" and "distinct (map fst (pointed d es))" and "distinct (map snd (pointed d es))"
    and "\<forall>key a. (key, a) \<in> set (pointed d es) \<longleftrightarrow> c_trackers d key = Some a \<and> shard_of L p key = i"
proof -
  note entry = routed_entry [OF ok r i, folded es_def]
  show points: "points_to d es"
    unfolding points_to_def using entry shows_tracked [OF st] by auto
  have "distinct (map fst es)"
    unfolding es_def using ok i shards_ok_nth
    by (intro map_of_perm(2) [OF range_ok_perm [OF r]]) (auto simp: routed_def)
  moreover have fst: "map fst (pointed d es) = map fst es" by (simp add: pointed_def split_beta comp_def)
  ultimately show keys: "distinct (map fst (pointed d es))" by simp
  have shard: "shard_of L p key = getShard L q (key_metricName key)" for key
    using seed by (simp add: shard_of_def getShard_def)
  show mem: "\<forall>key a. (key, a) \<in> set (pointed d es) \<longleftrightarrow> c_trackers d key = Some a \<and> shard_of L p key = i"
  proof (intro allI iffI)
    fix key a
    assume "(key, a) \<in> set (pointed d es)"
    then obtain t where t: "(key, t) \<in> set es" "a = the (c_trackers d key)" by (auto simp: pointed_def)
    with entry shard points show "c_trackers d key = Some a \<and> shard_of L p key = i"
      unfolding points_to_def by fastforce
  next
    fix key a
    assume a: "c_trackers d key = Some a \<and> shard_of L p key = i"
    then have "a \<in> dom (c_heap d)" using quiet unfolding quiet_def by blast
    then obtain t where "c_heap d a = Some t" by blast
    with a have "view d key = Some t" by (simp add: view_def)
    with st have "store_get L q key = Some t" by (simp add: shows_trackers_def)
    with entry shard a have "(key, t) \<in> set es" by simp
    with a show "(key, a) \<in> set (pointed d es)" by (force simp: pointed_def)
  qed
  show "distinct (map snd (pointed d es))"
    by (rule distinct_addresses [OF _ keys mem]) (use quiet in \<open>simp add: quiet_def\<close>)
qed

lemma pointed_stale:
  "points_to d es \<Longrightarrow> stale_entries (c_heap d) (pointed d es) = stale_keys es"
  by (induction es) (auto simp: points_to_def pointed_def stale_entries_def stale_keys_def)

section \<open>One shard\<close>

lemma collect_run:
  assumes "h_epoch s = Collecting (pointed (h_dec s) es)" and "points_to (h_dec s) es"
  shows "(epoch_step L p)\<^sup>*\<^sup>* s (s\<lparr>h_topBuf := fold (collect_entry (TopOffendersCount (cfg p))) es (h_topBuf s),
    h_epoch := Collecting []\<rparr>)"
  using assms
proof (induction es arbitrary: s)
  case Nil
  then have "s\<lparr>h_topBuf := h_topBuf s, h_epoch := Collecting []\<rparr> = s" by (simp add: pointed_def)
  then show ?case by simp
next
  case (Cons e es)
  obtain key t where e: "e = (key, t)" by force
  then obtain a where a: "c_trackers (h_dec s) key = Some a" "c_heap (h_dec s) a = Some t"
    using Cons.prems(2) by (auto simp: points_to_def)
  let ?s1 = "s\<lparr>h_topBuf := collect_entry (TopOffendersCount (cfg p)) (key, t) (h_topBuf s),
    h_epoch := Collecting (pointed (h_dec s) es)\<rparr>"
  have step: "epoch_step L p s ?s1"
    by (rule epoch_step.collect [OF _ a(2)]) (use Cons.prems(1) a(1) e in \<open>simp add: pointed_def\<close>)
  have "(epoch_step L p)\<^sup>*\<^sup>* ?s1 (?s1\<lparr>h_topBuf := fold (collect_entry (TopOffendersCount (cfg p))) es (h_topBuf ?s1),
      h_epoch := Collecting []\<rparr>)"
    by (rule Cons.IH) (use Cons.prems(2) in \<open>simp_all add: points_to_def\<close>)
  then show ?case using epoch_first [OF step] e by simp
qed

text \<open>The snapshot of a shard and the reading of its deltas.\<close>

lemma snapshot_run:
  assumes quiet: "quiet (h_dec s)" and phase: "h_epoch s = InShards" and rot: "c_rot (h_dec s) = RotShard i" "i < unat numShards"
    and es: "distinct (map fst (pointed (h_dec s) es))"
      "\<forall>key a. (key, a) \<in> set (pointed (h_dec s) es) \<longleftrightarrow> c_trackers (h_dec s) key = Some a \<and> shard_of L p key = i"
    and points: "points_to (h_dec s) es"
  shows "(epoch_step L p)\<^sup>*\<^sup>* s (s\<lparr>h_dec := (h_dec s)\<lparr>c_rot := RotEntries i (pointed (h_dec s) es) []\<rparr>,
    h_topBuf := collectShardDeltas es (h_topBuf s) (TopOffendersCount (cfg p))\<rparr>)"
proof -
  let ?d1 = "(h_dec s)\<lparr>c_rot := RotEntries i (pointed (h_dec s) es) []\<rparr>"
  let ?s1 = "s\<lparr>h_dec := ?d1, h_epoch := Collecting (pointed (h_dec s) es)\<rparr>"
  let ?topN = "TopOffendersCount (cfg p)"
  have snap: "rotator_step L p (h_dec s) ?d1"
    by (rule rotator_step.rot_snapshot [OF rot quiet_free [OF quiet] es])
  have step: "epoch_step L p s (s\<lparr>h_dec := ?d1,
      h_epoch := if sint ?topN \<le> 0 then InShards else Collecting (pointed (h_dec s) es)\<rparr>)"
    by (rule epoch_step.snapshot [OF phase snap rot(1)]) simp
  show ?thesis
  proof (cases "sint ?topN \<le> 0")
    case True
    have "s\<lparr>h_dec := ?d1, h_epoch := InShards\<rparr> = s\<lparr>h_dec := ?d1, h_topBuf := h_topBuf s\<rparr>"
      using phase by simp
    with step True show ?thesis by (simp add: collectShardDeltas_def r_into_rtranclp)
  next
    case False
    have points1: "points_to ?d1 es" "pointed ?d1 es = pointed (h_dec s) es"
      using points by (simp_all add: points_to_def pointed_def)
    from collect_run [of ?s1 es L p] points1
    have "(epoch_step L p)\<^sup>*\<^sup>* ?s1 (?s1\<lparr>h_topBuf := fold (collect_entry ?topN) es (h_topBuf s), h_epoch := Collecting []\<rparr>)"
      by simp
    moreover have "epoch_step L p s ?s1" using step False by simp
    ultimately have "(epoch_step L p)\<^sup>*\<^sup>* s (?s1\<lparr>h_topBuf := fold (collect_entry ?topN) es (h_topBuf s), h_epoch := Collecting []\<rparr>)"
      by (rule epoch_first [rotated])
    then have "(epoch_step L p)\<^sup>*\<^sup>* s ((?s1\<lparr>h_topBuf := fold (collect_entry ?topN) es (h_topBuf s), h_epoch := Collecting []\<rparr>)\<lparr>h_epoch := InShards\<rparr>)"
      by (rule epoch_next) (rule epoch_step.collected, simp)
    moreover have "(?s1\<lparr>h_topBuf := fold (collect_entry ?topN) es (h_topBuf s), h_epoch := Collecting []\<rparr>)\<lparr>h_epoch := InShards\<rparr>
      = s\<lparr>h_dec := ?d1, h_topBuf := collectShardDeltas es (h_topBuf s) ?topN\<rparr>"
      using phase False by (simp add: collectShardDeltas_def)
    ultimately show ?thesis by (simp only:)
  qed
qed

text \<open>The rotation of its trackers and the eviction of the stale ones, with its log line.\<close>

definition shard_done :: "('v, 'x, 'sk) lib \<Rightarrow> nat \<Rightarrow> 'sk trackerEntry list \<Rightarrow> 'sk hot \<Rightarrow> 'sk hot" where
  "shard_done L i es s =
     (let s1 = s\<lparr>h_dec := shard_end L i (pointed (h_dec s) es) (h_dec s)\<rparr>
      in if stale_keys es = [] then s1 else say (LogEvicted (length (stale_keys es))) s1)"

lemma rotate_entries_run:
  assumes quiet: "quiet (h_dec s)" and phase: "h_epoch s = InShards"
    and snds: "distinct (map snd (pointed (h_dec s) es))" and points: "points_to (h_dec s) es"
  defines "d \<equiv> h_dec s"
  shows "(epoch_step L p)\<^sup>*\<^sup>* (s\<lparr>h_dec := d\<lparr>c_rot := RotEntries i (pointed d es) []\<rparr>\<rparr>)
    (s\<lparr>h_dec := d\<lparr>c_heap := rotate_heap L (snd ` set (pointed d es)) (c_heap d), c_rot := RotEntries i [] (stale_keys es)\<rparr>\<rparr>)"
proof -
  let ?d1 = "d\<lparr>c_rot := RotEntries i (pointed d es) []\<rparr>"
  have "\<forall>(key, a) \<in> set (pointed d es). c_heap ?d1 a \<noteq> None"
    using points by (fastforce simp: points_to_def pointed_def d_def)
  from entries_run [of ?d1 i "pointed d es" "[]" L p, OF _ _ this] snds
  have "loop_run L p ?d1 (d\<lparr>c_heap := rotate_heap L (snd ` set (pointed d es)) (c_heap d),
      c_rot := RotEntries i [] (stale_entries (c_heap d) (pointed d es))\<rparr>)"
    by (simp add: d_def)
  from loop_run_lifts [OF this, of "s\<lparr>h_dec := ?d1\<rparr>"] phase show ?thesis
    using pointed_stale [OF points] by (simp add: d_def)
qed

lemma evict_entries_run:
  assumes quiet: "quiet d" and dec: "h_dec s = d\<lparr>c_heap := hp, c_rot := RotEntries i [] stale\<rparr>"
    and phase: "h_epoch s = InShards" and stale: "stale \<noteq> []"
  shows "(epoch_step L p)\<^sup>*\<^sup>* s (say (LogEvicted (length stale)) (s\<lparr>h_dec := d\<lparr>c_heap := hp,
    c_trackers := without stale (c_trackers d), c_count := c_count d - of_nat (length stale), c_rot := RotShard (Suc i)\<rparr>\<rparr>))"
proof -
  let ?d3 = "(set_lock i (Some RotatorOwner) (h_dec s))\<lparr>c_rot := RotEvict i stale\<rparr>"
  let ?d4 = "?d3\<lparr>c_trackers := without stale (c_trackers d), c_count := c_count d - of_nat (length stale), c_rot := RotEvict i []\<rparr>"
  let ?d5 = "(set_lock i None ?d4)\<lparr>c_rot := RotShard (Suc i)\<rparr>"
  let ?s3 = "s\<lparr>h_dec := ?d3, h_epoch := Evicting (length stale)\<rparr>"
  have free: "c_locks d = (\<lambda>_. None)" using quiet by (simp add: quiet_def)
  have "rotator_step L p (h_dec s) ?d3"
    by (rule rotator_step.rot_lock) (use dec free stale in simp_all)
  then have step3: "epoch_step L p s ?s3"
    by (intro epoch_step.some_stale [OF phase _ stale]) (use dec in simp_all)
  have "loop_run L p ?d3 ?d4" using evict_run [of ?d3 i stale L p] dec by simp
  from loop_run_lifts [OF this, of ?s3] have run4: "(epoch_step L p)\<^sup>*\<^sup>* ?s3 (?s3\<lparr>h_dec := ?d4\<rparr>)" by simp
  have "rotator_step L p ?d4 ?d5" by (rule rotator_step.rot_unlock) simp
  then have "epoch_step L p (?s3\<lparr>h_dec := ?d4\<rparr>) ((?s3\<lparr>h_dec := ?d4\<rparr>)\<lparr>h_dec := ?d5, h_epoch := Evicted (length stale)\<rparr>)"
    by (intro epoch_step.evict_unlock [where n = "length stale"]) simp_all
  from epoch_next [OF run4 this]
  have run5: "(epoch_step L p)\<^sup>*\<^sup>* ?s3 (s\<lparr>h_dec := ?d5, h_epoch := Evicted (length stale)\<rparr>)" by simp
  have "epoch_step L p (s\<lparr>h_dec := ?d5, h_epoch := Evicted (length stale)\<rparr>)
      (say (LogEvicted (length stale)) ((s\<lparr>h_dec := ?d5, h_epoch := Evicted (length stale)\<rparr>)\<lparr>h_epoch := InShards\<rparr>))"
    by (rule epoch_step.evict_log) simp
  note epoch_first [OF step3 epoch_next [OF run5 this]]
  moreover have "(s\<lparr>h_dec := ?d5, h_epoch := Evicted (length stale)\<rparr>)\<lparr>h_epoch := InShards\<rparr> = s\<lparr>h_dec := ?d5\<rparr>"
    using phase by simp
  ultimately have "(epoch_step L p)\<^sup>*\<^sup>* s (say (LogEvicted (length stale)) (s\<lparr>h_dec := ?d5\<rparr>))"
    by (simp only:)
  moreover have "?d5 = d\<lparr>c_heap := hp, c_trackers := without stale (c_trackers d),
      c_count := c_count d - of_nat (length stale), c_rot := RotShard (Suc i)\<rparr>"
    using free dec by (simp add: set_lock_def fun_upd_idem)
  ultimately show ?thesis by (simp only:)
qed

lemma rotate_shard_epoch_run:
  assumes quiet: "quiet (h_dec s)" and phase: "h_epoch s = InShards" and rot: "c_rot (h_dec s) = RotShard i" "i < unat numShards"
    and es: "distinct (map fst (pointed (h_dec s) es))" "distinct (map snd (pointed (h_dec s) es))"
      "\<forall>key a. (key, a) \<in> set (pointed (h_dec s) es) \<longleftrightarrow> c_trackers (h_dec s) key = Some a \<and> shard_of L p key = i"
    and points: "points_to (h_dec s) es"
  shows "(epoch_step L p)\<^sup>*\<^sup>* s
    (shard_done L i es (s\<lparr>h_topBuf := collectShardDeltas es (h_topBuf s) (TopOffendersCount (cfg p))\<rparr>))"
proof -
  let ?d = "h_dec s" and ?s = "s\<lparr>h_topBuf := collectShardDeltas es (h_topBuf s) (TopOffendersCount (cfg p))\<rparr>"
  let ?hp = "rotate_heap L (snd ` set (pointed ?d es)) (c_heap ?d)"
  let ?s2 = "?s\<lparr>h_dec := ?d\<lparr>c_heap := ?hp, c_rot := RotEntries i [] (stale_keys es)\<rparr>\<rparr>"
  have run1: "(epoch_step L p)\<^sup>*\<^sup>* s (?s\<lparr>h_dec := ?d\<lparr>c_rot := RotEntries i (pointed ?d es) []\<rparr>\<rparr>)"
  proof -
    have "?s\<lparr>h_dec := ?d\<lparr>c_rot := RotEntries i (pointed ?d es) []\<rparr>\<rparr> =
      s\<lparr>h_dec := ?d\<lparr>c_rot := RotEntries i (pointed ?d es) []\<rparr>,
        h_topBuf := collectShardDeltas es (h_topBuf s) (TopOffendersCount (cfg p))\<rparr>" by simp
    then show ?thesis using snapshot_run [OF quiet phase rot es(1,3) points] by (simp only:)
  qed
  have run2: "(epoch_step L p)\<^sup>*\<^sup>* (?s\<lparr>h_dec := ?d\<lparr>c_rot := RotEntries i (pointed ?d es) []\<rparr>\<rparr>) ?s2"
    using rotate_entries_run [of ?s es L p i] quiet phase es(2) points by simp
  have keys: "stale_entries (c_heap ?d) (pointed ?d es) = stale_keys es" by (rule pointed_stale [OF points])
  have "(epoch_step L p)\<^sup>*\<^sup>* ?s2 (shard_done L i es ?s)"
  proof (cases "stale_keys es = []")
    case True
    let ?d3 = "(h_dec ?s2)\<lparr>c_rot := RotShard (Suc i)\<rparr>"
    have "rotator_step L p (h_dec ?s2) ?d3" by (rule rotator_step.rot_no_stale) (simp add: True)
    then have "epoch_step L p ?s2 (?s2\<lparr>h_dec := ?d3\<rparr>)"
      by (intro epoch_step.none_stale) (simp_all add: phase True)
    moreover have "?s2\<lparr>h_dec := ?d3\<rparr> = shard_done L i es ?s"
      by (simp add: shard_done_def shard_end_def keys True without_def)
    ultimately show ?thesis by (metis r_into_rtranclp)
  next
    case False
    have "shard_done L i es ?s = say (LogEvicted (length (stale_keys es))) (?s2\<lparr>h_dec := ?d\<lparr>c_heap := ?hp,
        c_trackers := without (stale_keys es) (c_trackers ?d), c_count := c_count ?d - of_nat (length (stale_keys es)),
        c_rot := RotShard (Suc i)\<rparr>\<rparr>)"
      using False by (simp add: shard_done_def shard_end_def keys)
    then show ?thesis
      using evict_entries_run [OF quiet, where s = ?s2 and hp = ?hp and i = i and stale = "stale_keys es" and L = L and p = p] phase False by simp
  qed
  with run1 run2 show ?thesis by (meson rtranclp_trans)
qed

section \<open>What the shard shows\<close>

lemma shard_after_fields:
  assumes i: "i < length (shards q)"
  shows "shards (shard_after L r i q)
      = (shards q)[i := (shards q ! i)\<lparr>trackers := rotated_shard L r (trackers (shards q ! i))\<rparr>]"
    and "trackerCount (shard_after L r i q) = trackerCount q - of_nat (length (stale_keys (r (trackers (shards q ! i)))))"
    and "rotation_frame q (shard_after L r i q)"
    and "logs (shard_after L r i q) = logs q @ (if stale_keys (r (trackers (shards q ! i))) = [] then []
      else [LogEvicted (length (stale_keys (r (trackers (shards q ! i)))))])"
  using rotate_shard_eq(1-3) [OF i, of L r topN buf for topN buf]
  by (simp_all add: rotate_shard_run [OF i]) (simp add: shard_after_def Let_def emit_def)

lemma shard_after_getShard: "i < length (shards q) \<Longrightarrow> getShard L' (shard_after L r i q) m = getShard L' q m"
  using shard_after_fields(3) [of i q L r] by (simp add: rotation_frame_def same_settings_def getShard_def)

lemma shard_after_store:
  assumes ok: "shards_ok q" and i: "i < length (shards q)" and r: "range_ok r" and seed: "seed q = seed p"
  shows "store_get L (shard_after L r i q) = shard_fate L p {i} (store_get L q)"
proof (rule ext)
  fix key
  have shard: "shard_of L p key = getShard L q (key_metricName key)"
    using seed by (simp add: shard_of_def getShard_def)
  have "getShard L q (key_metricName key) < length (shards q)" using ok by simp
  then show "store_get L (shard_after L r i q) key = shard_fate L p {i} (store_get L q) key"
    using rotated_shard_spec(2) [OF shards_ok_nth [OF ok i] r, of L key] i
    by (simp add: store_get_def shard_after_getShard [OF i] shard_after_fields(1) [OF i] shard_fate_def shard nth_list_update)
qed

lemma routed_shard_after:
  assumes ok: "routed L q" and i: "i < length (shards q)" and r: "range_ok r"
  shows "routed L (shard_after L r i q)"
proof -
  have shards: "shards_ok q" using ok by (simp add: routed_def)
  let ?m = "trackers (shards q ! i)"
  have "shards_ok (shard_after L r i q)"
    using shards i rotated_shard_spec(1) [OF shards_ok_nth [OF shards i] r, of L]
    by (auto simp: shards_ok_def shard_after_fields(1) [OF i] list_all_length nth_list_update)
  moreover have "getShard L q (key_metricName key) = j"
    if j: "j < length (shards q)" and key: "key \<in> fst ` set (trackers (shards (shard_after L r i q) ! j))" for j key
  proof -
    have "key \<in> fst ` set (trackers (shards q ! j))"
    proof (cases "j = i")
      case True
      have "key \<in> dom (map_of (rotated_shard L r ?m))"
        using key i True by (simp add: shard_after_fields(1) [OF i] dom_map_of_conv_image_fst)
      then have "key \<in> dom (map_of ?m)"
        unfolding domIff rotated_shard_spec(2) [OF shards_ok_nth [OF shards i] r]
        by (cases "map_of ?m key") simp_all
      with True show ?thesis by (simp only: dom_map_of_conv_image_fst)
    next
      case False
      with key show ?thesis by (simp add: shard_after_fields(1) [OF i])
    qed
    with ok j show ?thesis by (simp only: routed_def)
  qed
  ultimately show ?thesis
    unfolding routed_def shard_after_getShard [OF i] shard_after_fields(1) [OF i] length_list_update by blast
qed

lemma quiet_shard_end:
  assumes quiet: "quiet d" and es: "distinct (map fst es)"
    "\<forall>key a. (key, a) \<in> set es \<longleftrightarrow> c_trackers d key = Some a \<and> shard_of L p key = i"
  shows "quiet (shard_end L i es d)" and "c_pc (shard_end L i es d) = c_pc d"
    and "c_rot (shard_end L i es d) = RotShard (Suc i)" and "c_rejected (shard_end L i es d) = c_rejected d"
proof -
  have "finite (dom (c_trackers d))" using quiet by (simp add: quiet_def)
  note keeps = shard_end_keeps [OF quiet_heap_ok [OF quiet] this es]
  have "dom (rotate_heap L A (c_heap d)) = dom (c_heap d)" for A
    by (auto simp: rotate_heap_def dom_def split: if_splits)
  then have "finite (dom (c_heap (shard_end L i es d)))" using quiet by (simp add: quiet_def shard_end_def)
  with keeps show "quiet (shard_end L i es d)"
    using quiet by (auto simp: rotation_keeps_def quiet_def heap_ok_def domIff)
qed (simp_all add: shard_end_def)

lemma shard_done_shows:
  fixes p q :: "'sk processor"
  assumes match: "matches L s q" and quiet: "quiet (h_dec s)" and ok: "routed L q" and r: "range_ok r"
    and i: "i < length (shards q)" and seed: "seed q = seed p"
  defines "s' \<equiv> shard_done L i (r (trackers (shards q ! i))) s"
  shows "matches L s' (shard_after L r i q)" and "quiet (h_dec s')" and "c_rot (h_dec s') = RotShard (Suc i)"
    and "c_pc (h_dec s') = c_pc (h_dec s)" "h_attr s' = h_attr s" "h_epoch s' = h_epoch s" "h_topBuf s' = h_topBuf s"
proof -
  let ?es = "r (trackers (shards q ! i))" and ?d = "h_dec s"
  have st: "shows_trackers L ?d q" using match by (simp add: matches_def)
  note es = pointed_entries [OF st quiet ok r i seed]
  have dec: "h_dec s' = shard_end L i (pointed ?d ?es) ?d" by (simp add: s'_def shard_done_def Let_def)
  note qe = quiet_shard_end [OF quiet es(2,4)]
  show "quiet (h_dec s')" "c_rot (h_dec s') = RotShard (Suc i)" "c_pc (h_dec s') = c_pc (h_dec s)"
    unfolding dec by (rule qe)+
  show fields: "h_attr s' = h_attr s" "h_epoch s' = h_epoch s" "h_topBuf s' = h_topBuf s"
    by (simp_all add: s'_def shard_done_def Let_def)
  have "view (h_dec s') = store_get L (shard_after L r i q)"
    using st ok view_shard_end [OF quiet_heap_ok [OF quiet] es(4)]
      shard_after_store [OF _ i r seed, of L]
    by (simp add: dec shows_trackers_def routed_def)
  moreover have "c_count (h_dec s') = trackerCount (shard_after L r i q)"
    using st by (simp add: dec shard_end_def pointed_stale [OF es(1)] shard_after_fields(2) [OF i] shows_trackers_def)
  ultimately show "matches L s' (shard_after L r i q)"
    using match qe(4) shard_after_fields(3,4) [OF i, of L r]
    by (simp add: matches_def shows_trackers_def dec rotation_frame_def same_settings_def)
       (simp add: s'_def shard_done_def Let_def)
qed

section \<open>All shards\<close>

definition between ::
  "('v, 'x, 'sk) lib \<Rightarrow> 'sk processor \<Rightarrow> nat \<Rightarrow> 'sk hot \<Rightarrow> 'sk processor \<times> offenderEntry list \<Rightarrow> bool" where
  "between L p n s run \<longleftrightarrow> matches L s (fst run) \<and> h_topBuf s = snd run \<and> quiet (h_dec s) \<and>
     h_epoch s = InShards \<and> c_rot (h_dec s) = RotShard n \<and> routed L (fst run) \<and>
     seed (fst run) = seed p \<and> cfg (fst run) = cfg p"

lemma between_shard:
  fixes p :: "'sk processor"
  assumes at: "between L p i s (q, buf)" and i: "i < unat numShards" and r: "range_ok r"
  shows "\<exists>s'. (epoch_step L p)\<^sup>*\<^sup>* s s' \<and> h_attr s' = h_attr s \<and> c_pc (h_dec s') = c_pc (h_dec s) \<and>
    between L p (Suc i) s' (rotate_shard L r (TopOffendersCount (cfg p)) i (q, buf))"
proof -
  let ?es = "r (trackers (shards q ! i))" and ?topN = "TopOffendersCount (cfg p)"
  let ?s1 = "s\<lparr>h_topBuf := collectShardDeltas ?es buf ?topN\<rparr>"
  have f: "matches L s q" "h_topBuf s = buf" "quiet (h_dec s)" "h_epoch s = InShards"
    "c_rot (h_dec s) = RotShard i" "routed L q" "seed q = seed p" "cfg q = cfg p"
    using at by (simp_all add: between_def)
  have len: "i < length (shards q)" using f(6) i by (simp add: routed_def shards_ok_def)
  have "shows_trackers L (h_dec s) q" using f(1) by (simp add: matches_def)
  note es = pointed_entries [OF this f(3,6) r len f(7)]
  have run: "(epoch_step L p)\<^sup>*\<^sup>* s (shard_done L i ?es ?s1)"
    using rotate_shard_epoch_run [OF f(3,4,5) i es(2,3,4,1)] f(2) by simp
  have m1: "matches L ?s1 q" "quiet (h_dec ?s1)" using f(1,3) by (simp_all add: matches_def)
  note after = shard_done_shows [OF m1 f(6) r len f(7)]
  have "between L p (Suc i) (shard_done L i ?es ?s1) (rotate_shard L r ?topN i (q, buf))"
    using after f(4,7,8) routed_shard_after [OF f(6) len r] shard_after_fields(3) [OF len, of L r]
    unfolding between_def rotate_shard_run [OF len] fst_conv snd_conv
    by (simp add: rotation_frame_def same_settings_def)
  with run after(4,5) show ?thesis by (intro exI [of _ "shard_done L i ?es ?s1"]) simp
qed

lemma between_shards:
  fixes p :: "'sk processor"
  assumes at: "between L p 0 s (q, buf)" and n: "n \<le> unat numShards" and r: "range_ok r"
  shows "\<exists>s'. (epoch_step L p)\<^sup>*\<^sup>* s s' \<and> h_attr s' = h_attr s \<and> c_pc (h_dec s') = c_pc (h_dec s) \<and>
    between L p n s' (fold (rotate_shard L r (TopOffendersCount (cfg p))) [0..<n] (q, buf))"
  using n
proof (induction n)
  case 0
  with at show ?case by auto
next
  case (Suc n)
  let ?run = "fold (rotate_shard L r (TopOffendersCount (cfg p))) [0..<n] (q, buf)"
  obtain s1 where s1: "(epoch_step L p)\<^sup>*\<^sup>* s s1" "h_attr s1 = h_attr s" "c_pc (h_dec s1) = c_pc (h_dec s)"
    "between L p n s1 ?run"
    using Suc by auto
  have "between L p n s1 (fst ?run, snd ?run)" using s1(4) by simp
  from between_shard [OF this _ r] Suc.prems obtain s2 where s2: "(epoch_step L p)\<^sup>*\<^sup>* s1 s2" "h_attr s2 = h_attr s1"
    "c_pc (h_dec s2) = c_pc (h_dec s1)" "between L p (Suc n) s2 (rotate_shard L r (TopOffendersCount (cfg p)) n ?run)"
    by auto
  then show ?case using s1 rtranclp_trans [OF s1(1) s2(1)] by (intro exI [of _ s2]) simp
qed

section \<open>The epilogue\<close>

definition after_shards :: "'sk processor \<times> offenderEntry list \<Rightarrow> 'sk processor" where
  "after_shards run =
     (let q = (fst run)\<lparr>rejectionWarned := False, dropsThisEpoch := 0, dropLogCount := 0\<rparr>
      in publishTopOffenders (snd run) (q\<lparr>logs := logs q @ summary_line (fst run)\<rparr>))"

lemma processor_rotate_run:
  "processor_rotate L r q = after_shards
     (fold (rotate_shard L r (TopOffendersCount (cfg q))) [0..<length (shards q)] (emit LogRotating q, []))"
  by (simp add: processor_rotate_def after_shards_def Let_def split_beta summary_line_def emit_def)

lemma shows_emit [simp]: "shows_trackers L d (emit e q) = shows_trackers L d q"
  by (rule shows_trackers_core) simp_all

lemma publish_run:
  assumes match: "matches L s q" and phase: "h_epoch s = Summarized"
  shows "\<exists>s'. (epoch_step L p)\<^sup>*\<^sup>* s s' \<and> h_epoch s' = Leaving \<and> h_dec s' = h_dec s \<and> h_attr s' = h_attr s \<and>
    matches L s' (publishTopOffenders (h_topBuf s) q)"
proof (cases "h_topBuf s = []")
  case True
  with match epoch_step.publish_none [OF phase True, of L p] show ?thesis
    by (intro exI [of _ "s\<lparr>h_epoch := Leaving\<rparr>"]) (simp add: r_into_rtranclp publishTopOffenders_def matches_def)
next
  case False
  let ?buf = "sortOffenders (h_topBuf s)"
  let ?s1 = "s\<lparr>h_topBuf := ?buf, h_topOffenders := ?buf, h_epoch := Published\<rparr>"
  let ?e = "LogTopOffender (oe_metricName (?buf ! 0)) (oe_labelKey (?buf ! 0)) (oe_delta (?buf ! 0))"
  let ?s2 = "say ?e (?s1\<lparr>h_epoch := Leaving\<rparr>)" and ?q1 = "q\<lparr>topOffenders := ?buf\<rparr>"
  have "epoch_step L p ?s1 ?s2" using epoch_step.log_top [of ?s1 L p] by simp
  then have run: "(epoch_step L p)\<^sup>*\<^sup>* s ?s2"
    using epoch_first [OF epoch_step.publish [OF phase False]] by blast
  have "matches L (?s1\<lparr>h_epoch := Leaving\<rparr>) ?q1"
    using match shows_trackers_core [of ?q1 q L "h_dec s"] by (simp add: matches_def core_def)
  from matches_say [OF this, of ?e] run False show ?thesis
    by (intro exI [of _ ?s2]) (simp add: publishTopOffenders_def Let_def)
qed

lemma epilogue_run:
  assumes match: "matches L s q" and phase: "h_epoch s = InShards" and rot: "c_rot (h_dec s) = RotShard (unat numShards)"
  shows "\<exists>s'. (epoch_step L p)\<^sup>*\<^sup>* s s' \<and> h_epoch s' = Sleeping \<and> h_dec s' = (h_dec s)\<lparr>c_rot := RotIdle\<rparr> \<and>
    h_attr s' = h_attr s \<and> matches L s' (after_shards (q, h_topBuf s))"
proof -
  let ?n = "h_dropsThisEpoch s" and ?g = "h_dropLogCount s"
  let ?s1 = "s\<lparr>h_rejectionWarned := False, h_epoch := FlagCleared\<rparr>"
  let ?s2 = "?s1\<lparr>h_dropsThisEpoch := 0, h_epoch := DropsSwapped ?n\<rparr>"
  let ?s3 = "?s2\<lparr>h_dropLogCount := 0, h_epoch := BothSwapped ?n ?g\<rparr>"
  let ?s4 = "(?s3\<lparr>h_epoch := Summarized\<rparr>)\<lparr>h_logs := h_logs s @ summary_line q\<rparr>"
  let ?q3 = "q\<lparr>rejectionWarned := False, dropsThisEpoch := 0, dropLogCount := 0\<rparr>"
  let ?q4 = "?q3\<lparr>logs := logs ?q3 @ summary_line q\<rparr>"
  have same: "?n = dropsThisEpoch q" "?g = dropLogCount q" using match by (simp_all add: matches_def)
  have steps: "epoch_step L p s ?s1" "epoch_step L p ?s1 ?s2" "epoch_step L p ?s2 ?s3"
    using epoch_step.clear_flag [OF phase rot, of L p] epoch_step.swap_drops [of ?s1 L p]
      epoch_step.swap_logged [of ?s2 ?n L p] by simp_all
  have "epoch_step L p ?s3 ?s4"
  proof (cases "0 < sint (?n - ?g)")
    case True
    then have "epoch_step L p ?s3 (say (LogSuppressed (?n - ?g) ?n) (?s3\<lparr>h_epoch := Summarized\<rparr>))"
      by (intro epoch_step.summary_some) simp_all
    moreover have "say (LogSuppressed (?n - ?g) ?n) (?s3\<lparr>h_epoch := Summarized\<rparr>) = ?s4"
      using True by (simp add: say_def summary_line_def same)
    ultimately show ?thesis by simp
  next
    case False
    then have "epoch_step L p ?s3 (?s3\<lparr>h_epoch := Summarized\<rparr>)" by (intro epoch_step.summary_none) simp_all
    moreover have "?s3\<lparr>h_epoch := Summarized\<rparr> = ?s4" using False by (simp add: summary_line_def same)
    ultimately show ?thesis by simp
  qed
  with steps have run4: "(epoch_step L p)\<^sup>*\<^sup>* s ?s4" by (meson epoch_first r_into_rtranclp)
  have "shows_trackers L (h_dec s) ?q4 = shows_trackers L (h_dec s) q"
    by (rule shows_trackers_core) (simp_all add: core_def)
  then have m4: "matches L ?s4 ?q4" using match by (simp add: matches_def)
  from publish_run [OF this, of p] obtain s5 where s5: "(epoch_step L p)\<^sup>*\<^sup>* ?s4 s5" "h_epoch s5 = Leaving"
    "h_dec s5 = h_dec s" "h_attr s5 = h_attr s" "matches L s5 (publishTopOffenders (h_topBuf s) ?q4)" by auto
  let ?s6 = "s5\<lparr>h_dec := (h_dec s)\<lparr>c_rot := RotIdle\<rparr>, h_epoch := Sleeping\<rparr>"
  have "rotator_step L p (h_dec s5) ((h_dec s5)\<lparr>c_rot := RotIdle\<rparr>)"
    by (rule rotator_step.rot_end) (simp add: s5(3) rot)
  then have "epoch_step L p s5 ?s6" using epoch_step.sleep [OF s5(2)] s5(3) by metis
  with rtranclp_trans [OF run4 s5(1)] have "(epoch_step L p)\<^sup>*\<^sup>* s ?s6" by (rule epoch_next)
  moreover have "matches L ?s6 (after_shards (q, h_topBuf s))"
    using s5(3,5) by (simp add: after_shards_def Let_def matches_def shows_trackers_def view_def fun_eq_iff)
  ultimately show ?thesis using s5(4) by (intro exI [of _ ?s6]) simp
qed

text \<open>From its start to the last shard.\<close>

lemma run_to_epilogue:
  fixes q :: "'sk processor" and r :: "'sk range_order"
  assumes "matches L s q" and "quiet (h_dec s)" and "h_epoch s = Sleeping" and "c_rot (h_dec s) = RotIdle"
    and "routed L q" and "seed q = seed p" and "cfg q = cfg p" and "range_ok r"
  shows "\<exists>s'. (epoch_step L p)\<^sup>*\<^sup>* s s' \<and> h_attr s' = h_attr s \<and> c_pc (h_dec s') = c_pc (h_dec s) \<and>
    between L p (unat numShards) s'
      (fold (rotate_shard L r (TopOffendersCount (cfg p))) [0..<unat numShards] (emit LogRotating q, []))"
proof -
  let ?s0 = "s\<lparr>h_dec := (h_dec s)\<lparr>c_rot := RotShard 0\<rparr>, h_topBuf := [], h_epoch := InShards\<rparr>"
  have wake: "epoch_step L p s (say LogRotating ?s0)"
    by (rule epoch_step.wake [OF assms(3,4) rotator_step.rot_begin [OF assms(4)]])
  have "matches L ?s0 q" using assms(1) by (simp add: matches_def shows_trackers_def view_def fun_eq_iff)
  then have "matches L (say LogRotating ?s0) (emit LogRotating q)" by (rule matches_say)
  moreover have "routed L (emit LogRotating q)" using assms(5) routed_core [of "emit LogRotating q" q L] by simp
  ultimately have "between L p 0 (say LogRotating ?s0) (emit LogRotating q, [])"
    using assms(2,6,7) by (simp add: between_def quiet_def emit_def)
  from between_shards [OF this order_refl assms(8)] epoch_first [OF wake] show ?thesis by auto
qed

text \<open>
  The rotation refines its sequential model: undisturbed, it leads from a state that shows a
  processor to one that shows the processor after \<open>rotate\<close>, in the trackers, every counter, the
  flag, the published offenders and the log, for every order in which the maps of the shards
  may be visited; the goroutines are where they were.
\<close>

lemma undisturbed_rotation_refines:
  fixes q :: "'sk processor" and r :: "'sk range_order"
  assumes "matches L s q" and "quiet (h_dec s)" and "h_epoch s = Sleeping" and "c_rot (h_dec s) = RotIdle"
    and "routed L q" and "seed q = seed p" and "cfg q = cfg p" and "range_ok r"
  shows "\<exists>s'. (epoch_step L p)\<^sup>*\<^sup>* s s' \<and> matches L s' (processor_rotate L r q) \<and> quiet (h_dec s') \<and>
    h_epoch s' = Sleeping \<and> c_rot (h_dec s') = RotIdle \<and> h_attr s' = h_attr s \<and>
    c_pc (h_dec s') = c_pc (h_dec s)"
proof -
  let ?run = "fold (rotate_shard L r (TopOffendersCount (cfg p))) [0..<unat numShards] (emit LogRotating q, [])"
  from run_to_epilogue [OF assms] obtain s1 where s1:
    "(epoch_step L p)\<^sup>*\<^sup>* s s1" "h_attr s1 = h_attr s" "c_pc (h_dec s1) = c_pc (h_dec s)"
    "between L p (unat numShards) s1 ?run" by blast
  from s1(4) have b: "matches L s1 (fst ?run)" "h_topBuf s1 = snd ?run" "quiet (h_dec s1)" "h_epoch s1 = InShards"
    "c_rot (h_dec s1) = RotShard (unat numShards)" by (simp_all add: between_def)
  from epilogue_run [OF b(1,4,5)] obtain s2 where s2: "(epoch_step L p)\<^sup>*\<^sup>* s1 s2" "h_epoch s2 = Sleeping"
    "h_dec s2 = (h_dec s1)\<lparr>c_rot := RotIdle\<rparr>" "h_attr s2 = h_attr s1" "matches L s2 (after_shards (fst ?run, h_topBuf s1))"
    by blast
  have "length (shards q) = unat numShards" using assms(5) by (simp add: routed_def shards_ok_def)
  then have "processor_rotate L r q = after_shards ?run" by (simp add: processor_rotate_run assms(7))
  moreover have "(epoch_step L p)\<^sup>*\<^sup>* s s2" using s1(1) s2(1) by (rule rtranclp_trans)
  ultimately show ?thesis
    using s1(2,3) s2(2-5) b(2,3) by (intro exI [of _ s2]) (simp add: quiet_def)
qed

section \<open>Sequential histories\<close>

text \<open>
  At rest: no goroutine is inside a callback and the rotation sleeps. Every sequence of
  attributes and epochs, each run to its end, is one of the interleavings.
\<close>

definition at_rest :: "('v, 'x, 'sk) lib \<Rightarrow> 'sk processor \<Rightarrow> 'sk hot \<Rightarrow> 'sk processor \<Rightarrow> bool" where
  "at_rest L p s q \<longleftrightarrow> matches L s q \<and> quiet (h_dec s) \<and> h_epoch s = Sleeping \<and> c_rot (h_dec s) = RotIdle \<and>
     h_attr s = (\<lambda>_. Deciding) \<and> c_pc (h_dec s) = (\<lambda>_. Idle) \<and> routed L q \<and> seed q = seed p \<and> cfg q = cfg p"

definition after_attribute ::
  "('v, 'x, 'sk) lib \<Rightarrow> string \<Rightarrow> enforcement_mode \<Rightarrow> string \<times> 'v \<Rightarrow> 'sk processor \<Rightarrow> 'sk processor" where
  "after_attribute L m mode kv q = fst (snd (attr_callback L m mode kv (q, False, [])))"

lemma at_rest_initial: "at_rest L (make_processor L c sd) initial_hot (make_processor L c sd)"
proof -
  have "view initial_conc = store_get L (make_processor L c sd)"
    by (simp add: view_def initial_conc_def fun_eq_iff)
  moreover have "routed L (make_processor L c sd)"
    by (simp add: routed_def) (simp add: make_processor_def)
  ultimately show ?thesis
    by (simp add: at_rest_def matches_def shows_trackers_def initial_hot_def)
       (simp add: initial_conc_def make_processor_def quiet_def)
qed

lemma at_rest_attribute:
  assumes rest: "at_rest L p s q"
  shows "\<exists>s'. (attr_step L p t)\<^sup>*\<^sup>* s s' \<and> at_rest L p s' (after_attribute L m mode kv q)"
proof (cases "isProtected q (fst kv)")
  case True
  then have "after_attribute L m mode kv q = q"
    by (simp add: after_attribute_def attr_callback_def split_beta)
  with rest show ?thesis by auto
next
  case False
  let ?q' = "after_attribute L m mode kv q"
  have kv: "(fst kv, snd kv) = kv" by simp
  from rest have a: "matches L s q" "quiet (h_dec s)" "c_pc (h_dec s) t = Idle" "h_attr s t = Deciding"
    "shards_ok q" "cfg q = cfg p" by (simp_all add: at_rest_def routed_def)
  from undisturbed_callback_refines [OF a False, of m mode "snd kv" False "[]"]
  obtain s' where s': "(attr_step L p t)\<^sup>*\<^sup>* s s'" "matches L s' ?q'" "quiet (h_dec s')"
    "c_pc (h_dec s') = c_pc (h_dec s)" "h_attr s' = h_attr s"
    by (auto simp: after_attribute_def)
  have frame: "h_epoch s' = h_epoch s \<and> c_rot (h_dec s') = c_rot (h_dec s)"
    using s'(1) by (induction rule: rtranclp_induct) (simp_all add: attr_step_frame(1,2))
  have "same_settings q ?q'" "routed L ?q'"
    using settings_contract.callback_R [of q L m mode kv False "[]"] routed_contract.callback_R [of L q m mode kv False "[]"]
      rest by (simp_all add: after_attribute_def at_rest_def)
  with s' frame rest show ?thesis
    by (intro exI [of _ s']) (simp add: at_rest_def same_settings_def)
qed

lemma at_rest_rotate:
  assumes rest: "at_rest L p s q" and r: "range_ok r"
  shows "\<exists>s'. (epoch_step L p)\<^sup>*\<^sup>* s s' \<and> at_rest L p s' (processor_rotate L r q)"
proof -
  from rest have a: "matches L s q" "quiet (h_dec s)" "h_epoch s = Sleeping" "c_rot (h_dec s) = RotIdle"
    "routed L q" "seed q = seed p" "cfg q = cfg p" by (simp_all add: at_rest_def)
  from undisturbed_rotation_refines [OF a r] obtain s' where
    "(epoch_step L p)\<^sup>*\<^sup>* s s'" "matches L s' (processor_rotate L r q)" "quiet (h_dec s')"
    "h_epoch s' = Sleeping" "c_rot (h_dec s') = RotIdle" "h_attr s' = h_attr s" "c_pc (h_dec s') = c_pc (h_dec s)"
    by blast
  with rest routed_rotate [OF a(5) r] show ?thesis
    by (intro exI [of _ s']) (simp add: at_rest_def rotate_settings)
qed

lemma hot_attr_run: "(attr_step L p t)\<^sup>*\<^sup>* s s' \<Longrightarrow> hot_reachable L p s \<Longrightarrow> hot_reachable L p s'"
  by (induction rule: rtranclp_induct) (blast intro: hot_reachable.hot_next hot_step.goroutine)+

lemma hot_epoch_run: "(epoch_step L p)\<^sup>*\<^sup>* s s' \<Longrightarrow> hot_reachable L p s \<Longrightarrow> hot_reachable L p s'"
  by (induction rule: rtranclp_induct) (blast intro: hot_reachable.hot_next hot_step.rotation)+

text \<open>An attribute that goroutine \<open>t\<close> judges in some mode, or an epoch with its map orders.\<close>

datatype ('v, 'sk) event = Attribute nat string enforcement_mode "string \<times> 'v" | Epoch "'sk range_order"

fun apply_event :: "('v, 'x, 'sk) lib \<Rightarrow> ('v, 'sk) event \<Rightarrow> 'sk processor \<Rightarrow> 'sk processor" where
  "apply_event L (Attribute t m mode kv) q = after_attribute L m mode kv q"
| "apply_event L (Epoch r) q = processor_rotate L r q"

fun event_ok :: "('v, 'sk) event \<Rightarrow> bool" where
  "event_ok (Attribute t m mode kv) = True"
| "event_ok (Epoch r) = range_ok r"

lemma hot_event:
  assumes "hot_reachable L p s" and "at_rest L p s q" and "event_ok ev"
  shows "\<exists>s'. hot_reachable L p s' \<and> at_rest L p s' (apply_event L ev q)"
proof (cases ev)
  case (Attribute t m mode kv)
  with at_rest_attribute [OF assms(2), of t m mode kv] hot_attr_run [OF _ assms(1)] show ?thesis by auto
next
  case (Epoch r)
  with assms(3) have "range_ok r" by simp
  with Epoch at_rest_rotate [OF assms(2), of r] hot_epoch_run [OF _ assms(1)] show ?thesis by auto
qed

lemma hot_events:
  assumes "hot_reachable L p s" and "at_rest L p s q" and "list_all event_ok evs"
  shows "\<exists>s'. hot_reachable L p s' \<and> at_rest L p s' (fold (apply_event L) evs q)"
  using assms
proof (induction evs arbitrary: s q)
  case (Cons ev evs)
  then obtain s1 where "hot_reachable L p s1" "at_rest L p s1 (apply_event L ev q)"
    using hot_event [of L p s q ev] by auto
  with Cons.IH [of s1 "apply_event L ev q"] Cons.prems(3) show ?case by simp
qed auto

section \<open>A concrete history\<close>

text \<open>Two values of one label, the second over its limit, and the end of the epoch.\<close>

definition demo_events :: "(string, u64 list) event list" where
  "demo_events =
     [Attribute 0 ''m'' EnforcementStripAndReaggregate (''k'', ''a''),
      Attribute 2 ''m'' EnforcementStripAndReaggregate (''k'', ''b''), Epoch rev]"

definition capped_processor :: "u64 list processor" where
  "capped_processor = make_processor ref_lib capped_config 7"

lemma demo_events_ok: "list_all event_ok demo_events"
  by (simp add: demo_events_def range_ok_rev)

lemma demo_history:
  "map (\<lambda>e. (pair_of e, oe_delta e)) (topOffenders (fold (apply_event ref_lib) demo_events capped_processor))
     = [((''m'', ''k''), 2)] \<and>
   drop_line (logs (fold (apply_event ref_lib) demo_events capped_processor) ! 0)"
  by code_simp

end
