(* ===== verification/Published_Offenders.thy ===== *)
theory Published_Offenders
  imports Undisturbed_Rotation
begin

text \<open>
  The list of top offenders under interleaving: whatever goroutines do to the trackers between
  the snapshot of a shard, the reading of its deltas and the publication, the published list
  is in order, within its bound, and names no pair twice.
\<close>

section \<open>What is in the buffer has been read\<close>

definition pair_key :: "offenderEntry \<Rightarrow> trackerKey" where
  "pair_key e = TrackerKey (oe_metricName e) (oe_labelKey e)"

text \<open>The keys whose turn is over, from where the rotation is.\<close>

fun rot_shard :: "rotator_pc \<Rightarrow> nat option" where
  "rot_shard (RotEntries i es stale) = Some i"
| "rot_shard (RotEvict i keys) = Some i"
| "rot_shard (RotDecrement i keys) = Some i"
| "rot_shard _ = None"

definition read_before ::
  "('v, 'x, 'sk) lib \<Rightarrow> 'sk processor \<Rightarrow> epoch_pc \<Rightarrow> rotator_pc \<Rightarrow> trackerKey \<Rightarrow> bool" where
  "read_before L p ph q key \<longleftrightarrow>
     (\<forall>i. q = RotShard i \<longrightarrow> shard_of L p key < i) \<and>
     (\<forall>i. rot_shard q = Some i \<longrightarrow> shard_of L p key \<le> i) \<and>
     (\<forall>es. ph = Collecting es \<longrightarrow> key \<notin> fst ` set es)"

definition collecting_ok :: "('v, 'x, 'sk) lib \<Rightarrow> 'sk processor \<Rightarrow> 'sk hot \<Rightarrow> bool" where
  "collecting_ok L p s \<longleftrightarrow> (\<forall>es. h_epoch s = Collecting es \<longrightarrow>
     0 < sint (TopOffendersCount (cfg p)) \<and> distinct (map fst es) \<and>
     (\<exists>i. rot_shard (c_rot (h_dec s)) = Some i \<and> (\<forall>key \<in> fst ` set es. shard_of L p key = i)))"

definition within_bound :: "'sk processor \<Rightarrow> offenderEntry list \<Rightarrow> bool" where
  "within_bound p es \<longleftrightarrow> distinct (map pair_of es) \<and> (\<forall>e \<in> set es. 0 < oe_delta e) \<and>
     int (length es) \<le> max 0 (sint (TopOffendersCount (cfg p)))"

definition buffer_inv :: "('v, 'x, 'sk) lib \<Rightarrow> 'sk processor \<Rightarrow> 'sk hot \<Rightarrow> bool" where
  "buffer_inv L p s \<longleftrightarrow>
     (\<forall>e \<in> set (h_topBuf s). read_before L p (h_epoch s) (c_rot (h_dec s)) (pair_key e)) \<and>
     within_bound p (h_topBuf s) \<and> collecting_ok L p s \<and>
     within_bound p (h_topOffenders s) \<and> descending (h_topOffenders s)"

section \<open>One entry\<close>

lemma offer_within:
  assumes n: "0 < n" and len: "length buf \<le> n" and dist: "distinct (map pair_of buf)"
    and new: "pair_of c \<notin> pair_of ` set buf"
  shows "distinct (map pair_of (offer n c buf))" and "length (offer n c buf) \<le> n"
    and "set (offer n c buf) \<subseteq> insert c (set buf)"
proof -
  show "length (offer n c buf) \<le> n" using len by (simp add: offer_def)
  show "set (offer n c buf) \<subseteq> insert c (set buf)"
    using set_update_subset_insert [of buf "min_index buf" c] by (auto simp: offer_def)
  have "distinct ((map pair_of buf)[i := pair_of c])" for i
    using dist new by (intro distinct_list_update) auto
  then show "distinct (map pair_of (offer n c buf))"
    using dist new by (simp add: offer_def map_update)
qed

lemma collect_within:
  fixes tr :: "'sk tracker"
  assumes n: "0 < sint (TopOffendersCount (cfg p))" and buf: "within_bound p buf"
    and new: "key \<notin> pair_key ` set buf"
  defines "buf' \<equiv> collect_entry (TopOffendersCount (cfg p)) (key, tr) buf"
  shows "within_bound p buf'" and "\<forall>e \<in> set buf'. e \<in> set buf \<or> pair_key e = key"
proof -
  let ?n = "nat (sint (TopOffendersCount (cfg p)))" and ?c = "offender key (cachedCurr tr - cachedPrev tr)"
  have pair: "pair_key e = pair_key e' \<longleftrightarrow> pair_of e = pair_of e'" for e e'
    by (auto simp: pair_key_def pair_of_def)
  have key: "pair_key ?c = key" by (simp add: pair_key_def offender_def)
  have "pair_of ?c \<notin> pair_of ` set buf"
  proof
    assume "pair_of ?c \<in> pair_of ` set buf"
    then obtain e where "e \<in> set buf" "pair_key e = pair_key ?c" using pair by auto
    with new key show False by auto
  qed
  note o = offer_within [OF _ _ _ this, of ?n]
  have len: "length buf \<le> ?n" "distinct (map pair_of buf)" "\<forall>e \<in> set buf. 0 < oe_delta e"
    using buf n by (simp_all add: within_bound_def le_nat_iff)
  have "0 < oe_delta ?c" if "cachedPrev tr < cachedCurr tr"
    using that by (simp add: offender_def word_gt_0)
  note pos = this
  have n': "0 < ?n" using n by simp
  note o = o [OF n' len(1,2)]
  have "\<forall>e \<in> set (offer ?n ?c buf). 0 < oe_delta e" if "cachedPrev tr < cachedCurr tr"
    using o(3) len(3) pos [OF that] by blast
  with o(1,2) n have "within_bound p (offer ?n ?c buf)" if "cachedPrev tr < cachedCurr tr"
    using that by (simp add: within_bound_def le_nat_iff)
  with buf show "within_bound p buf'" unfolding buf'_def collect_entry_offer by simp
  show "\<forall>e \<in> set buf'. e \<in> set buf \<or> pair_key e = key"
    using o(3) key unfolding buf'_def collect_entry_offer by (cases "cachedPrev tr < cachedCurr tr") auto
qed

section \<open>The invariant\<close>

text \<open>The rotator only moves forward over the shards.\<close>

lemma rotator_forward:
  assumes "rotator_step L p d d'" and "c_rot d \<noteq> RotIdle"
    and "read_before L p ph (c_rot d) key" and "\<forall>es. ph' \<noteq> Collecting es"
  shows "read_before L p ph' (c_rot d') key"
  using assms by cases (auto simp: read_before_def)

lemma buffer_inv_move:
  assumes inv: "buffer_inv L p s" and same: "h_topBuf s' = h_topBuf s" "h_topOffenders s' = h_topOffenders s"
    and phase: "\<forall>es. h_epoch s' \<noteq> Collecting es"
    and fwd: "\<And>key. read_before L p (h_epoch s) (c_rot (h_dec s)) key \<Longrightarrow>
      read_before L p (h_epoch s') (c_rot (h_dec s')) key"
  shows "buffer_inv L p s'"
  using assms by (simp add: buffer_inv_def collecting_ok_def)

lemma buffer_inv_rotator:
  assumes inv: "buffer_inv L p s" and same: "h_topBuf s' = h_topBuf s" "h_topOffenders s' = h_topOffenders s"
    and phase: "\<forall>es. h_epoch s' \<noteq> Collecting es"
    and step: "rotator_step L p (h_dec s) (h_dec s')" and awake: "c_rot (h_dec s) \<noteq> RotIdle"
  shows "buffer_inv L p s'"
  by (rule buffer_inv_move [OF inv same phase rotator_forward [OF step awake _ phase]])

lemma buffer_inv_collect:
  assumes inv: "buffer_inv L p s" and ph: "h_epoch s = Collecting ((key, a) # es)"
  shows "buffer_inv L p (s\<lparr>h_topBuf := collect_entry (TopOffendersCount (cfg p)) (key, tr) (h_topBuf s),
    h_epoch := Collecting es\<rparr>)"
proof -
  let ?buf = "h_topBuf s" and ?q = "c_rot (h_dec s)"
  have c: "0 < sint (TopOffendersCount (cfg p))" "distinct (map fst ((key, a) # es))"
    "\<exists>i. rot_shard ?q = Some i \<and> (\<forall>key' \<in> fst ` set ((key, a) # es). shard_of L p key' = i)"
    using inv ph unfolding buffer_inv_def collecting_ok_def by blast+
  have read: "read_before L p (Collecting ((key, a) # es)) ?q (pair_key e)" if "e \<in> set ?buf" for e
    using inv ph that by (simp add: buffer_inv_def)
  then have new: "key \<notin> pair_key ` set ?buf" by (auto simp: read_before_def)
  have "within_bound p ?buf" using inv by (simp add: buffer_inv_def)
  note collected = collect_within [OF c(1) this new, of tr]
  have "read_before L p (Collecting es) ?q (pair_key e)" if "e \<in> set ?buf \<or> pair_key e = key" for e
    using that
  proof
    assume "e \<in> set ?buf"
    from read [OF this] show ?thesis by (auto simp: read_before_def)
  next
    assume "pair_key e = key"
    moreover have "key \<notin> fst ` set es" using c(2) by auto
    ultimately show ?thesis using c(3) by (cases ?q) (auto simp: read_before_def)
  qed
  with collected c inv show ?thesis
    by (auto simp: buffer_inv_def collecting_ok_def)
qed

lemma within_sort: "within_bound p buf \<Longrightarrow> within_bound p (sortOffenders buf)"
proof -
  assume buf: "within_bound p buf"
  have perm: "mset (sortOffenders buf) = mset buf" by (rule sortOffenders_spec)
  then have "distinct (map pair_of (sortOffenders buf))"
    using buf by (simp add: within_bound_def distinct_submset [of _ buf])
  moreover have "set (sortOffenders buf) = set buf" "length (sortOffenders buf) = length buf"
    by (rule mset_eq_setD [OF perm], rule mset_eq_length [OF perm])
  ultimately show ?thesis using buf by (simp add: within_bound_def)
qed

lemma set_sort [simp]: "set (sortOffenders buf) = set buf"
  by (rule mset_eq_setD) (rule sortOffenders_spec(1))

lemma epoch_buffer_inv:
  assumes step: "epoch_step L p s s'" and inv: "buffer_inv L p s" and sync: "epoch_inv s"
  shows "buffer_inv L p s'"
  using step
proof cases
  case (wake d)
  from wake(4,3) have "c_rot d = RotShard 0" by cases auto
  with wake(1) inv show ?thesis by (simp add: buffer_inv_def within_bound_def collecting_ok_def)
next
  case (snapshot d i es)
  let ?ph = "if sint (TopOffendersCount (cfg p)) \<le> 0 then InShards else Collecting es"
  from snapshot(3,4,5) have es: "distinct (map fst es)" "\<forall>key \<in> fst ` set es. shard_of L p key = i"
    by (cases; force)+
  have "read_before L p ?ph (c_rot d) key" if "read_before L p (h_epoch s) (c_rot (h_dec s)) key" for key
    using that snapshot(4,5) es(2) by (fastforce simp: read_before_def)
  with inv snapshot(1,5) es show ?thesis
    by (auto simp: buffer_inv_def collecting_ok_def)
next
  case (collect key a es tr)
  from buffer_inv_collect [OF inv collect(2), of tr] collect(1) show ?thesis by simp
next
  case collected
  then show ?thesis by (intro buffer_inv_move [OF inv]) (simp_all add: read_before_def)
next
  case (publish)
  with inv show ?thesis
    using sortOffenders_spec(2) within_sort
    by (auto simp: buffer_inv_def collecting_ok_def read_before_def)
next
  case (rotate_one i e es stale d)
  then show ?thesis by (intro buffer_inv_rotator [OF inv]) simp_all
next
  case (none_stale i d)
  then show ?thesis by (intro buffer_inv_rotator [OF inv]) simp_all
next
  case (some_stale i stale d)
  then show ?thesis by (intro buffer_inv_rotator [OF inv]) simp_all
next
  case (evict n d)
  with sync show ?thesis by (intro buffer_inv_rotator [OF inv]) (auto simp: epoch_inv_def)
next
  case (evict_unlock n d i)
  with sync show ?thesis by (intro buffer_inv_rotator [OF inv]) (auto simp: epoch_inv_def)
next
  case (sleep d)
  with sync show ?thesis by (intro buffer_inv_rotator [OF inv]) (auto simp: epoch_inv_def)
qed (use inv in \<open>auto simp: buffer_inv_def collecting_ok_def read_before_def\<close>)

lemma hot_buffer_inv:
  assumes "hot_reachable L p s"
  shows "buffer_inv L p s"
  using assms
proof induction
  case hot_initial
  show ?case
    by (simp add: buffer_inv_def initial_hot_def within_bound_def collecting_ok_def descending_def)
next
  case (hot_next s s')
  from hot_next(2) show ?case
  proof cases
    case (goroutine t)
    from attr_step_frame(1-4) [OF goroutine] hot_next(3) show ?thesis
      by (simp add: buffer_inv_def collecting_ok_def)
  next
    case rotation
    with hot_next(1,3) show ?thesis using epoch_buffer_inv hot_reachable_inv by blast
  qed
qed

section \<open>Properties\<close>

text \<open>
  C15. What an observer may see at any moment, under any interleaving: the published offenders are
  in descending order, all have grown, no (metric, label) pair is listed twice (so no point
  of the gauge hides another), and there are at most \<open>TopOffendersCount\<close> of them.
\<close>

theorem published_offenders_well_formed:
  assumes "hot_reachable L p s"
  shows "sorted_wrt (\<lambda>a b. oe_delta b \<le> oe_delta a) (h_topOffenders s) \<and>
    (\<forall>e \<in> set (h_topOffenders s). 0 < oe_delta e) \<and>
    distinct (map (\<lambda>e. (oe_metricName e, oe_labelKey e)) (h_topOffenders s)) \<and>
    int (length (h_topOffenders s)) \<le> max 0 (sint (TopOffendersCount (cfg p)))"
  using hot_buffer_inv [OF assms]
  by (simp add: buffer_inv_def within_bound_def descending_def pair_of_def [abs_def])

section \<open>Witness\<close>

theorem published_offenders_well_formed_witness:
  "\<exists>s. hot_reachable ref_lib capped_processor s \<and> h_topOffenders s \<noteq> [] \<and>
     (\<forall>e \<in> set (h_topOffenders s). 0 < oe_delta e) \<and> int (length (h_topOffenders s)) \<le> 10"
proof -
  obtain s where reach: "hot_reachable ref_lib capped_processor s"
    and rest: "at_rest ref_lib capped_processor s (fold (apply_event ref_lib) demo_events capped_processor)"
    using hot_events [OF hot_reachable.hot_initial at_rest_initial demo_events_ok, of ref_lib capped_config 7]
    unfolding capped_processor_def by blast
  have "topOffenders (fold (apply_event ref_lib) demo_events capped_processor) \<noteq> []"
    using demo_history by auto
  with rest have "h_topOffenders s \<noteq> []" by (simp add: at_rest_def matches_def)
  moreover have "sint (TopOffendersCount (cfg capped_processor)) = 10"
    by (simp add: capped_processor_def capped_config_def createDefaultConfig_def)
  ultimately show ?thesis
    using published_offenders_well_formed [OF reach] reach by auto
qed

end
