(* ===== verification/Concurrent_Counters.thy ===== *)
theory Concurrent_Counters
  imports Published_Offenders
begin

text \<open>
  The counters of the callback under interleaving: what the cap of the drop log and the warning
  flag guarantee between two resets, and what the suppression summary really counts.
\<close>

section \<open>Goroutines between the two additions\<close>

text \<open>Those that have counted their drop and not yet asked the log's cap.\<close>

definition in_flight :: "'sk hot \<Rightarrow> nat" where
  "in_flight s = card {t. \<exists>key. h_attr s t = Counted key}"

definition balanced :: "'sk hot \<Rightarrow> bool" where
  "balanced s \<longleftrightarrow> h_dropsThisEpoch s - h_dropLogCount s = of_nat (in_flight s)"

text \<open>Up to the first swap: no rotation has begun, or the first one has not reached its swaps.\<close>

definition rotations :: "'sk hot \<Rightarrow> nat" where
  "rotations s = length (filter (\<lambda>e. e = LogRotating) (h_logs s))"

fun before_swaps :: "epoch_pc \<Rightarrow> bool" where
  "before_swaps InShards = True"
| "before_swaps (Collecting es) = True"
| "before_swaps (Evicting n) = True"
| "before_swaps (Evicted n) = True"
| "before_swaps FlagCleared = True"
| "before_swaps _ = False"

definition first_epoch :: "'sk hot \<Rightarrow> bool" where
  "first_epoch s \<longleftrightarrow> rotations s = 0 \<or> rotations s = 1 \<and> before_swaps (h_epoch s)"

definition balance_inv :: "'sk hot \<Rightarrow> bool" where
  "balance_inv s \<longleftrightarrow> (rotations s = 0 \<longrightarrow> h_epoch s = Sleeping) \<and> (first_epoch s \<longrightarrow> balanced s)"

lemma in_flight_moved:
  assumes "h_attr s' = (h_attr s)(t := q)" and "finite (past_decision s)"
  shows "in_flight s' + of_bool (\<exists>key. h_attr s t = Counted key) = in_flight s + of_bool (\<exists>key. q = Counted key)"
proof -
  have "finite {u. \<exists>key. h_attr s u = Counted key}"
    using finite_at [OF assms(2), of "\<lambda>q. \<exists>key. q = Counted key"] by simp
  then show ?thesis
    unfolding in_flight_def assms(1) by (rule card_upd [where P = "\<lambda>q. \<exists>key. q = Counted key" and f = "h_attr s"])
qed

lemma balanced_attr:
  assumes step: "attr_step L p t s s'" and fin: "finite (past_decision s)" and cap: "DropLogMaxPerEpoch (cfg p) \<noteq> 0"
    and bal: "balanced s"
  shows "balanced s'"
proof -
  note moved = in_flight_moved [OF attr_step_attr [OF step] fin]
  from step show ?thesis
  proof cases
    case (count_drop key)
    then have "in_flight s' = Suc (in_flight s)" using moved by simp
    with bal count_drop show ?thesis by (simp add: balanced_def algebra_simps)
  next
    case (capped key)
    then have "in_flight s = Suc (in_flight s')" using moved by (simp split: if_splits)
    with bal capped show ?thesis by (simp add: balanced_def algebra_simps)
  qed (use moved cap bal in \<open>auto simp: balanced_def split: if_splits\<close>)
qed

lemma attr_rotations: "attr_step L p t s s' \<Longrightarrow> rotations s' = rotations s"
  by (induction rule: attr_step.induct) (simp_all add: rotations_def)

lemma epoch_balance:
  assumes step: "epoch_step L p s s'" and inv: "balance_inv s"
  shows "balance_inv s'"
  using step by cases
    (use inv in \<open>auto simp: balance_inv_def first_epoch_def balanced_def in_flight_def rotations_def\<close>)

lemma hot_balance_inv:
  assumes "hot_reachable L p s" and cap: "DropLogMaxPerEpoch (cfg p) \<noteq> 0"
  shows "balance_inv s"
  using assms(1)
proof induction
  case hot_initial
  show ?case
    by (simp add: balance_inv_def initial_hot_def rotations_def balanced_def in_flight_def)
next
  case (hot_next s s')
  from hot_next(2) show ?case
  proof cases
    case (goroutine t)
    have "finite (past_decision s)" using hot_reachable_inv [OF hot_next(1)] by (simp add: attr_inv_def)
    from balanced_attr [OF goroutine this cap] attr_rotations [OF goroutine] attr_step_frame(2) [OF goroutine]
    show ?thesis using hot_next(3) by (auto simp: balance_inv_def first_epoch_def)
  next
    case rotation
    then show ?thesis using hot_next(3) by (rule epoch_balance)
  qed
qed

text \<open>
  What goroutines do between the two swaps of a rotation; \<open>n\<close> counts those that ask the log's
  cap there.
\<close>

inductive swap_gap ::
  "('v, 'x, 'sk) lib \<Rightarrow> 'sk processor \<Rightarrow> nat \<Rightarrow> 'sk hot \<Rightarrow> 'sk hot \<Rightarrow> bool"
  for L p where
  gap_none: "swap_gap L p 0 s s"
| gap_step: "swap_gap L p n s s' \<Longrightarrow> attr_step L p t s' s'' \<Longrightarrow>
     swap_gap L p (n + of_bool (\<exists>key. h_attr s' t = Counted key)) s s''"

lemma asks_counted:
  assumes "attr_step L p t s s'" and cap: "DropLogMaxPerEpoch (cfg p) \<noteq> 0"
  shows "h_dropLogCount s' = h_dropLogCount s + of_bool (\<exists>key. h_attr s t = Counted key)"
  using assms(1) by cases (use cap in simp_all)

lemma swap_gap_counts:
  assumes "swap_gap L p n s s'" and cap: "DropLogMaxPerEpoch (cfg p) \<noteq> 0"
  shows "h_dropLogCount s' = h_dropLogCount s + of_nat n \<and> h_epoch s' = h_epoch s"
  using assms(1)
proof induction
  case (gap_step n s s' t s'')
  with asks_counted [OF gap_step(2) cap] attr_step_frame(2) [OF gap_step(2)]
  show ?case by (simp add: add.assoc)
qed simp

section \<open>Properties\<close>

text \<open>
  C16. The cap of the drop log holds under any interleaving: from the moment its counter was reset
  until it is swapped again, the lines granted (written, or being written by a goroutine that
  the counter let through) are the drops that asked, cut at \<open>DropLogMaxPerEpoch\<close>; no update
  of the counter is lost.
\<close>

theorem concurrent_drop_lines_follow_the_cap:
  assumes "hot_reachable L p s0" and "h_dropLogCount s0 = 0" and "DropLogMaxPerEpoch (cfg p) \<noteq> 0"
    and "(log_window L p ^^ k) s0 s" and "k < 2 ^ 63"
  shows "granted_lines s = granted_lines s0 +
    min (nat (sint (DropLogMaxPerEpoch (cfg p)))) (unat (h_dropLogCount s))"
proof -
  from log_window_run [OF assms(4) _ assms(2,5,3)] hot_reachable_inv [OF assms(1)]
  obtain n where n: "n \<le> k" "h_dropLogCount s = of_nat n"
    "granted_lines s = granted_lines s0 + min (nat (sint (DropLogMaxPerEpoch (cfg p)))) n" by blast
  have "unat (h_dropLogCount s) = n"
    using n(1) assms(5) unfolding n(2) by (intro unat_of_nat_u64) simp
  with n(3) show ?thesis by simp
qed

text \<open>
  C17. Between two resets of the flag the tracker-limit warning is granted at most once, however
  many goroutines are rejected at the same time, and it is granted if the flag is set.
\<close>

theorem one_rejection_warning_per_reset:
  assumes "hot_reachable L p s0" and "\<not> h_rejectionWarned s0" and "(flag_window L p)\<^sup>*\<^sup>* s0 s"
  shows "granted_warnings s = granted_warnings s0 + (if h_rejectionWarned s then 1 else 0)"
  using flag_window_run [OF assms(3)] hot_reachable_inv [OF assms(1)] assms(2) by simp

text \<open>
  C30. With a cap, the number that the first rotation reports as suppressed has nothing to do with
  the lines that were suppressed: it is the number of goroutines that stood between the two
  additions of the callback at the first of the two swaps, less those that ask the cap before
  the second swap, whoever runs in between.
\<close>

theorem summary_counts_goroutines_in_flight:
  assumes "hot_reachable L p s" and "DropLogMaxPerEpoch (cfg p) \<noteq> 0"
    and "rotations s = 1" and "h_epoch s = FlagCleared"
    and "epoch_step L p s s1" and "swap_gap L p n s1 s2" and "epoch_step L p s2 s3"
  shows "\<exists>totalDrops logged. h_epoch s3 = BothSwapped totalDrops logged \<and>
    totalDrops - logged = of_int (int (card {t. \<exists>key. h_attr s t = Counted key}) - int n)"
proof -
  have bal: "h_dropsThisEpoch s - h_dropLogCount s = of_nat (in_flight s)"
    using hot_balance_inv [OF assms(1,2)] assms(3,4) by (simp add: balance_inv_def first_epoch_def balanced_def)
  have "h_epoch s1 = DropsSwapped (h_dropsThisEpoch s)" "h_dropLogCount s1 = h_dropLogCount s"
    using assms(5) by (cases; simp add: assms(4))+
  with swap_gap_counts [OF assms(6,2)]
  have "h_epoch s2 = DropsSwapped (h_dropsThisEpoch s)" "h_dropLogCount s2 = h_dropLogCount s + of_nat n"
    by simp_all
  with assms(7) have "h_epoch s3 = BothSwapped (h_dropsThisEpoch s) (h_dropLogCount s + of_nat n)"
    by cases simp_all
  with bal show ?thesis by (simp add: in_flight_def algebra_simps)
qed

section \<open>Witnesses\<close>

text \<open>
  A goroutine between the two additions, and the first rotation up to its swaps: \<open>q\<close> is a
  processor at rest that flags the value \<open>v\<close> of a tracked pair.
\<close>

lemma flight_run:
  assumes rest: "at_rest L p s q" and tracked: "store_get L q (TrackerKey m k) \<noteq> None"
    and flagged: "fst (shouldDrop L m k v q)"
  shows "\<exists>s' q'. (attr_step L p t)\<^sup>*\<^sup>* s s' \<and> h_attr s' = (\<lambda>_. Deciding)(t := Counted (TrackerKey m k)) \<and>
    matches L s' q' \<and> quiet (h_dec s') \<and> routed L q' \<and> same_settings q q' \<and>
    h_dropLogCount s' = h_dropLogCount s \<and> h_logs s' = h_logs s"
proof -
  let ?key = "TrackerKey m k" and ?q1 = "snd (shouldDrop L m k v q)"
  from rest have r: "quiet (h_dec s)" "shows_trackers L (h_dec s) q" "c_pc (h_dec s) t = Idle" "shards_ok q"
    "cfg q = cfg p" "h_attr s = (\<lambda>_. Deciding)" "matches L s q" "routed L q"
    by (simp_all add: at_rest_def matches_def routed_def)
  from decision_run [OF r(1-5), where m = m and k = k and v = v] tracked
  obtain d1 d2 h a where d: "(deciding L p t)\<^sup>*\<^sup>* (h_dec s) d1" "thread_step L p t d1 d2"
    "verdict_of L p t (h_dec s) (shouldDrop L m k v q) d2" "c_pc d1 t = Holding ?key h a"
    by auto
  have fin: "c_pc d2 t = Finished True" "quiet d2" "shows_trackers L d2 ?q1"
    using d(3) flagged by (simp_all add: verdict_of_def)
  let ?s2 = "s\<lparr>h_dec := d2\<rparr>"
  let ?s3 = "?s2\<lparr>h_labelsStripped := h_labelsStripped s + 1\<rparr>"
  let ?s4 = "?s3\<lparr>h_dropsThisEpoch := h_dropsThisEpoch s + 1\<rparr>"
  let ?q4 = "?q1\<lparr>labelsStripped := labelsStripped ?q1 + 1, dropsThisEpoch := dropsThisEpoch ?q1 + 1\<rparr>"
  have run1: "(attr_step L p t)\<^sup>*\<^sup>* s (s\<lparr>h_dec := d1\<rparr>)" by (rule deciding_lifts [OF d(1)]) (simp add: r(6))
  have step2: "attr_step L p t (s\<lparr>h_dec := d1\<rparr>) (at t (Flagged ?key) ?s2)"
    using attr_step.judged [of "s\<lparr>h_dec := d1\<rparr>" t ?key h a L p d2 True] r(6) d(2,4) fin(1) by simp
  have step3: "attr_step L p t (at t (Flagged ?key) ?s2) (at t (Stripping ?key) ?s3)"
    using attr_step.count_label [of "at t (Flagged ?key) ?s2" t ?key L p EnforcementStripAndReaggregate] by (simp add: at_def)
  have step4: "attr_step L p t (at t (Stripping ?key) ?s3) (at t (Counted ?key) ?s4)"
    using attr_step.count_drop [of "at t (Stripping ?key) ?s3" t ?key L p] by (simp add: at_def)
  have "(attr_step L p t)\<^sup>*\<^sup>* s (at t (Counted ?key) ?s4)"
    by (rule attr_next [OF attr_next [OF attr_next [OF run1 step2] step3] step4])
  moreover have "\<not> (store_get L q ?key = None \<and> budget_exhausted q)" using tracked by simp
  note frame = shouldDrop_frame [OF this, of v]
  have "shows_trackers L d2 ?q4 = shows_trackers L d2 ?q1"
    by (rule shows_trackers_core) (simp_all add: core_def)
  with fin(3) have "matches L (at t (Counted ?key) ?s4) ?q4"
    using r(7) frame by (simp add: matches_def)
  moreover have "routed L ?q4" "same_settings q ?q4"
    using routed_shouldDrop [OF r(8), of m k v] routed_core [of ?q4 ?q1 L] shouldDrop_same_settings [of q L m k v]
    by (simp_all add: core_def same_settings_def)
  ultimately show ?thesis
    using fin(2) r(6) by (intro exI [of _ "at t (Counted ?key) ?s4"] exI [of _ ?q4]) simp
qed

text \<open>The rotation of a state that shows a processor, up to its swaps.\<close>

lemma between_rotations:
  fixes q :: "'sk processor" and r :: "'sk range_order"
  assumes at: "between L p n s (fold (rotate_shard L r topN) [0..<unat numShards] (emit LogRotating q, []))"
    and ok: "shards_ok q"
  shows "rotations s = Suc (length (filter (\<lambda>e. e = LogRotating) (logs q)))"
proof -
  let ?run = "fold (rotate_shard L r topN) [0..<unat numShards] (emit LogRotating q, [])"
  have "unat numShards \<le> length (shards (emit LogRotating q))" using ok by (simp add: shards_ok_def emit_def)
  from rotate_shards_prefix [OF this, of L r topN "[]"] obtain ev where
    ev: "logs (fst ?run) = logs (emit LogRotating q) @ ev" "list_all (\<lambda>e. case e of LogEvicted _ \<Rightarrow> True | _ \<Rightarrow> False) ev"
    unfolding rotation_frame_def by blast
  then have "filter (\<lambda>e. e = LogRotating) ev = []" by (auto simp: filter_empty_conv list_all_iff)
  moreover have "h_logs s = logs (fst ?run)" using at by (simp add: between_def matches_def)
  ultimately show ?thesis by (simp add: rotations_def ev(1)) (simp add: emit_def)
qed

lemma run_to_swaps:
  fixes q :: "'sk processor" and r :: "'sk range_order"
  assumes "matches L s q" and "quiet (h_dec s)" and "h_epoch s = Sleeping" and "c_rot (h_dec s) = RotIdle"
    and "routed L q" and "seed q = seed p" and "cfg q = cfg p" and "range_ok r"
  shows "\<exists>s'. (epoch_step L p)\<^sup>*\<^sup>* s s' \<and> h_epoch s' = FlagCleared \<and> h_attr s' = h_attr s \<and>
    rotations s' = Suc (rotations s)"
proof -
  from run_to_epilogue [OF assms] obtain s1 where s1: "(epoch_step L p)\<^sup>*\<^sup>* s s1" "h_attr s1 = h_attr s"
    and b: "between L p (unat numShards) s1
      (fold (rotate_shard L r (TopOffendersCount (cfg p))) [0..<unat numShards] (emit LogRotating q, []))"
    by blast
  let ?s2 = "s1\<lparr>h_rejectionWarned := False, h_epoch := FlagCleared\<rparr>"
  have at: "h_epoch s1 = InShards" "c_rot (h_dec s1) = RotShard (unat numShards)" using b by (simp_all add: between_def)
  have "rotations s1 = Suc (rotations s)"
    using between_rotations [OF b] assms(1,5) by (simp add: routed_def rotations_def matches_def)
  then have "rotations ?s2 = Suc (rotations s)" by (simp add: rotations_def)
  with epoch_next [OF s1(1) epoch_step.clear_flag [OF at]] s1(2) show ?thesis
    by (intro exI [of _ ?s2]) simp
qed

text \<open>The processor after one value of a label, whose second value is over the limit.\<close>

definition one_value :: "u64 list processor" where
  "one_value = apply_event ref_lib (Attribute 0 ''m'' EnforcementStripAndReaggregate (''k'', ''a'')) capped_processor"

lemma one_value_facts:
  "fst (shouldDrop ref_lib ''m'' ''k'' ''b'' one_value)" "logs one_value = []" "dropLogCount one_value = 0"
  "store_get ref_lib one_value (TrackerKey ''m'' ''k'') \<noteq> None"
  by code_simp+

lemma strip_cap: "DropLogMaxPerEpoch (cfg capped_processor) = 1"
  by (simp add: capped_processor_def capped_config_def)

lemma one_in_flight:
  obtains s q where "hot_reachable ref_lib capped_processor s"
    "h_attr s = (\<lambda>_. Deciding)(0 := Counted (TrackerKey ''m'' ''k''))" "h_dropLogCount s = 0" "rotations s = 0"
    "matches ref_lib s q" "quiet (h_dec s)" "h_epoch s = Sleeping" "c_rot (h_dec s) = RotIdle"
    "routed ref_lib q" "seed q = seed capped_processor" "cfg q = cfg capped_processor"
proof -
  obtain s0 where s0: "hot_reachable ref_lib capped_processor s0" "at_rest ref_lib capped_processor s0 one_value"
    using hot_event [OF hot_reachable.hot_initial at_rest_initial, of "Attribute 0 ''m'' EnforcementStripAndReaggregate (''k'', ''a'')" ref_lib capped_config 7]
    by (auto simp: one_value_def capped_processor_def)
  from flight_run [OF s0(2) one_value_facts(4,1), of 0] obtain s q where s:
    "(attr_step ref_lib capped_processor 0)\<^sup>*\<^sup>* s0 s" "h_attr s = (\<lambda>_. Deciding)(0 := Counted (TrackerKey ''m'' ''k''))"
    "matches ref_lib s q" "quiet (h_dec s)" "routed ref_lib q" "same_settings one_value q"
    "h_dropLogCount s = h_dropLogCount s0" "h_logs s = h_logs s0" by blast
  have "h_epoch s = h_epoch s0 \<and> c_rot (h_dec s) = c_rot (h_dec s0)"
    using s(1) by (induction rule: rtranclp_induct) (simp_all add: attr_step_frame(1,2))
  then have rest: "h_epoch s = Sleeping" "c_rot (h_dec s) = RotIdle" using s0(2) by (simp_all add: at_rest_def)
  have log: "rotations s = 0" "h_dropLogCount s = 0"
    using s(7,8) s0(2) one_value_facts(2,3) by (simp_all add: at_rest_def matches_def rotations_def)
  have set: "seed q = seed capped_processor" "cfg q = cfg capped_processor"
    using s(6) s0(2) by (simp_all add: at_rest_def same_settings_def)
  have reach: "hot_reachable ref_lib capped_processor s" by (rule hot_attr_run [OF s(1) s0(1)])
  show thesis by (rule that [OF reach s(2) log(2,1) s(3,4) rest s(5) set])
qed

theorem concurrent_drop_lines_follow_the_cap_witness:
  "\<exists>s0 s. hot_reachable ref_lib capped_processor s0 \<and> log_window ref_lib capped_processor s0 s \<and>
     h_dropLogCount s = 1 \<and> granted_lines s = Suc (granted_lines s0)"
proof -
  obtain s0 where s0: "hot_reachable ref_lib capped_processor s0" "h_dropLogCount s0 = 0" "h_epoch s0 = Sleeping"
    "h_attr s0 0 = Counted (TrackerKey ''m'' ''k'')"
    by (rule one_in_flight) simp
  let ?q = "if sint (h_dropLogCount s0 + 1) \<le> sint (DropLogMaxPerEpoch (cfg capped_processor))
    then Logging (TrackerKey ''m'' ''k'') else Returning"
  let ?s = "at 0 ?q (s0\<lparr>h_dropLogCount := h_dropLogCount s0 + 1\<rparr>)"
  have "attr_step ref_lib capped_processor 0 s0 ?s"
    by (rule attr_step.capped [OF s0(4)]) (simp add: strip_cap)
  then have window: "log_window ref_lib capped_processor s0 ?s"
    using s0(3) by (simp only: log_window_def) (auto intro: hot_step.goroutine)
  then have "(log_window ref_lib capped_processor ^^ Suc 0) s0 ?s"
    by (rule relpowp_Suc_I [OF relpowp_0_I])
  from concurrent_drop_lines_follow_the_cap [OF s0(1,2) _ this] s0(2)
  have "granted_lines ?s = Suc (granted_lines s0)" by (simp add: strip_cap)
  moreover have "h_dropLogCount ?s = 1" by (simp add: s0(2))
  ultimately show ?thesis using s0(1) window by blast
qed

text \<open>
  One goroutine between its additions: the report is one if it stays there, and zero if it asks
  the cap between the swaps.
\<close>

theorem summary_counts_goroutines_in_flight_witness:
  "\<exists>s s1 s2 s2' s3 totalDrops logged. hot_reachable ref_lib capped_processor s \<and>
     epoch_step ref_lib capped_processor s s1 \<and> epoch_step ref_lib capped_processor s1 s2 \<and>
     h_epoch s2 = BothSwapped totalDrops logged \<and> totalDrops - logged = 1 \<and>
     swap_gap ref_lib capped_processor 1 s1 s2' \<and> epoch_step ref_lib capped_processor s2' s3 \<and>
     h_epoch s3 = BothSwapped totalDrops totalDrops"
proof -
  obtain s0 q where s0: "hot_reachable ref_lib capped_processor s0"
    "h_attr s0 = (\<lambda>_. Deciding)(0 := Counted (TrackerKey ''m'' ''k''))" "rotations s0 = 0"
    and f: "matches ref_lib s0 q" "quiet (h_dec s0)" "h_epoch s0 = Sleeping" "c_rot (h_dec s0) = RotIdle"
    "routed ref_lib q" "seed q = seed capped_processor" "cfg q = cfg capped_processor"
    by (rule one_in_flight)
  from run_to_swaps [OF f range_ok_rev] obtain s where s: "(epoch_step ref_lib capped_processor)\<^sup>*\<^sup>* s0 s"
    "h_epoch s = FlagCleared" "h_attr s = h_attr s0" "rotations s = Suc (rotations s0)" by blast
  let ?d = "h_dropsThisEpoch s"
  let ?s1 = "s\<lparr>h_dropsThisEpoch := 0, h_epoch := DropsSwapped ?d\<rparr>"
  let ?s2 = "?s1\<lparr>h_dropLogCount := 0, h_epoch := BothSwapped ?d (h_dropLogCount ?s1)\<rparr>"
  have reach: "hot_reachable ref_lib capped_processor s" by (rule hot_epoch_run [OF s(1) s0(1)])
  have step1: "epoch_step ref_lib capped_processor s ?s1" by (rule epoch_step.swap_drops [OF s(2)])
  have step2: "epoch_step ref_lib capped_processor ?s1 ?s2" by (rule epoch_step.swap_logged) simp
  have at0: "h_attr ?s1 0 = Counted (TrackerKey ''m'' ''k'')" by (simp add: s(3) s0(2))
  have cap: "DropLogMaxPerEpoch (cfg capped_processor) \<noteq> 0" by (simp add: strip_cap)
  obtain s2' where ask: "attr_step ref_lib capped_processor 0 ?s1 s2'"
    using attr_step.capped [OF at0 cap] by blast
  let ?s3 = "s2'\<lparr>h_dropLogCount := 0, h_epoch := BothSwapped ?d (h_dropLogCount s2')\<rparr>"
  have gap: "swap_gap ref_lib capped_processor 1 ?s1 s2'"
    using swap_gap.gap_step [OF swap_gap.gap_none ask] at0 by simp
  have "h_epoch s2' = DropsSwapped ?d" using swap_gap_counts [OF gap cap] by simp
  then have step3: "epoch_step ref_lib capped_processor s2' ?s3" by (rule epoch_step.swap_logged)
  have "{t. \<exists>key. h_attr s t = Counted key} = {0}" by (auto simp: s(3) s0(2))
  then have one: "card {t. \<exists>key. h_attr s t = Counted key} = 1" by simp
  have first: "rotations s = 1" using s(4) s0(3) by simp
  note counts = summary_counts_goroutines_in_flight [OF reach cap first s(2) step1]
  have "?d - h_dropLogCount ?s1 = 1"
    using counts [OF swap_gap.gap_none step2] by (simp add: one)
  moreover have "h_epoch ?s3 = BothSwapped ?d ?d"
    using counts [OF gap step3] by (simp add: one)
  moreover have "h_epoch ?s2 = BothSwapped ?d (h_dropLogCount ?s1)" by simp
  ultimately show ?thesis using reach step1 step2 gap step3 by blast
qed

text \<open>A budget of one tracker, and two labels.\<close>

definition rejecting :: "u64 list processor" where
  "rejecting =
     after_attribute ref_lib ''n'' EnforcementStripAndReaggregate (''k'', ''a'')
       (after_attribute ref_lib ''m'' EnforcementStripAndReaggregate (''k'', ''a'') race_processor)"

lemma rejecting_warned: "rejectionWarned rejecting"
  by code_simp

lemma attr_flag_window: "(attr_step L p t)\<^sup>*\<^sup>* s s' \<Longrightarrow> (flag_window L p)\<^sup>*\<^sup>* s s'"
proof (rule rtranclp_mono [THEN predicate2D, of "attr_step L p t"])
  show "attr_step L p t \<le> flag_window L p"
    using attr_step_frame(2) by (fastforce simp: flag_window_def intro: hot_step.goroutine)
qed

theorem one_rejection_warning_per_reset_witness:
  "\<exists>s. hot_reachable ref_lib race_processor s \<and> h_rejectionWarned s \<and> granted_warnings s = 1"
proof -
  have rest0: "at_rest ref_lib race_processor initial_hot race_processor"
    unfolding race_processor_def by (rule at_rest_initial)
  from at_rest_attribute [OF rest0, of 0 "''m''" EnforcementStripAndReaggregate "(''k'', ''a'')"]
  obtain s1 where s1: "(attr_step ref_lib race_processor 0)\<^sup>*\<^sup>* initial_hot s1"
    "at_rest ref_lib race_processor s1 (after_attribute ref_lib ''m'' EnforcementStripAndReaggregate (''k'', ''a'') race_processor)"
    by blast
  from at_rest_attribute [OF s1(2), of 0 "''n''" EnforcementStripAndReaggregate "(''k'', ''a'')"]
  obtain s2 where s2: "(attr_step ref_lib race_processor 0)\<^sup>*\<^sup>* s1 s2" "at_rest ref_lib race_processor s2 rejecting"
    unfolding rejecting_def by blast
  have run: "(attr_step ref_lib race_processor 0)\<^sup>*\<^sup>* initial_hot s2" using s1(1) s2(1) by (rule rtranclp_trans)
  have warned: "h_rejectionWarned s2" using s2(2) rejecting_warned by (simp add: at_rest_def matches_def)
  have "\<not> h_rejectionWarned (initial_hot :: u64 list hot)" "granted_warnings (initial_hot :: u64 list hot) = 0"
    by (simp_all add: initial_hot_def granted_warnings_def limit_lines_def)
  with one_rejection_warning_per_reset [OF hot_reachable.hot_initial _ attr_flag_window [OF run]] warned
  have "granted_warnings s2 = 1" by simp
  with warned hot_attr_run [OF run hot_reachable.hot_initial] show ?thesis by blast
qed

end
