(* ===== verification/Winding_Down.thy ===== *)
theory Winding_Down
  imports Concurrent_Counters
begin

text \<open>
  The whole interleaved program, callbacks and rotation with their locks, counters and logging,
  never gets stuck and never loops: a run that starts no new call and no new rotation
  ends, however it is scheduled, and when it ends everybody is at rest.
\<close>

section \<open>Work in progress\<close>

text \<open>A step of a goroutine inside a callback, or of a rotation that is under way.\<close>

definition idle_at :: "nat \<Rightarrow> 'sk hot \<Rightarrow> bool" where
  "idle_at t s \<longleftrightarrow> h_attr s t = Deciding \<and> c_pc (h_dec s) t = Idle"

inductive working_step ::
  "('v, 'x, 'sk) lib \<Rightarrow> 'sk processor \<Rightarrow> 'sk hot \<Rightarrow> 'sk hot \<Rightarrow> bool"
  for L p where
  work_on: "attr_step L p t s s' \<Longrightarrow> \<not> idle_at t s \<Longrightarrow> working_step L p s s'"
| rotate_on: "epoch_step L p s s' \<Longrightarrow> h_epoch s \<noteq> Sleeping \<Longrightarrow> working_step L p s s'"

definition everybody_rests :: "'sk hot \<Rightarrow> bool" where
  "everybody_rests s \<longleftrightarrow> h_epoch s = Sleeping \<and> (\<forall>t. idle_at t s)"

lemma working_is_step: "working_step L p s s' \<Longrightarrow> hot_step L p s s'"
  by (induction rule: working_step.induct) (auto intro: hot_step.intros)

section \<open>It gets less\<close>

fun attr_left :: "attr_pc \<Rightarrow> pc \<Rightarrow> nat" where
  "attr_left Deciding Idle = 0"
| "attr_left Deciding q = 5 + steps_left q"
| "attr_left (Flagged key) q = 5"
| "attr_left (Stripping key) q = 4"
| "attr_left (Counted key) q = 3"
| "attr_left Rejected q = 3"
| "attr_left (Logging key) q = 2"
| "attr_left Warning q = 2"
| "attr_left Returning q = 1"

fun phase_left :: "epoch_pc \<Rightarrow> nat" where
  "phase_left (Collecting es) = 9 + length es"
| "phase_left (Evicted n) = 9"
| "phase_left InShards = 8"
| "phase_left FlagCleared = 7"
| "phase_left (DropsSwapped a) = 6"
| "phase_left (BothSwapped a b) = 5"
| "phase_left Summarized = 4"
| "phase_left Published = 3"
| "phase_left Leaving = 2"
| "phase_left _ = 0"

definition work_left :: "'sk hot \<Rightarrow> nat \<Rightarrow> nat" where
  "work_left s t = attr_left (h_attr s t) (c_pc (h_dec s) t)"

definition active :: "'sk hot \<Rightarrow> nat set" where
  "active s = {t. c_pc (h_dec s) t \<noteq> Idle}"

definition hot_measure :: "'sk hot \<Rightarrow> ((nat \<times> nat) \<times> nat) \<times> nat" where
  "hot_measure s = ((rotation_left (c_rot (h_dec s)), phase_left (h_epoch s)), sum (work_left s) (active s))"

abbreviation hot_order :: "((((nat \<times> nat) \<times> nat) \<times> nat) \<times> (((nat \<times> nat) \<times> nat) \<times> nat)) set" where
  "hot_order \<equiv> ((less_than <*lex*> less_than) <*lex*> less_than) <*lex*> less_than"

lemma wf_hot_order: "wf hot_order"
  by (intro wf_lex_prod wf_less_than)

lemma active_step:
  assumes "hot_step L p s s'" and "finite (active s)"
  shows "finite (active s')"
  using assms(1)
proof cases
  case (goroutine t)
  have "active s' \<subseteq> insert t (active s)"
    using attr_step_frame(5) [OF goroutine] by (auto simp: active_def)
  with assms(2) show ?thesis by (simp add: finite_subset)
next
  case rotation
  then have "c_pc (h_dec s') = c_pc (h_dec s)" by cases (simp_all add: rotator_step_pc)
  with assms(2) show ?thesis by (simp add: active_def)
qed

lemma finite_active: "hot_reachable L p s \<Longrightarrow> finite (active s)"
proof (induction rule: hot_reachable.induct)
  case hot_initial
  show ?case by (simp add: active_def initial_hot_def initial_conc_def)
qed (rule active_step)

lemma deciding_left: "attr_left Deciding q = (if q = Idle then 0 else 5 + steps_left q)"
  by (cases q) simp_all

lemma past_finished: "attr_inv s \<Longrightarrow> h_attr s t \<noteq> Deciding \<Longrightarrow> \<exists>b. c_pc (h_dec s) t = Finished b"
  unfolding attr_inv_def finished_def by blast

lemma attr_step_left:
  assumes step: "attr_step L p t s s'" and busy: "\<not> idle_at t s" and inv: "attr_inv s"
  shows "work_left s' t < work_left s t"
  using step
proof cases
  case (decide d)
  with busy have "c_pc (h_dec s) t \<noteq> Idle" by (simp add: idle_at_def)
  with decide step_lowers_steps_left [OF decide(3)] show ?thesis
    by (simp add: work_left_def deciding_left)
next
  case (leave d)
  with past_finished [OF inv, of t] obtain b where "c_pc (h_dec s) t = Finished b" by auto
  from leave_idle [OF leave(3) this] leave show ?thesis by (simp add: work_left_def)
qed (auto simp: work_left_def split: if_splits)

lemma total_falls:
  assumes "finite (active s)" and t: "work_left s' t < work_left s t"
    and others: "\<forall>u. u \<noteq> t \<longrightarrow> h_attr s' u = h_attr s u \<and> c_pc (h_dec s') u = c_pc (h_dec s) u"
    and idle: "\<And>u. c_pc (h_dec s) u = Idle \<Longrightarrow> work_left s u = 0"
      "\<And>u. c_pc (h_dec s') u = Idle \<Longrightarrow> work_left s' u = 0"
  shows "sum (work_left s') (active s') < sum (work_left s) (active s)"
proof -
  have sub: "active s' \<subseteq> insert t (active s)" using others by (auto simp: active_def)
  have act: "t \<in> active s" using t idle(1) [of t] by (auto simp: active_def)
  then have "insert t (active s) = active s" by blast
  with sub have sub: "active s' \<subseteq> active s" by simp
  have "sum (work_left s') (active s') = sum (work_left s') (active s)"
    using assms(1) sub idle(2) by (intro sum.mono_neutral_left) (auto simp: active_def)
  also have "\<dots> < sum (work_left s) (active s)"
  proof (rule sum_strict_mono_ex1 [OF assms(1)])
    show "\<forall>u \<in> active s. work_left s' u \<le> work_left s u"
    proof
      fix u
      show "work_left s' u \<le> work_left s u"
        using t others by (cases "u = t") (simp_all add: work_left_def)
    qed
    show "\<exists>u \<in> active s. work_left s' u < work_left s u" using act t by blast
  qed
  finally show ?thesis .
qed

lemma idle_no_work:
  assumes "attr_inv s" and "c_pc (h_dec s) u = Idle"
  shows "work_left s u = 0"
proof -
  have "h_attr s u = Deciding" using assms by (auto simp: attr_inv_def finished_def)
  with assms(2) show ?thesis by (simp add: work_left_def)
qed

lemma epoch_step_left:
  assumes step: "epoch_step L p s s'" and busy: "h_epoch s \<noteq> Sleeping" and inv: "epoch_inv s"
    and ptr: "pointers_inv (h_dec s)"
  shows "((rotation_left (c_rot (h_dec s')), phase_left (h_epoch s')), (rotation_left (c_rot (h_dec s)), phase_left (h_epoch s)))
    \<in> (less_than <*lex*> less_than) <*lex*> less_than"
proof -
  have "c_rot (h_dec s) \<noteq> RotIdle" using busy inv by (cases "h_epoch s") (auto simp: epoch_inv_def)
  note rot = step_lowers_rotation_left [OF _ ptr this]
  from step show ?thesis
  proof cases
    case (evict_unlock n d i)
    with rot [OF evict_unlock(3)] show ?thesis by simp
  qed (use busy rot in \<open>auto simp: in_lex_prod\<close>)
qed

lemma working_lowers_measure:
  assumes step: "working_step L p s s'" and reach: "hot_reachable L p s"
  shows "(hot_measure s', hot_measure s) \<in> hot_order"
proof -
  note inv = hot_reachable_inv [OF reach]
  have ptr: "pointers_inv (h_dec s)"
    using reachable_progress_inv [OF hot_reachable_projects [OF reach]] by (simp add: progress_inv_def)
  have inv': "attr_inv s'" using attr_inv_step [OF working_is_step [OF step]] inv by blast
  from step show ?thesis
  proof cases
    case (work_on t)
    have "sum (work_left s') (active s') < sum (work_left s) (active s)"
      using attr_step_left [OF work_on] inv inv' attr_step_frame(5) [OF work_on(1)]
      by (intro total_falls [OF finite_active [OF reach]] idle_no_work) auto
    with attr_step_frame(1,2) [OF work_on(1)] show ?thesis by (simp add: hot_measure_def)
  next
    case rotate_on
    from epoch_step_left [OF this] inv ptr show ?thesis by (auto simp: hot_measure_def)
  qed
qed

section \<open>There is always a next step\<close>

lemma attr_can_step:
  assumes inv: "attr_inv s" and can: "h_attr s t = Deciding \<Longrightarrow> \<exists>d. thread_step L p t (h_dec s) d"
  shows "\<exists>s'. attr_step L p t s s'"
proof (cases "h_attr s t")
  case Deciding
  then obtain d where d: "thread_step L p t (h_dec s) d" using can by blast
  show ?thesis
  proof (cases "\<exists>b. c_pc d t = Finished b")
    case False
    then have "attr_step L p t s (s\<lparr>h_dec := d\<rparr>)" using attr_step.decide [OF Deciding d] by simp
    then show ?thesis ..
  next
    case True
    then obtain b where b: "c_pc d t = Finished b" by blast
    from d show ?thesis
    proof cases
      case (check_full key h)
      from attr_step.rejected [OF Deciding check_full(2) d b] show ?thesis ..
    next
      case (insert key h a)
      from attr_step.judged [OF Deciding insert(2) d b] show ?thesis ..
    qed (use b in auto)
  qed
next
  case Returning
  with past_finished [OF inv, of t] obtain b where "c_pc (h_dec s) t = Finished b" by auto
  from attr_step.leave [OF Returning thread_step.return [OF this]] show ?thesis ..
next
  case Rejected
  then show ?thesis using attr_step.warn_first attr_step.warn_again by blast
next
  case (Counted key)
  then show ?thesis using attr_step.uncapped attr_step.capped by blast
qed (blast intro: attr_step.intros)+

lemma shards_can_step:
  assumes ph: "h_epoch s = InShards" and inv: "epoch_inv s" and rot: "rotator_step L p (h_dec s) d"
  shows "\<exists>s'. epoch_step L p s s'"
proof -
  consider (shard) i where "c_rot (h_dec s) = RotShard i"
    | (entries) i es stale where "c_rot (h_dec s) = RotEntries i es stale"
    using inv ph by (auto simp: epoch_inv_def)
  then show ?thesis
  proof cases
    case shard
    from rot show ?thesis
    proof cases
      case (rot_snapshot j es)
      with epoch_step.snapshot [OF ph rot, of j es] show ?thesis by (intro exI) simp
    next
      case rot_end
      from epoch_step.clear_flag [OF ph rot_end(2)] show ?thesis ..
    qed (use shard in simp_all)
  next
    case entries
    show ?thesis
    proof (cases es)
      case Nil
      with entries show ?thesis
        using epoch_step.none_stale [OF ph _ rot] epoch_step.some_stale [OF ph _ _ rot] by (cases "stale = []") blast+
    next
      case (Cons e es')
      with entries epoch_step.rotate_one [OF ph _ rot] show ?thesis by blast
    qed
  qed
qed

lemma epoch_can_step:
  assumes busy: "h_epoch s \<noteq> Sleeping" and inv: "epoch_inv s" and ptr: "pointers_inv (h_dec s)"
    and rot: "rotator_step L p (h_dec s) d"
  shows "\<exists>s'. epoch_step L p s s'"
proof (cases "h_epoch s")
  case InShards
  from shards_can_step [OF this inv rot] show ?thesis .
next
  case (Collecting es)
  show ?thesis
  proof (cases es)
    case Nil
    with Collecting epoch_step.collected show ?thesis by blast
  next
    case (Cons e es')
    obtain key a where e: "e = (key, a)" by (cases e)
    obtain i rd where "c_rot (h_dec s) = RotEntries i (rd @ es) []"
      using inv Collecting by (auto simp: epoch_inv_def)
    then have "a \<in> dom (c_heap (h_dec s))" using ptr Cons e by (simp add: pointers_inv_def)
    then obtain tr where "c_heap (h_dec s) a = Some tr" by blast
    with Collecting Cons e epoch_step.collect show ?thesis by blast
  qed
next
  case (Evicting n)
  then show ?thesis
    using rot epoch_step.evict epoch_step.evict_unlock by (cases "\<exists>i. c_rot d = RotShard i") blast+
next
  case (BothSwapped a b)
  then show ?thesis using epoch_step.summary_some epoch_step.summary_none by blast
next
  case Summarized
  then show ?thesis using epoch_step.publish epoch_step.publish_none by blast
next
  case Leaving
  from epoch_step.sleep [OF this rot] show ?thesis ..
qed (use busy in \<open>blast intro: epoch_step.intros\<close>)+

lemma somebody_works:
  assumes reach: "hot_reachable L p s" and busy: "\<not> everybody_rests s"
  shows "\<exists>s'. working_step L p s s'"
proof -
  have attr: "attr_inv s" and epoch: "epoch_inv s" using hot_reachable_inv [OF reach] by blast+
  have prog: "progress_inv L p (h_dec s)"
    by (rule reachable_progress_inv [OF hot_reachable_projects [OF reach]])
  then have ptr: "pointers_inv (h_dec s)" by (simp add: progress_inv_def)
  have goroutine: ?thesis
    if "\<not> idle_at t s" "h_attr s t = Deciding \<Longrightarrow> \<exists>d. thread_step L p t (h_dec s) d" for t
    using attr_can_step [OF attr that(2)] that(1) working_step.work_on by blast
  have rotation: ?thesis if "h_epoch s \<noteq> Sleeping" "\<exists>d. rotator_step L p (h_dec s) d"
    using epoch_can_step [OF that(1) epoch ptr] that working_step.rotate_on by blast
  show ?thesis
  proof (cases "c_locks (h_dec s) = (\<lambda>_. None)")
    case True
    show ?thesis
    proof (cases "\<exists>t. \<not> idle_at t s")
      case True
      then obtain t where t: "\<not> idle_at t s" by blast
      with thread_can_step [OF prog, of t] \<open>c_locks (h_dec s) = (\<lambda>_. None)\<close> show ?thesis
        by (intro goroutine [of t]) (auto simp: idle_at_def)
    next
      case False
      with busy rotator_can_step [OF prog True] show ?thesis
        by (intro rotation) (auto simp: everybody_rests_def)
    qed
  next
    case False
    then obtain i ow where lock: "c_locks (h_dec s) i = Some ow" by (auto simp: fun_eq_iff)
    show ?thesis
    proof (cases ow)
      case (ThreadOwner t)
      then obtain key where "locked_key (c_pc (h_dec s) t) = Some key"
        using prog lock unfolding progress_inv_def owners_inv_def by blast
      then have "\<not> idle_at t s" by (auto simp: idle_at_def)
      with locked_thread_can_step [OF prog] lock ThreadOwner show ?thesis by (intro goroutine [of t]) simp_all
    next
      case RotatorOwner
      then have "rot_locked (c_rot (h_dec s)) = Some i"
        using prog lock by (auto simp: progress_inv_def owners_inv_def)
      then have "h_epoch s \<noteq> Sleeping" using epoch by (auto simp: epoch_inv_def)
      with locked_rotator_can_step [OF prog] lock RotatorOwner show ?thesis by (intro rotation) simp_all
    qed
  qed
qed

section \<open>Property\<close>

text \<open>
  C14. Left to itself the whole program comes to rest: from any reachable state a run that starts no
  new callback and no new rotation is finite, under every schedule, and as long as some
  goroutine or the rotation is still under way one of them can take its next step.
\<close>

theorem every_run_winds_down:
  assumes "hot_reachable L p s"
  shows "wf {(s', s). hot_reachable L p s \<and> working_step L p s s'} \<and>
    ((h_epoch s = Sleeping \<and> (\<forall>t. h_attr s t = Deciding \<and> c_pc (h_dec s) t = Idle)) \<or>
     (\<exists>s'. working_step L p s s'))"
proof
  show "wf {(s', s). hot_reachable L p s \<and> working_step L p s s'}"
    by (rule wf_subset [OF wf_inv_image [OF wf_hot_order, of hot_measure]])
      (use working_lowers_measure in \<open>blast intro: in_inv_image [THEN iffD2]\<close>)
  show "(h_epoch s = Sleeping \<and> (\<forall>t. h_attr s t = Deciding \<and> c_pc (h_dec s) t = Idle)) \<or>
     (\<exists>s'. working_step L p s s')"
    using somebody_works [OF assms] unfolding everybody_rests_def idle_at_def by blast
qed

section \<open>Witness\<close>

theorem every_run_winds_down_witness:
  "\<exists>s s'. hot_reachable ref_lib capped_processor s \<and> h_attr s 0 = Counted (TrackerKey ''m'' ''k'') \<and>
     working_step ref_lib capped_processor s s'"
proof -
  obtain s where s: "hot_reachable ref_lib capped_processor s"
    "h_attr s = (\<lambda>_. Deciding)(0 := Counted (TrackerKey ''m'' ''k''))"
    using one_in_flight by metis
  then have at: "h_attr s 0 = Counted (TrackerKey ''m'' ''k'')" by simp
  then have "h_attr s 0 \<noteq> Deciding" by simp
  with every_run_winds_down [OF s(1)] have "\<exists>s'. working_step ref_lib capped_processor s s'" by blast
  with s(1) at show ?thesis by blast
qed

end
