(* ===== verification/Batch_Histories.thy ===== *)
theory Batch_Histories
  imports Winding_Down
begin

text \<open>
  Whole batches in the interleaved program: what one goroutine does to the processor in
  \<open>ConsumeMetrics\<close> is a run of its own steps, so every history of batches and rotations is an
  interleaving.
\<close>

section \<open>A batch is a run of one goroutine\<close>

definition carried_out :: "('v, 'x, 'sk) lib \<Rightarrow> 'sk processor \<Rightarrow> nat \<Rightarrow> 'sk processor \<Rightarrow> 'sk processor \<Rightarrow> bool" where
  "carried_out L p t q q' \<longleftrightarrow>
     (\<forall>s. at_rest L p s q \<longrightarrow> (\<exists>s'. (attr_step L p t)\<^sup>*\<^sup>* s s' \<and> at_rest L p s' q'))"

text \<open>The pipeline's contract lifts this from one attribute to a batch.\<close>

interpretation run_contract: processor_contract L "carried_out L p t"
  for L :: "('v, 'x, 'sk) lib" and p :: "'sk processor" and t
proof unfold_locales
  fix q :: "'sk processor" and m mode and kv :: "string \<times> 'v" and tag ks
  have "fst (snd (attr_callback L m mode kv (q, tag, ks))) = after_attribute L m mode kv q"
    unfolding after_attribute_def callback_processor ..
  then show "carried_out L p t q (fst (snd (attr_callback L m mode kv (q, tag, ks))))"
    using at_rest_attribute [of L p _ q t m mode kv] unfolding carried_out_def by simp
next
  fix q q1 q2 :: "'sk processor"
  assume "carried_out L p t q q1" and "carried_out L p t q1 q2"
  then show "carried_out L p t q q2"
    unfolding carried_out_def by (meson rtranclp_trans)
qed (auto simp: carried_out_def)

lemma at_rest_batch:
  assumes "at_rest L p s q"
  shows "\<exists>s'. (attr_step L p t)\<^sup>*\<^sup>* s s' \<and>
    at_rest L p s' (fst (snd (ConsumeMetrics L nextConsumer md (q, n))))"
  using run_contract.consume_R [of L p t q nextConsumer md n] assms unfolding carried_out_def by blast

section \<open>Histories\<close>

text \<open>A batch handled by a goroutine, or a rotation with its map orders.\<close>

datatype ('v, 'x, 'sk) happening = Batch nat "('v, 'x) batch" | Rotation "'sk range_order"

fun happen ::
  "('v, 'x, 'sk) lib \<Rightarrow> ('v, 'x, 'n) consumer \<Rightarrow> ('v, 'x, 'sk) happening \<Rightarrow> 'sk processor \<times> 'n \<Rightarrow> 'sk processor \<times> 'n" where
  "happen L nextConsumer (Batch t md) st = snd (ConsumeMetrics L nextConsumer md st)"
| "happen L nextConsumer (Rotation r) st = (processor_rotate L r (fst st), snd st)"

fun happening_ok :: "('v, 'x, 'sk) happening \<Rightarrow> bool" where
  "happening_ok (Batch t md) = True"
| "happening_ok (Rotation r) = range_ok r"

lemma hot_happening:
  assumes "hot_reachable L p s" and "at_rest L p s (fst st)" and "happening_ok ev"
  shows "\<exists>s'. hot_reachable L p s' \<and> at_rest L p s' (fst (happen L nextConsumer ev st))"
proof (cases ev)
  case (Batch t md)
  obtain q n where "st = (q, n)" by (cases st)
  with Batch at_rest_batch [OF assms(2), of t nextConsumer md n] hot_attr_run [OF _ assms(1)]
  show ?thesis by auto
next
  case (Rotation r)
  with assms(3) have "range_ok r" by simp
  with Rotation at_rest_rotate [OF assms(2), of r] hot_epoch_run [OF _ assms(1)] show ?thesis by auto
qed

lemma hot_happenings:
  assumes "hot_reachable L p s" and "at_rest L p s (fst st)" and "list_all happening_ok hs"
  shows "\<exists>s'. hot_reachable L p s' \<and> at_rest L p s' (fst (fold (happen L nextConsumer) hs st))"
  using assms
proof (induction hs arbitrary: s st)
  case (Cons ev hs)
  then obtain s1 where "hot_reachable L p s1" "at_rest L p s1 (fst (happen L nextConsumer ev st))"
    using hot_happening [of L p s st ev nextConsumer] by auto
  with Cons.IH [of s1 "happen L nextConsumer ev st"] Cons.prems(3) show ?case by simp
qed auto

section \<open>Property\<close>

text \<open>
  C2. The concurrent program refines the sequential one: for every history of batches, each
  handled by any goroutine, and of rotations, with any order of the maps, there is an
  interleaving that ends with everybody at rest and shows the very processor that
  \<open>ConsumeMetrics\<close> and \<open>rotate\<close> leave when they run one after the other: trackers, counters,
  flag, published offenders and log.
\<close>

theorem sequential_histories_are_interleavings:
  assumes "list_all happening_ok hs"
  shows "\<exists>s. hot_reachable L (make_processor L c sd) s \<and>
    at_rest L (make_processor L c sd) s (fst (fold (happen L nextConsumer) hs (make_processor L c sd, n)))"
  by (rule hot_happenings [OF hot_reachable.hot_initial _ assms]) (simp add: at_rest_initial)

section \<open>Witness\<close>

text \<open>The same batch from two goroutines, and the end of the epoch.\<close>

definition demo_history_of_batches :: "(string, nat, u64 list) happening list" where
  "demo_history_of_batches = [Batch 0 demo_batch, Rotation rev, Batch 5 demo_batch]"

lemma demo_batches_ok: "list_all happening_ok demo_history_of_batches"
  by (simp add: demo_history_of_batches_def range_ok_rev)

lemma demo_batches_end:
  "topOffenders (fst (fold (happen ref_lib sink) demo_history_of_batches (capped_processor, ()))) \<noteq> []"
  by code_simp

theorem sequential_histories_are_interleavings_witness:
  "\<exists>s. hot_reachable ref_lib capped_processor s \<and> h_topOffenders s \<noteq> [] \<and> h_epoch s = Sleeping"
proof -
  from sequential_histories_are_interleavings [OF demo_batches_ok, of ref_lib capped_config 7 sink "()"]
  obtain s where "hot_reachable ref_lib capped_processor s"
    "at_rest ref_lib capped_processor s (fst (fold (happen ref_lib sink) demo_history_of_batches (capped_processor, ())))"
    unfolding capped_processor_def [symmetric] by blast
  with demo_batches_end show ?thesis by (intro exI [of _ s]) (simp add: at_rest_def matches_def)
qed

end
