(* ===== verification/Spec2Isabelle.thy ===== *)
theory Spec2Isabelle
  imports Metadata Firehose Drop_Log Batch_Histories
begin

text \<open>
  A model of the cardinality processor for the OpenTelemetry Collector
  (\<open>src/cardinalityprocessor/\<close>) and the theorems that say what it guarantees.

  \<^bold>\<open>The program.\<close> The collector's host builds a processor through \<open>factory.go\<close>, starts it, pushes
  metric batches through \<open>ConsumeMetrics\<close> and shuts it down. For every attribute of every
  data point that is not protected (\<open>NeverDropLabels\<close>) the processor asks \<open>shouldDrop\<close>: the
  (metric, label) pair's tracker, found in one of 256 locked shards, inserts the value's
  hash into a HyperLogLog sketch, and the pair is over its limit when the estimate has
  grown by more than the limit since the last epoch. What happens to an attribute over its
  limit depends on the enforcement mode: the point is tagged, the value is overwritten by a
  sentinel, or the attribute is removed and the points that became equal are merged
  (\<open>reaggregation.go\<close>). A background goroutine rotates the epoch at every tick: it publishes
  the pairs of highest growth, makes every tracker start anew and evicts idle ones.

  \<^bold>\<open>From the code to the theories\<close> (file names under \<open>src/cardinalityprocessor/\<close>):

  \<^item> \<open>Prelude\<close>: Go's integer types, the loop over a slice with a threaded state (\<open>traverse\<close>) and
    the locales for what such a loop inherits from its body.
  \<^item> \<open>Pdata\<close>: the incoming data, and the record \<open>lib\<close> of the functions of other packages.
  \<^item> \<open>Config\<close>: \<open>config.go\<close> (\<open>Config\<close>, \<open>Validate\<close>, \<open>ResolvedEnforcementMode\<close>) and the default
    configuration of \<open>factory.go\<close>.
  \<^item> \<open>Tracker\<close>: \<open>tracker\<close>, its \<open>insert\<close> and \<open>rotate\<close>, and the comparison at the end of \<open>shouldDrop\<close>.
  \<^item> \<open>Shards\<close>, \<open>Processor_State\<close>: \<open>trackerShard\<close>, \<open>cardinalityProcessor\<close>, \<open>getShard\<close>. The locale
    \<open>kv_store\<close> is what decision and rotation need of the maps; it is interpreted on one
    shard's map and on the array of shards.
  \<^item> \<open>Decision\<close>: \<open>shouldDrop\<close> of \<open>processor.go\<close>.
  \<^item> \<open>Attributes\<close>: \<open>handleAttributes\<close>, \<open>handleAttributesWithMode\<close> and its \<open>RemoveIf\<close> callback.
  \<^item> \<open>Reaggregation\<close>: all of \<open>reaggregation.go\<close>.
  \<^item> \<open>Pipeline\<close>: \<open>ConsumeMetrics\<close>, \<open>processMetric\<close> and the eight \<open>process...DataPoints...\<close> loops. The
    locale \<open>processor_contract\<close> lifts what the callback keeps to a whole batch.
  \<^item> \<open>Batch_Refinement\<close>, \<open>Quiet_Epoch\<close>: the pipeline against its specification.
  \<^item> \<open>Offenders\<close>, \<open>Rotation\<close>: \<open>collectShardDeltas\<close>, \<open>sortOffenders\<close>, \<open>publishTopOffenders\<close>, \<open>rotate\<close>.
  \<^item> \<open>Telemetry\<close>: \<open>internal/metadata/generated_telemetry.go\<close>, \<open>newCardinalityProcessor\<close> with its
    callbacks, \<open>NewFactory\<close> and \<open>createMetricsProcessor\<close> (\<open>factory.go\<close>), \<open>export_bench.go\<close>.
  \<^item> \<open>Epoch_Invariants\<close>, \<open>Lifecycle\<close>: \<open>Start\<close>, the goroutine, \<open>Shutdown\<close>, and the states that
    batches, ticks and lifecycle calls can reach. \<open>Drop_Log\<close>: a batch as one run over its data
    points, and the drop counters and lines of an epoch as functions of what was stripped.
  \<^item> \<open>Offender_Identity\<close>, \<open>Metadata\<close>: \<open>internal/metadata/generated_status.go\<close>, the scopes of
    \<open>generated_telemetry.go\<close> and the test helpers of
    \<open>internal/metadatatest/generated_telemetrytest.go\<close>, run against what a processor reports.
  \<^item> \<open>Stress\<close>, \<open>Firehose\<close>: the load generator \<open>src/internal/cmd/stress/main.go\<close>, its batches and
    its \<open>main\<close>.
  \<^item> \<open>Concurrency\<close>, \<open>Progress\<close>, \<open>Concurrent_Rotation\<close>: any number of goroutines in \<open>shouldDrop\<close> and
    one in \<open>rotate\<close>, interleaved at their locks and atomic operations.
  \<^item> \<open>Concurrent_Enforcement\<close>: the same with the rest of the attribute callback (counters, capped
    log, rejection warning) and of \<open>rotate\<close> (deltas, counter swaps, summary, publication).
    \<open>Undisturbed\<close>, \<open>Undisturbed_Rotation\<close>: its runs without interference.
    \<open>Published_Offenders\<close>, \<open>Concurrent_Counters\<close>: its invariants. \<open>Winding_Down\<close>: its progress.
    \<open>Batch_Histories\<close>: whole batches as runs of it.

  \<^bold>\<open>How state and operations are modelled.\<close> The struct \<open>cardinalityProcessor\<close> is the record
  \<open>processor\<close>; a method is a function that takes it last and returns it with its result.
  An \<open>int\<close>, \<open>int64\<close> or \<open>uint64\<close> is a \<open>64 word\<close>, read with \<open>sint\<close> or \<open>unat\<close>, so counters and
  differences wrap as in Go. A \<open>float64\<close> is its bit pattern. A Go map is a list of entries with
  distinct keys; the order in which \<open>range\<close> visits it is a parameter of \<open>processor_rotate\<close>
  (any permutation). Errors and early returns are \<open>option\<close> values. What the logger receives
  is a field of the state. Nothing runs on fuel: every loop of the code goes over a slice, a map or
  an index range and is structural recursion, \<open>fold\<close> or \<open>traverse\<close>; the one unbounded loop, the
  goroutine of \<open>Start\<close>, is a step relation.
\<close>

text \<open>
  \<^bold>\<open>What the theorems show.\<close>

  \<^item> The decision: \<open>shouldDrop\<close> refines a decision on one flat map (\<open>Decision\<close>); a label within its
    limit is never dropped, from its first value on, and with an exact counter the first drop
    comes at a value that only the limit determines (\<open>Tracker\<close>); verdicts on different labels
    are independent.
  \<^item> The batch: a batch is one sequence of decisions in every mode (\<open>Batch_Refinement\<close>), and on
    traffic within the limits the processor is the identity, but for strip mode's merging of
    points that come in with one identity (\<open>Quiet_Epoch\<close>). Beyond the limits:
    what each mode does to the attributes, totals and exemplars of sums are conserved,
    protected labels survive (unless the overflow tag itself is protected; merged points lose
    none if the identity hash separates them), tagging loses nothing, strip mode leaves no two
    points with one identity (\<open>Attributes\<close>, \<open>Pipeline\<close>), and the in-place reaggregation equals
    grouping by identity and folding each group (\<open>Reaggregation\<close>).
  \<^item> The stress test end to end: of what the tool delivers, the batches lose their session id
    from the 128th session on, whatever fails or is lost on the way, if the hashes are distinct
    and the sketches err by at most a fifth (\<open>Firehose\<close>).
  \<^item> The epoch: a rotation evicts or rotates every tracker once whatever the map order, publishes
    the top offenders in order (\<open>Rotation\<close>), and evicts exactly after the second idle epoch
    (\<open>Lifecycle\<close>).
  \<^item> The life, as long as calls do not overlap: in every reachable state the budget holds and the
    gauge is true, a collection reports the state, shutdown releases what construction
    acquired (\<open>Lifecycle\<close>), the drop log of an epoch has one line per stripped attribute up to
    the cap (\<open>Drop_Log\<close>), and the test helpers read back exactly what is reported (\<open>Metadata\<close>).
  \<^item> Concurrency: whatever the interleaving, the tracker counter is the number of tracked pairs but
    for the goroutines between a map update and its count, the budget is exceeded by at most
    255, the drop log keeps to its cap, the rejection warning comes once per reset, and the
    published offenders are in order, distinct and within their number. Every sequential
    history of batches and rotations is an interleaving that shows the same processor. A call
    takes at most seven steps, rotations terminate, there is no deadlock, and a run that starts
    nothing new ends with everybody at rest.
  \<^item> Flaws, each proved on the model: the budget can be exceeded by concurrent inserts, an insert
    can be lost to an eviction, the suppression summary is never or wrongly logged without
    overlapping calls and counts goroutines between two additions with them, an epoch that
    validation accepts crashes the goroutine, a failing constructor leaks its callbacks, a cancelled parent context ends
    rotation for good, and two equal attribute entries cancel in the identity hash.

  \<^bold>\<open>Parameters and hypotheses.\<close> The record \<open>lib\<close> holds the functions of \<open>pdata\<close>, \<open>hyperloglog\<close>,
  \<open>xxhash\<close>, \<open>maphash\<close>, the float unit and Unicode case folding. \<open>pdata_laws\<close> is the documented
  effect of the attribute map and slice calls. \<open>sketch_laws\<close> says a sketch stands for the set
  of hashes inserted into it, and \<open>accurate\<close> bounds the error of its estimate on given sets
  (HyperLogLog has such a bound with high probability only). Theorems about identities hold for
  the hash as it is; two attribute maps whose hashes collide are one identity there. The downstream
  consumer, the metric SDK (\<open>meter\<close>) and the hash seed are arguments. \<open>reader_exports\<close> and
  \<open>ignores_timestamps\<close> say that the SDK's test reader returns what was observed and that its
  comparison ignores times. \<open>otlp_laws\<close> says the receiver decodes what the marshaller wrote.
  \<open>ref_lib\<close> is a concrete instance, on which the witnesses evaluate.

  \<^bold>\<open>Bounds.\<close> 256 shards, estimate interval 64 and two idle epochs are the constants of the code. The
  drop threshold and the accuracy statements are for fewer than \<open>2^64\<close> inserts per epoch, the
  log cap for fewer than \<open>2^63\<close> strips per epoch (the counters themselves for any number), the overshoot bound for budgets below \<open>2^62\<close>
  (validation allows ten million).

  \<^bold>\<open>Not modelled.\<close> Outside the concurrent theories an operation runs to its end. In them, a
  read-locked section is one step, as are taking the write lock with the lookup under it,
  its release with the count of a rejection, and the publication under its lock; the
  callbacks of the metric SDK and \<open>Shutdown\<close> do not interleave with them; memory is
  sequentially consistent. The sketch pool is a constructor of fresh sketches; allocation
  failure is ignored. Error values are constructors or short strings, not the formatted
  messages. Of the stress tool, time is only the order of the steps. The option type of
  \<open>NewTelemetryBuilder\<close> has no model: nothing in the repository makes or passes an option.
\<close>

end
